(* ===== verification/Prelude.thy ===== *)
theory Prelude
  imports Main "HOL-Library.Word"
begin

text \<open>
  Shared vocabulary of the development: machine integers and byte strings, the result type
  of the C routines, bounded buffers and bounds-checked reads, C strings and their ASCII
  case folding, and the proof collections the component theories extend.

  A C routine that reads or writes memory returns an \<open>'a res\<close>: \<open>Ok v\<close> when the routine
  succeeds, \<open>Err\<close> when it takes one of its own \<^verbatim>\<open>return -1\<close> paths, and \<open>Fault\<close> when it would
  access memory outside the object it was given. \<open>Fault\<close> is therefore never a value the code
  returns: a theorem that an operation is not \<open>Fault\<close> is a memory safety theorem.
\<close>

unbundle bit_operations_syntax

section \<open>Machine types\<close>

type_synonym byte = "8 word"
type_synonym u16 = "16 word"
type_synonym u32 = "32 word"
type_synonym u64 = "64 word"
type_synonym bytes = "byte list"

text \<open>A C string: the bytes before the terminating NUL.\<close>

type_synonym cstring = "byte list"

named_theorems res_simps \<open>evaluation of the result monad\<close>
named_theorems nofault \<open>operations that never leave their buffers\<close>
named_theorems model_defs \<open>definitions unfolded when a concrete input is evaluated\<close>

section \<open>Results\<close>

datatype 'a res = Ok 'a | Err | Fault

fun res_bind :: "'a res \<Rightarrow> ('a \<Rightarrow> 'b res) \<Rightarrow> 'b res" where
  "res_bind (Ok a) f = f a"
| "res_bind Err f = Err"
| "res_bind Fault f = Fault"

lemma res_bind_cong [fundef_cong]:
  assumes "m = n" and "\<And>x. n = Ok x \<Longrightarrow> f x = g x"
  shows "res_bind m f = res_bind n g"
  using assms by (cases n) auto

lemma res_bind_eq_Ok [simp]: "res_bind m f = Ok b \<longleftrightarrow> (\<exists>a. m = Ok a \<and> f a = Ok b)"
  by (cases m) auto

lemma Ok_eq_res_bind [simp]: "Ok b = res_bind m f \<longleftrightarrow> (\<exists>a. m = Ok a \<and> f a = Ok b)"
  by (cases m) auto

lemma res_bind_eq_Err: "res_bind m f = Err \<longleftrightarrow> m = Err \<or> (\<exists>a. m = Ok a \<and> f a = Err)"
  by (cases m) auto

lemma res_bind_eq_Fault:
  "res_bind m f = Fault \<longleftrightarrow> m = Fault \<or> (\<exists>a. m = Ok a \<and> f a = Fault)"
  by (cases m) auto

lemma res_bind_nofault:
  "m \<noteq> Fault \<Longrightarrow> (\<And>a. m = Ok a \<Longrightarrow> f a \<noteq> Fault) \<Longrightarrow> res_bind m f \<noteq> Fault"
  by (cases m) auto

text \<open>A result seen by a caller that only tests for failure.\<close>

definition is_ok :: "'a res \<Rightarrow> bool" where
  "is_ok r = (case r of Ok _ \<Rightarrow> True | _ \<Rightarrow> False)"

lemma is_ok_simps [simp]: "is_ok (Ok a)" "\<not> is_ok Err" "\<not> is_ok Fault"
  by (simp_all add: is_ok_def)

section \<open>Words\<close>

lemma unat_byte_less: "unat (b :: byte) < 256"
proof -
  have "unat b < 2 ^ LENGTH(8)" by (rule unsigned_less)
  then show ?thesis by simp
qed

lemma mask8_16: "(0xFF::u16) = mask 8"
  by (simp add: mask_eq_exp_minus_1)

lemma bit_byte_ge: "8 \<le> n \<Longrightarrow> \<not> bit (b :: byte) n"
  using bit_imp_le_length [of b n] by auto

section \<open>Buffers\<close>

text \<open>One byte, and a run of bytes, read from an object of known extent.\<close>

definition rd8 :: "bytes \<Rightarrow> nat \<Rightarrow> byte res" where
  "rd8 msg i = (if i < length msg then Ok (msg ! i) else Fault)"

definition rd_bytes :: "bytes \<Rightarrow> nat \<Rightarrow> nat \<Rightarrow> bytes res" where
  "rd_bytes msg i n = (if i + n \<le> length msg then Ok (take n (drop i msg)) else Fault)"

text \<open>
  Sequential writes into a buffer of \<open>cap\<close> bytes: \<open>buf\<close> is the part written so far, and the
  write position is its length.
\<close>

definition buf_append :: "nat \<Rightarrow> bytes \<Rightarrow> bytes \<Rightarrow> bytes res" where
  "buf_append cap buf bs = (if length buf + length bs \<le> cap then Ok (buf @ bs) else Fault)"

text \<open>Overwriting bytes that were written before.\<close>

definition buf_patch :: "bytes \<Rightarrow> nat \<Rightarrow> bytes \<Rightarrow> bytes res" where
  "buf_patch buf i bs =
     (if i + length bs \<le> length buf then Ok (take i buf @ bs @ drop (i + length bs) buf)
      else Fault)"

lemma rd8_Ok [simp]: "rd8 msg i = Ok b \<longleftrightarrow> i < length msg \<and> b = msg ! i"
  by (auto simp: rd8_def)

lemma rd8_Err [simp]: "rd8 msg i \<noteq> Err"
  by (simp add: rd8_def)

lemma rd8_Fault [simp]: "rd8 msg i = Fault \<longleftrightarrow> length msg \<le> i"
  by (auto simp: rd8_def)

lemma rd_bytes_Ok [simp]:
  "rd_bytes msg i n = Ok bs \<longleftrightarrow> i + n \<le> length msg \<and> bs = take n (drop i msg)"
  by (auto simp: rd_bytes_def)

lemma rd_bytes_Err [simp]: "rd_bytes msg i n \<noteq> Err"
  by (simp add: rd_bytes_def)

lemma rd_bytes_Fault [simp]: "rd_bytes msg i n = Fault \<longleftrightarrow> length msg < i + n"
  by (auto simp: rd_bytes_def)

lemma buf_append_Ok [simp]:
  "buf_append cap buf bs = Ok r \<longleftrightarrow> length buf + length bs \<le> cap \<and> r = buf @ bs"
  by (auto simp: buf_append_def)

lemma buf_append_Err [simp]: "buf_append cap buf bs \<noteq> Err"
  by (simp add: buf_append_def)

lemma buf_append_Fault [simp]:
  "buf_append cap buf bs = Fault \<longleftrightarrow> cap < length buf + length bs"
  by (auto simp: buf_append_def)

lemma buf_patch_Ok [simp]:
  "buf_patch buf i bs = Ok r \<longleftrightarrow>
     i + length bs \<le> length buf \<and> r = take i buf @ bs @ drop (i + length bs) buf"
  by (auto simp: buf_patch_def)

lemma buf_patch_Err [simp]: "buf_patch buf i bs \<noteq> Err"
  by (simp add: buf_patch_def)

lemma buf_patch_Fault [simp]: "buf_patch buf i bs = Fault \<longleftrightarrow> length buf < i + length bs"
  by (auto simp: buf_patch_def)

section \<open>Sizes\<close>

text \<open>
  \<^verbatim>\<open>size_t\<close> values are \<open>nat\<close>: every sum in the code stays far below \<open>2 ^ 64\<close>, since each operand
  is bounded by a buffer length plus a 16 bit field. Subtraction is where \<^verbatim>\<open>size_t\<close> can wrap,
  and it is written out.
\<close>

definition size_sub :: "nat \<Rightarrow> nat \<Rightarrow> nat" where
  "size_sub a b = (if b \<le> a then a - b else 2 ^ 64 - (b - a))"

lemma size_sub_ge [simp]: "b \<le> a \<Longrightarrow> size_sub a b = a - b"
  by (simp add: size_sub_def)

section \<open>C strings\<close>

text \<open>The string a buffer holds, and \<^verbatim>\<open>tolower\<close> in the C locale.\<close>

definition cstr :: "bytes \<Rightarrow> cstring" where
  "cstr buf = takeWhile (\<lambda>b. b \<noteq> 0) buf"

definition tolower :: "byte \<Rightarrow> byte" where
  "tolower b = (if 65 \<le> b \<and> b \<le> 90 then b + 32 else b)"

definition lower :: "cstring \<Rightarrow> cstring" where
  "lower s = map tolower s"

text \<open>Literal names, for concrete inputs.\<close>

definition ascii :: "string \<Rightarrow> cstring" where
  "ascii s = map of_char s"

text \<open>Well-formed C strings have no embedded NUL.\<close>

definition is_cstr :: "bytes \<Rightarrow> bool" where
  "is_cstr s = list_all (\<lambda>b. b \<noteq> 0) s"

lemma is_cstr_cstr [simp]: "is_cstr (cstr buf)"
  by (auto simp: is_cstr_def cstr_def list_all_iff dest: set_takeWhileD)

lemma cstr_id [simp]: "is_cstr s \<Longrightarrow> cstr s = s"
  by (auto simp: is_cstr_def cstr_def list_all_iff takeWhile_eq_all_conv)

lemma is_cstr_append [simp]: "is_cstr (a @ b) \<longleftrightarrow> is_cstr a \<and> is_cstr b"
  by (simp add: is_cstr_def)

lemma length_cstr: "length (cstr buf) \<le> length buf"
  by (simp add: cstr_def length_takeWhile_le)

section \<open>Lists\<close>

lemma length_dropWhile_less: "p \<noteq> [] \<Longrightarrow> length (dropWhile P p) - Suc 0 < length p"
  using length_dropWhile_le [of P p] by (cases p) (auto simp del: dropWhile.simps)

section \<open>Linked lists\<close>

text \<open>The nodes of a singly linked list, given the next pointer of each live node.\<close>

fun chain :: "(nat \<Rightarrow> nat option option) \<Rightarrow> nat option \<Rightarrow> nat list \<Rightarrow> bool" where
  "chain c p [] = (p = None)"
| "chain c p (x # xs) = (p = Some x \<and> (case c x of None \<Rightarrow> False | Some q \<Rightarrow> chain c q xs))"

lemma chain_frame: "(\<And>x. x \<in> set xs \<Longrightarrow> c' x = c x) \<Longrightarrow> chain c' p xs = chain c p xs"
  by (induction xs arbitrary: p) (auto split: option.splits)

lemma chain_mem: "chain c p xs \<Longrightarrow> x \<in> set xs \<Longrightarrow> c x \<noteq> None"
  by (induction xs arbitrary: p) (auto split: option.splits)

end
