(* ===== verification/DnsName.thy ===== *)
theory DnsName
  imports Prelude
begin

text \<open>
  The first half of \<^verbatim>\<open>dns_msg.c\<close>: big-endian accessors and the name codec. Names are decoded
  from the wire with compression pointers (\<open>dns_name_decode\<close>), encoded without them
  (\<open>dns_name_encode\<close>), compared case-insensitively and tested for being inside a zone.

  The reference for the decoder is the inductive predicate \<open>name_at\<close>, the grammar of RFC 1035
  section 4.1.4 with the number of pointers followed; \<open>dns_name_decode_iff\<close> shows that the loop
  accepts exactly the names of that grammar within the code's limits.
\<close>

section \<open>Constants\<close>

definition DNS_MAX_NAME :: nat where "DNS_MAX_NAME = 255"
definition DNS_MAX_LABEL :: nat where "DNS_MAX_LABEL = 63"
definition DNS_HDR_LEN :: nat where "DNS_HDR_LEN = 12"
definition MAX_PTR_JUMPS :: nat where "MAX_PTR_JUMPS = 32"

lemmas dns_name_consts [simp] =
  DNS_MAX_NAME_def DNS_MAX_LABEL_def DNS_HDR_LEN_def MAX_PTR_JUMPS_def

section \<open>Big-endian accessors\<close>

definition be16 :: "byte \<Rightarrow> byte \<Rightarrow> u16" where
  "be16 a b = push_bit 8 (ucast a) OR ucast b"

definition be32 :: "byte \<Rightarrow> byte \<Rightarrow> byte \<Rightarrow> byte \<Rightarrow> u32" where
  "be32 a b c d =
     push_bit 24 (ucast a) OR push_bit 16 (ucast b) OR push_bit 8 (ucast c) OR ucast d"

definition rd16 :: "bytes \<Rightarrow> nat \<Rightarrow> u16 res" where
  "rd16 msg p = res_bind (rd8 msg p) (\<lambda>a. res_bind (rd8 msg (p + 1)) (\<lambda>b. Ok (be16 a b)))"

definition rd32 :: "bytes \<Rightarrow> nat \<Rightarrow> u32 res" where
  "rd32 msg p =
     res_bind (rd8 msg p) (\<lambda>a. res_bind (rd8 msg (p + 1)) (\<lambda>b.
     res_bind (rd8 msg (p + 2)) (\<lambda>c. res_bind (rd8 msg (p + 3)) (\<lambda>d. Ok (be32 a b c d)))))"

definition wr16 :: "u16 \<Rightarrow> bytes" where
  "wr16 v = [ucast (drop_bit 8 v), ucast (v AND 0xFF)]"

definition wr32 :: "u32 \<Rightarrow> bytes" where
  "wr32 v = [ucast (drop_bit 24 v), ucast (drop_bit 16 v), ucast (drop_bit 8 v), ucast v]"

section \<open>The name codec\<close>

text \<open>
  The decoding loop: \<open>out\<close> is what has been written (its length is \<^verbatim>\<open>written\<close>), \<open>after\<close> is
  meaningful once \<open>jumped\<close> holds.
\<close>

function dns_name_decode_loop ::
  "bytes \<Rightarrow> nat \<Rightarrow> nat \<Rightarrow> bytes \<Rightarrow> nat \<Rightarrow> bool \<Rightarrow> nat \<Rightarrow> (bytes \<times> nat) res" where
  "dns_name_decode_loop msg out_cap off out jumps jumped after =
    (if length msg \<le> off then Err
     else res_bind (rd8 msg off) (\<lambda>l.
       if l = 0 then Ok (out, if jumped then after else off + 1)
       else if l AND 0xC0 = 0xC0 then
         (if length msg \<le> off + 1 then Err
          else if MAX_PTR_JUMPS < jumps + 1 then Err
          else res_bind (rd8 msg (off + 1)) (\<lambda>b.
            let target = unat (be16 (l AND 0x3F) b);
                after' = (if jumped then after else off + 2)
            in if off \<le> target then Err
               else dns_name_decode_loop msg out_cap target out (jumps + 1) True after'))
       else if l AND 0xC0 \<noteq> 0 then Err
       else if DNS_MAX_LABEL < unat l then Err
       else if length msg < off + 1 + unat l then Err
       else if out_cap < length out + (if out \<noteq> [] then 1 else 0) + unat l + 1 then Err
       else if DNS_MAX_NAME < length out + unat l then Err
       else res_bind (if out \<noteq> [] then buf_append out_cap out [46] else Ok out) (\<lambda>out1.
            res_bind (rd_bytes msg (off + 1) (unat l)) (\<lambda>lab.
            res_bind (buf_append out_cap out1 (lower lab)) (\<lambda>out2.
              dns_name_decode_loop msg out_cap (off + 1 + unat l) out2 jumps jumped after)))))"
  by pat_completeness auto
termination
  by (relation "measures [\<lambda>(msg, cap, off, out, jumps, jumped, after). MAX_PTR_JUMPS - jumps,
                          \<lambda>(msg, cap, off, out, jumps, jumped, after). length msg - off]") auto

declare dns_name_decode_loop.simps [simp del]

definition dns_name_decode :: "bytes \<Rightarrow> nat \<Rightarrow> nat \<Rightarrow> (cstring \<times> nat) res" where
  "dns_name_decode msg off out_cap =
     (if out_cap = 0 then Err
      else res_bind (dns_name_decode_loop msg out_cap off [] 0 False 0) (\<lambda>(out, after).
           res_bind (buf_append out_cap out [0]) (\<lambda>buf. Ok (cstr buf, after))))"

text \<open>
  The encoding loop: \<open>p\<close> is the rest of the name. \<^verbatim>\<open>strchr\<close> splits it at the first dot.
\<close>

definition enc_finish :: "nat \<Rightarrow> bytes \<Rightarrow> bytes res" where
  "enc_finish cap out =
     (if cap < length out + 1 then Err
      else res_bind (buf_append cap out [0]) (\<lambda>out1.
           if DNS_MAX_NAME + 1 < length out1 then Err else Ok out1))"

function dns_name_encode_loop :: "nat \<Rightarrow> cstring \<Rightarrow> bytes \<Rightarrow> bytes res" where
  "dns_name_encode_loop cap p out =
    (if p = [] then enc_finish cap out
     else let lab = takeWhile (\<lambda>c. c \<noteq> 46) p;
              dot = dropWhile (\<lambda>c. c \<noteq> 46) p;
              l = length lab
       in if l = 0 \<or> DNS_MAX_LABEL < l then Err
          else if cap < length out + 1 + l + 1 then Err
          else res_bind (buf_append cap out (word_of_nat l # lab)) (\<lambda>out1.
            if dot = [] then enc_finish cap out1
            else if tl dot = [] then enc_finish cap out1
            else dns_name_encode_loop cap (tl dot) out1))"
  by pat_completeness auto
termination
  by (relation "measure (\<lambda>(cap, p, out). length p)")
    (simp_all add: length_dropWhile_less)

declare dns_name_encode_loop.simps [simp del]

definition dns_name_encode :: "cstring \<Rightarrow> nat \<Rightarrow> bytes res" where
  "dns_name_encode name cap =
     (if name = [] \<or> name = [46] then (if cap < 1 then Err else buf_append cap [] [0])
      else dns_name_encode_loop cap name [])"

fun dns_name_equal :: "cstring \<Rightarrow> cstring \<Rightarrow> bool" where
  "dns_name_equal (a # as) (b # bs) =
     (if tolower a \<noteq> tolower b then False else dns_name_equal as bs)"
| "dns_name_equal [] [] = True"
| "dns_name_equal _ _ = False"

definition dns_name_in_bailiwick :: "cstring \<Rightarrow> cstring \<Rightarrow> bool" where
  "dns_name_in_bailiwick name zone =
     (if zone = [] then True
      else let nl = length name; zl = length zone
        in if nl = zl then dns_name_equal name zone
           else if nl < zl + 2 then False
           else name ! (nl - zl - 1) = 46 \<and> dns_name_equal (drop (nl - zl) name) zone)"

section \<open>Accessors: bounds and round trips\<close>

lemma rd16_Ok [simp]:
  "rd16 msg p = Ok v \<longleftrightarrow> p + 1 < length msg \<and> v = be16 (msg ! p) (msg ! (p + 1))"
  by (auto simp: rd16_def)

lemma rd16_Err [simp]: "rd16 msg p \<noteq> Err"
  by (simp add: rd16_def res_bind_eq_Err)

lemma rd16_Fault [simp]: "rd16 msg p = Fault \<longleftrightarrow> length msg \<le> p + 1"
  by (auto simp: rd16_def res_bind_eq_Fault)

lemma rd32_Ok [simp]:
  "rd32 msg p = Ok v \<longleftrightarrow>
     p + 3 < length msg \<and> v = be32 (msg ! p) (msg ! (p + 1)) (msg ! (p + 2)) (msg ! (p + 3))"
  by (auto simp: rd32_def)

lemma rd32_Err [simp]: "rd32 msg p \<noteq> Err"
  by (simp add: rd32_def res_bind_eq_Err)

lemma rd32_Fault [simp]: "rd32 msg p = Fault \<longleftrightarrow> length msg \<le> p + 3"
  by (auto simp: rd32_def res_bind_eq_Fault)

lemma length_wr16 [simp]: "length (wr16 v) = 2"
  by (simp add: wr16_def)

lemma length_wr32 [simp]: "length (wr32 v) = 4"
  by (simp add: wr32_def)

lemma be16_wr16 [simp]: "be16 (wr16 v ! 0) (wr16 v ! Suc 0) = v"
  unfolding be16_def wr16_def mask8_16
  by (rule bit_word_eqI) (auto simp: bit_simps)

lemma be32_wr32 [simp]:
  "be32 (wr32 v ! 0) (wr32 v ! Suc 0) (wr32 v ! 2) (wr32 v ! 3) = v"
proof (rule bit_word_eqI)
  fix n assume n: "n < LENGTH(32)"
  consider "n < 8" | "8 \<le> n" "n < 16" | "16 \<le> n" "n < 24" | "24 \<le> n" by linarith
  then show "bit (be32 (wr32 v ! 0) (wr32 v ! Suc 0) (wr32 v ! 2) (wr32 v ! 3)) n = bit v n"
    using n by cases (auto simp: be32_def wr32_def bit_simps bit_byte_ge)
qed

lemma wr16_be16 [simp]: "wr16 (be16 a b) = [a, b]"
  unfolding be16_def wr16_def mask8_16
  by (auto intro!: bit_word_eqI simp: bit_simps bit_byte_ge)

lemma rd16_at:
  "length pre = p \<Longrightarrow> rd16 (pre @ wr16 v @ post) p = Ok v"
  by (auto simp: nth_append)

lemma rd32_at:
  "length pre = p \<Longrightarrow> rd32 (pre @ wr32 v @ post) p = Ok v"
  by (auto simp: nth_append)

lemma unat_be16: "unat (be16 a b) = unat a * 256 + unat b"
proof -
  have eq: "be16 a b = push_bit 8 (ucast a) + ucast b"
    unfolding be16_def
    by (rule disjunctive_add [symmetric]) (auto simp: bit_simps dest: bit_imp_le_length)
  have "unat (push_bit 8 (ucast a :: u16)) = unat a * 256"
    using unat_byte_less [of a]
    by (simp add: unsigned_push_bit_eq unsigned_ucast_eq take_bit_nat_eq_self push_bit_eq_mult unat_word_ariths)
  then show ?thesis
    using unat_byte_less [of a] unat_byte_less [of b] unfolding eq
    by (simp add: unat_word_ariths unsigned_ucast_eq take_bit_nat_eq_self del: push_bit_numeral_minus_1)
qed

section \<open>Case folding, equality and zones\<close>

lemma unat_tolower:
  "unat (tolower b) = (if 65 \<le> unat b \<and> unat b \<le> 90 then unat b + 32 else unat b)"
  by (simp add: tolower_def word_le_nat_alt unat_word_ariths)

lemma tolower_idem [simp]: "tolower (tolower b) = tolower b"
  by (simp add: word_unat_eq_iff unat_tolower)

lemma tolower_eq_0 [simp]: "tolower b = 0 \<longleftrightarrow> b = 0"
  by (simp add: word_unat_eq_iff unat_tolower)

lemma tolower_eq_dot [simp]: "tolower b = 46 \<longleftrightarrow> b = 46"
  by (simp add: word_unat_eq_iff unat_tolower)

lemma length_lower [simp]: "length (lower s) = length s"
  by (simp add: lower_def)

lemma lower_append [simp]: "lower (a @ b) = lower a @ lower b"
  by (simp add: lower_def)

lemma lower_Cons [simp]: "lower (a # b) = tolower a # lower b"
  by (simp add: lower_def)

lemma lower_Nil [simp]: "lower [] = []"
  by (simp add: lower_def)

lemma lower_eq_Nil [simp]: "lower a = [] \<longleftrightarrow> a = []"
  by (simp add: lower_def)

lemma Nil_eq_lower [simp]: "[] = lower a \<longleftrightarrow> a = []"
  by (auto simp: lower_def)

lemma lower_idem [simp]: "lower (lower s) = lower s"
  by (simp add: lower_def)

lemma is_cstr_lower [simp]: "is_cstr (lower s) = is_cstr s"
  by (simp add: is_cstr_def lower_def list_all_iff)

lemma dns_name_equal_iff: "dns_name_equal a b \<longleftrightarrow> lower a = lower b"
  by (induction a b rule: dns_name_equal.induct) auto

lemma lower_drop: "lower (drop n s) = drop n (lower s)"
  by (simp add: lower_def drop_map)

lemma lower_nth_dot: "i < length s \<Longrightarrow> s ! i = 46 \<longleftrightarrow> lower s ! i = 46"
  by (simp add: lower_def)

text \<open>
  What it means to lie inside a zone: be the zone, or end in a dot followed by the zone, with
  something in front. The root zone, the empty name, contains everything.
\<close>

definition below_zone :: "cstring \<Rightarrow> cstring \<Rightarrow> bool" where
  "below_zone name zone \<longleftrightarrow> zone = [] \<or> lower name = lower zone
     \<or> (\<exists>pre. pre \<noteq> [] \<and> lower name = pre @ 46 # lower zone)"

lemma dns_name_in_bailiwick_iff: "dns_name_in_bailiwick name zone \<longleftrightarrow> below_zone name zone"
proof (cases "zone = [] \<or> length name < length zone + 2")
  case True
  have short: "lower name \<noteq> pre @ 46 # lower zone"
    if "pre \<noteq> []" "length name < length zone + 2" for pre
    using that by (auto dest!: arg_cong [of "lower name" _ length])
  have eq: "length name = length zone" if "lower name = lower zone"
    using arg_cong [OF that, of length] by simp
  show ?thesis
  proof (cases "zone = []")
    case False
    with True have "length name < length zone + 2" by simp
    with False short eq show ?thesis
      unfolding dns_name_in_bailiwick_def below_zone_def dns_name_equal_iff Let_def by auto
  qed (simp add: dns_name_in_bailiwick_def below_zone_def)
next
  case False
  let ?k = "length name - length zone - 1"
  from False have k: "?k < length name" "0 < ?k" "length name - length zone = Suc ?k" by auto
  have split: "lower name = take ?k (lower name) @ lower name ! ?k # drop (Suc ?k) (lower name)"
    using k(1) by (intro id_take_nth_drop) simp
  have "(\<exists>pre. pre \<noteq> [] \<and> lower name = pre @ 46 # lower zone) \<longleftrightarrow>
        lower name ! ?k = 46 \<and> drop (Suc ?k) (lower name) = lower zone" (is "?L \<longleftrightarrow> ?R")
  proof
    assume ?L
    then obtain pre where pre: "pre \<noteq> []" "lower name = pre @ 46 # lower zone" by blast
    then have "length pre = ?k" by (auto dest!: arg_cong [of _ _ length])
    with pre(2) show ?R by (auto simp: nth_append)
  next
    assume ?R
    with split have "lower name = take ?k (lower name) @ 46 # lower zone" by metis
    moreover have "take ?k (lower name) \<noteq> []" using k by auto
    ultimately show ?L by blast
  qed
  moreover have "lower name \<noteq> lower zone" using False by (metis length_lower less_add_same_cancel1 zero_less_numeral)
  moreover have "dns_name_in_bailiwick name zone \<longleftrightarrow>
      lower name ! ?k = 46 \<and> drop (Suc ?k) (lower name) = lower zone"
    using False k(3) lower_nth_dot [OF k(1)]
    by (simp add: dns_name_in_bailiwick_def dns_name_equal_iff Let_def lower_drop)
  ultimately show ?thesis
    using False by (simp add: below_zone_def)
qed

lemma below_zone_refl [simp]: "below_zone n n"
  by (simp add: below_zone_def)

lemma below_zone_root [simp]: "below_zone n []"
  by (simp add: below_zone_def)

lemma below_zone_append:
  "lower a = pre @ 46 # lower b \<Longrightarrow> lower b = pre' @ 46 # lower c \<Longrightarrow> below_zone a c"
  unfolding below_zone_def by (metis append.assoc append_Cons append_is_Nil_conv list.discI)

lemma below_zone_trans:
  assumes ab: "below_zone a b" and bc: "below_zone b c"
  shows "below_zone a c"
proof (cases "c = [] \<or> lower b = lower c")
  case True
  then show ?thesis using ab bc by (auto simp: below_zone_def)
next
  case False
  with bc obtain pre' where b: "lower b = pre' @ 46 # lower c"
    by (auto simp: below_zone_def)
  then have "b \<noteq> []" by auto
  with ab consider "lower a = lower b" | pre where "lower a = pre @ 46 # lower b"
    by (auto simp: below_zone_def)
  then show ?thesis
  proof cases
    case 1
    with bc show ?thesis by (simp add: below_zone_def)
  next
    case 2
    then show ?thesis using b by (rule below_zone_append)
  qed
qed

lemma below_zone_length: "below_zone a b \<Longrightarrow> length b \<le> length a"
  unfolding below_zone_def by (metis add_leD2 length_append length_lower length_Cons le_add2
      list.size(3) order_refl Suc_leD zero_le)

lemma below_zone_antisym:
  assumes ab: "below_zone a b" and ba: "below_zone b a"
  shows "lower a = lower b"
proof -
  have len: "length a = length b"
    using below_zone_length [OF ab] below_zone_length [OF ba] by simp
  then have "lower a \<noteq> pre @ 46 # lower b" for pre
    by (metis length_lower length_append length_Cons n_not_Suc_n add_Suc_right
        less_add_Suc2 less_irrefl_nat)
  with ab len show ?thesis by (auto simp: below_zone_def)
qed

section \<open>The name grammar, and the decoder against it\<close>

inductive name_at :: "bytes \<Rightarrow> nat \<Rightarrow> bytes list \<Rightarrow> nat \<Rightarrow> nat \<Rightarrow> bool" for msg where
  root: "off < length msg \<Longrightarrow> msg ! off = 0 \<Longrightarrow> name_at msg off [] 0 (off + 1)"
| label: "off + 1 + unat l \<le> length msg \<Longrightarrow> l = msg ! off \<Longrightarrow> l \<noteq> 0 \<Longrightarrow> l AND 0xC0 = 0 \<Longrightarrow>
    name_at msg (off + 1 + unat l) ls j nxt \<Longrightarrow>
    name_at msg off (take (unat l) (drop (off + 1) msg) # ls) j nxt"
| pointer: "off + 1 < length msg \<Longrightarrow> msg ! off AND 0xC0 = 0xC0 \<Longrightarrow>
    t = unat (be16 (msg ! off AND 0x3F) (msg ! (off + 1))) \<Longrightarrow> t < off \<Longrightarrow>
    name_at msg t ls j nxt \<Longrightarrow> name_at msg off ls (j + 1) (off + 2)"

inductive_cases name_atE: "name_at msg off ls j nxt"

text \<open>The text form of a label sequence: the labels separated by dots.\<close>

fun dotted_onto :: "bytes \<Rightarrow> bytes list \<Rightarrow> bytes" where
  "dotted_onto out [] = out"
| "dotted_onto out (l # ls) = dotted_onto ((if out \<noteq> [] then out @ [46] else out) @ l) ls"

abbreviation dotted :: "bytes list \<Rightarrow> bytes" where
  "dotted \<equiv> dotted_onto []"

lemma length_dotted_onto: "length out \<le> length (dotted_onto out ls)"
proof (induction ls arbitrary: out)
  case (Cons l ls)
  have "length out \<le> length ((if out \<noteq> [] then out @ [46] else out) @ l)" by simp
  also have "\<dots> \<le> length (dotted_onto ((if out \<noteq> [] then out @ [46] else out) @ l) ls)"
    by (rule Cons.IH)
  finally show ?case by simp
qed simp

text \<open>Only the lengths of the labels matter for the length of the text.\<close>

lemma length_dotted_onto_eq:
  "length out = length out' \<Longrightarrow> map length ls = map length ls' \<Longrightarrow>
   length (dotted_onto out ls) = length (dotted_onto out' ls')"
proof (induction ls arbitrary: out out' ls')
  case (Cons l ls)
  then obtain l' rest where ls': "ls' = l' # rest" "length l = length l'" "map length ls = map length rest"
    by (cases ls') auto
  have "out = [] \<longleftrightarrow> out' = []" using Cons.prems(1) by auto
  with Cons.prems(1) ls' show ?case by (auto intro!: Cons.IH)
qed simp

lemma label_len:
  assumes "(l :: byte) AND 0xC0 = 0"
  shows "unat l \<le> 63"
proof -
  have ones: "(- 1 :: byte) = 0xC0 OR 0x3F" by simp
  have "l = l AND - 1" by simp
  also have "\<dots> = l AND (0xC0 OR 0x3F)" by (simp only: ones)
  also have "\<dots> = (l AND 0xC0) OR (l AND 0x3F)" by (rule bit.conj_disj_distrib)
  also have "\<dots> = l AND 0x3F" using assms by simp
  finally have "l \<le> 0x3F" by (metis word_and_le1)
  then show ?thesis by (simp add: word_le_nat_alt)
qed

lemma len_label:
  assumes "n \<le> 63"
  shows "(word_of_nat n :: byte) AND 0xC0 = 0"
proof -
  have "list_all (\<lambda>n. (word_of_nat n :: byte) AND 0xC0 = 0) [0..<64]" by code_simp
  with assms show ?thesis by (auto simp: list_all_iff)
qed

lemma decode_loop_root:
  assumes "off < length msg" "msg ! off = 0"
  shows "dns_name_decode_loop msg cap off out jumps jumped after =
     Ok (out, if jumped then after else off + 1)"
  using assms by (subst dns_name_decode_loop.simps) (simp add: rd8_def)

lemma decode_loop_pointer:
  assumes "off + 1 < length msg" "msg ! off AND 0xC0 = 0xC0" "jumps < 32"
    and "t = unat (be16 (msg ! off AND 0x3F) (msg ! (off + 1)))" "t < off"
  shows "dns_name_decode_loop msg cap off out jumps jumped after =
     dns_name_decode_loop msg cap t out (jumps + 1) True (if jumped then after else off + 2)"
  using assms by (subst dns_name_decode_loop.simps) (auto simp: rd8_def Let_def)

lemma decode_loop_label:
  assumes "off + 1 + unat (msg ! off) \<le> length msg" "msg ! off \<noteq> 0" "msg ! off AND 0xC0 = 0"
    and "length (dotted_onto out [take (unat (msg ! off)) (drop (off + 1) msg)]) < cap"
    and "cap \<le> 256"
  shows "dns_name_decode_loop msg cap off out jumps jumped after =
     dns_name_decode_loop msg cap (off + 1 + unat (msg ! off))
       (dotted_onto out [lower (take (unat (msg ! off)) (drop (off + 1) msg))]) jumps jumped after"
  using assms label_len [OF assms(3)]
  by (subst dns_name_decode_loop.simps) (auto simp: rd8_def rd_bytes_def buf_append_def split: if_splits)

text \<open>The three ways an iteration that does not reject the name can go.\<close>

lemma decode_loop_cases:
  assumes ok: "dns_name_decode_loop msg cap off out jumps jumped after = r" and "r \<noteq> Err"
  obtains (root) "off < length msg" "msg ! off = 0" "r = Ok (out, if jumped then after else off + 1)"
  | (pointer) t where "off + 1 < length msg" "msg ! off \<noteq> 0" "msg ! off AND 0xC0 = 0xC0" "jumps < 32"
      "t = unat (be16 (msg ! off AND 0x3F) (msg ! (off + 1)))" "t < off"
      "dns_name_decode_loop msg cap t out (jumps + 1) True (if jumped then after else off + 2) = r"
  | (label) "off + 1 + unat (msg ! off) \<le> length msg" "msg ! off \<noteq> 0" "msg ! off AND 0xC0 = 0"
      "length (dotted_onto out [take (unat (msg ! off)) (drop (off + 1) msg)]) < cap"
      "length out + unat (msg ! off) \<le> 255"
      "dns_name_decode_loop msg cap (off + 1 + unat (msg ! off))
       (dotted_onto out [lower (take (unat (msg ! off)) (drop (off + 1) msg))]) jumps jumped after = r"
  using ok assms(2)
  by (subst (asm) dns_name_decode_loop.simps)
    (auto simp: Let_def rd8_def rd_bytes_def buf_append_def split: if_splits)

lemma decode_loop_sound:
  assumes "dns_name_decode_loop msg cap off out jumps jumped after = Ok r"
    and "length out < cap" "jumps \<le> 32"
  shows "\<exists>ls j nxt. name_at msg off ls j nxt \<and> jumps + j \<le> 32 \<and> fst r = dotted_onto out (map lower ls)
     \<and> length (fst r) < cap \<and> snd r = (if jumped then after else nxt)"
  using assms
proof (induction msg cap off out jumps jumped after rule: dns_name_decode_loop.induct)
  case (1 msg cap off out jumps jumped after)
  from "1.prems"(1) res.distinct(1) show ?case
  proof (cases rule: decode_loop_cases)
    case root
    show ?thesis
      by (rule exI [of _ "[]"], rule exI [of _ 0], rule exI [of _ "off + 1"])
        (use root "1.prems" name_at.root [OF root(1,2)] in auto)
  next
    case (pointer t)
    have "\<exists>ls j nxt. name_at msg t ls j nxt \<and> jumps + 1 + j \<le> 32 \<and> fst r = dotted_onto out (map lower ls)
      \<and> length (fst r) < cap \<and> snd r = (if True then if jumped then after else off + 2 else nxt)"
      using "1.prems" pointer by (intro "1.IH"(1)) (auto simp: rd8_def)
    then obtain ls j nxt where ih: "name_at msg t ls j nxt" "jumps + 1 + j \<le> 32"
      "fst r = dotted_onto out (map lower ls)" "length (fst r) < cap"
      "snd r = (if jumped then after else off + 2)" by auto
    from pointer ih(1) have "name_at msg off ls (j + 1) (off + 2)"
      by (intro name_at.pointer)
    with ih show ?thesis
      by - (rule exI [of _ ls], rule exI [of _ "j + 1"], rule exI [of _ "off + 2"], auto)
  next
    case label
    let ?lab = "take (unat (msg ! off)) (drop (off + 1) msg)"
    have "\<exists>ls j nxt. name_at msg (off + 1 + unat (msg ! off)) ls j nxt \<and> jumps + j \<le> 32 \<and>
      fst r = dotted_onto (dotted_onto out [lower ?lab]) (map lower ls)
      \<and> length (fst r) < cap \<and> snd r = (if jumped then after else nxt)"
      using "1.prems" label label_len [OF label(3)]
      by (intro "1.IH"(2) [of "msg ! off" "if out \<noteq> [] then out @ [46] else out" ?lab])
        (auto simp: rd8_def buf_append_def split: if_splits)
    then obtain ls j nxt where ih: "name_at msg (off + 1 + unat (msg ! off)) ls j nxt"
      "jumps + j \<le> 32" "fst r = dotted_onto (dotted_onto out [lower ?lab]) (map lower ls)"
      "length (fst r) < cap" "snd r = (if jumped then after else nxt)" by auto
    have "name_at msg off (?lab # ls) j nxt"
      using label ih(1) by (intro name_at.label) auto
    with ih show ?thesis
      by - (rule exI [of _ "?lab # ls"], rule exI [of _ j], rule exI [of _ nxt], auto)
  qed
qed

lemma decode_loop_complete:
  assumes "name_at msg off ls j nxt" "jumps + j \<le> 32" "length (dotted_onto out ls) < cap" "cap \<le> 256"
  shows "dns_name_decode_loop msg cap off out jumps jumped after =
    Ok (dotted_onto out (map lower ls), if jumped then after else nxt)"
  using assms
proof (induction arbitrary: out jumps jumped after rule: name_at.induct)
  case (root off)
  then show ?case by (simp add: decode_loop_root)
next
  case (label off l ls j nxt)
  let ?lab = "take (unat l) (drop (off + 1) msg)"
  have "length (dotted_onto out [?lab]) < cap"
    using label.prems(2) length_dotted_onto [of "dotted_onto out [?lab]" ls] by simp
  then have "dns_name_decode_loop msg cap off out jumps jumped after =
    dns_name_decode_loop msg cap (off + 1 + unat l) (dotted_onto out [lower ?lab]) jumps jumped after"
    using label.hyps label.prems(3) by (simp add: decode_loop_label)
  also have "\<dots> = Ok (dotted_onto (dotted_onto out [lower ?lab]) (map lower ls), if jumped then after else nxt)"
    using label.prems length_dotted_onto_eq [of "dotted_onto out [lower ?lab]" "dotted_onto out [?lab]" ls ls]
    by (intro label.IH) simp_all
  finally show ?case by simp
next
  case (pointer off t ls j nxt)
  then show ?case by (simp add: decode_loop_pointer)
qed

lemma name_at_bounds: "name_at msg off ls j nxt \<Longrightarrow> off < nxt \<and> nxt \<le> length msg"
  by (induction rule: name_at.induct) auto

lemma lower_dotted_onto: "lower (dotted_onto out ls) = dotted_onto (lower out) (map lower ls)"
  by (induction ls arbitrary: out) (auto simp: tolower_def)

lemma cstr_snoc_0 [simp]: "cstr (s @ [0]) = cstr s"
  by (induction s) (auto simp: cstr_def)

lemma decode_loop_nofault [nofault]:
  "dns_name_decode_loop msg cap off out jumps jumped after \<noteq> Fault"
proof (induction msg cap off out jumps jumped after rule: dns_name_decode_loop.induct)
  case (1 msg cap off out jumps jumped after)
  show ?case
  proof
    assume "dns_name_decode_loop msg cap off out jumps jumped after = Fault"
    from this res.distinct(6) show False
    proof (cases rule: decode_loop_cases)
      case (pointer t)
      then show False using "1.IH"(1) by (auto simp: rd8_def)
    next
      case label
      then show False
        using label_len [OF label(3)]
          "1.IH"(2) [of "msg ! off" "if out \<noteq> [] then out @ [46] else out"
            "take (unat (msg ! off)) (drop (off + 1) msg)"]
        by (auto simp: rd8_def buf_append_def split: if_splits)
    qed simp
  qed
qed

lemma dns_name_decode_nofault [nofault]: "dns_name_decode msg off cap \<noteq> Fault"
proof (cases "cap = 0 \<or> \<not> is_ok (dns_name_decode_loop msg cap off [] 0 False 0)")
  case True
  then show ?thesis
    using decode_loop_nofault [of msg cap off "[]" 0 False 0]
    by (cases "dns_name_decode_loop msg cap off [] 0 False 0") (auto simp: dns_name_decode_def)
next
  case False
  then obtain r where "dns_name_decode_loop msg cap off [] 0 False 0 = Ok r" "0 < cap"
    by (cases "dns_name_decode_loop msg cap off [] 0 False 0") auto
  with decode_loop_sound [OF this(1)] show ?thesis
    by (auto simp: dns_name_decode_def res_bind_eq_Fault split: prod.splits)
qed

lemma dns_name_decode_iff:
  "dns_name_decode msg off 256 = Ok (nm, nx) \<longleftrightarrow>
     (\<exists>ls j. name_at msg off ls j nx \<and> j \<le> 32 \<and> length (dotted ls) \<le> 255
           \<and> nm = cstr (lower (dotted ls)))"  (is "?L \<longleftrightarrow> ?R")
proof
  assume ?L
  then obtain r where r: "dns_name_decode_loop msg 256 off [] 0 False 0 = Ok r"
    "nm = cstr (fst r)" "nx = snd r"
    by (auto simp: dns_name_decode_def split: prod.splits)
  obtain ls j nxt where "name_at msg off ls j nxt" "j \<le> 32" "fst r = dotted (map lower ls)"
      "length (fst r) < 256" "snd r = nxt"
    using decode_loop_sound [OF r(1)] by auto
  with r show ?R using length_dotted_onto_eq [of "[]" "[]" "map lower ls" ls]
    by (intro exI [of _ ls] exI [of _ j]) (auto simp: lower_dotted_onto o_def)
next
  assume ?R
  then obtain ls j where ls: "name_at msg off ls j nx" "j \<le> 32" "length (dotted ls) \<le> 255"
    "nm = cstr (lower (dotted ls))" by blast
  then have "dns_name_decode_loop msg 256 off [] 0 False 0 = Ok (dotted (map lower ls), nx)"
    by (subst decode_loop_complete [OF ls(1)]) auto
  moreover have "length (dotted (map lower ls)) \<le> 255"
    using ls(3) length_dotted_onto_eq [of "[]" "[]" "map lower ls" ls] by (simp add: o_def)
  ultimately show ?L using ls(4) by (simp add: dns_name_decode_def lower_dotted_onto)
qed

lemma dns_name_decode_bounds:
  assumes "dns_name_decode msg off 256 = Ok (nm, nx)"
  shows "off < nx" and "nx \<le> length msg" and "length nm \<le> 255" and "is_cstr nm" and "lower nm = nm"
proof -
  from assms obtain ls j where ls: "name_at msg off ls j nx" "length (dotted ls) \<le> 255"
    "nm = cstr (lower (dotted ls))"
    unfolding dns_name_decode_iff by blast
  from name_at_bounds [OF ls(1)] show "off < nx" "nx \<le> length msg" by auto
  from ls(2,3) length_cstr [of "lower (dotted ls)"] show "length nm \<le> 255" by simp
  from ls(3) show "is_cstr nm" by simp
  show "lower nm = nm" unfolding ls(3) by (simp add: cstr_def lower_def takeWhile_map o_def)
qed

section \<open>The encoder and the round trip\<close>

text \<open>The uncompressed wire form of a label sequence.\<close>

definition wire_label :: "bytes \<Rightarrow> bytes" where
  "wire_label l = word_of_nat (length l) # l"

definition wire :: "bytes list \<Rightarrow> bytes" where
  "wire ls = concat (map wire_label ls) @ [0]"

definition labels_ok :: "bytes list \<Rightarrow> bool" where
  "labels_ok ls = list_all (\<lambda>l. l \<noteq> [] \<and> length l \<le> 63) ls"

lemma unat_label_len: "length l \<le> 63 \<Longrightarrow> unat (word_of_nat (length l) :: byte) = length l"
  by (simp add: unsigned_of_nat take_bit_nat_eq_self)

lemma name_at_wire:
  "labels_ok ls \<Longrightarrow> name_at (pre @ wire ls @ post) (length pre) ls 0 (length pre + length (wire ls))"
proof (induction ls arbitrary: pre)
  case Nil
  then show ?case
    using name_at.root [of "length pre" "pre @ wire [] @ post"] by (simp add: wire_def)
next
  case (Cons l ls)
  let ?m = "pre @ wire (l # ls) @ post"
  let ?n = "word_of_nat (length l) :: byte"
  have l: "l \<noteq> []" "length l \<le> 63" and ls: "labels_ok ls" using Cons.prems by (auto simp: labels_ok_def)
  have un: "unat ?n = length l" using l(2) by (rule unat_label_len)
  have m: "?m = (pre @ wire_label l) @ wire ls @ post" by (simp add: wire_def)
  have at: "?m ! length pre = ?n" by (simp add: wire_def wire_label_def)
  have lab: "take (length l) (drop (length pre + 1) ?m) = l" by (simp add: wire_def wire_label_def)
  have "name_at ?m (length (pre @ wire_label l)) ls 0 (length (pre @ wire_label l) + length (wire ls))"
    using Cons.IH [OF ls, of "pre @ wire_label l"] m by simp
  then have "name_at ?m (length pre + 1 + unat ?n) ls 0 (length pre + length (wire (l # ls)))"
    by (simp add: un wire_label_def wire_def add.assoc)
  then have "name_at ?m (length pre) (take (unat ?n) (drop (length pre + 1) ?m) # ls) 0
      (length pre + length (wire (l # ls)))"
    using l len_label [OF l(2)] at
    by (intro name_at.label) (auto simp: un wire_def wire_label_def word_unat_eq_iff)
  then show ?case by (simp only: un lab)
qed

lemma dotted_onto_nonempty:
  "out \<noteq> [] \<Longrightarrow> dotted_onto out ls = out @ concat (map (\<lambda>l. 46 # l) ls)"
  by (induction ls arbitrary: out) auto

lemma dotted_Cons: "l \<noteq> [] \<Longrightarrow> dotted (l # ls) = l @ concat (map (\<lambda>l. 46 # l) ls)"
  by (simp add: dotted_onto_nonempty)

lemma dotted_Cons_Cons:
  "l \<noteq> [] \<Longrightarrow> l' \<noteq> [] \<Longrightarrow> dotted (l # l' # ls) = l @ 46 # dotted (l' # ls)"
  by (simp add: dotted_onto_nonempty)

text \<open>A name and the labels it spells; one trailing dot is allowed.\<close>

definition spells :: "cstring \<Rightarrow> bytes list \<Rightarrow> bool" where
  "spells name ls \<longleftrightarrow> list_all (\<lambda>l. 46 \<notin> set l) ls \<and> (name = dotted ls \<or> name = dotted ls @ [46])"

lemma enc_finish_Ok:
  "enc_finish cap out = Ok w \<longleftrightarrow> w = out @ [0] \<and> length w \<le> cap \<and> length w \<le> 256"
  by (auto simp: enc_finish_def)

lemma enc_finish_nofault [nofault]: "enc_finish cap out \<noteq> Fault"
  by (auto simp: enc_finish_def res_bind_eq_Fault)

lemma dropWhile_dot:
  assumes "dropWhile (\<lambda>c. c \<noteq> (46 :: byte)) p = c # q"
  shows "c = 46"
  using hd_dropWhile [of "\<lambda>c. c \<noteq> (46 :: byte)" p] assms by auto

lemma encode_loop_unfold:
  assumes "p \<noteq> []" "takeWhile (\<lambda>c. c \<noteq> 46) p = lab" "dropWhile (\<lambda>c. c \<noteq> 46) p = dot"
  shows "dns_name_encode_loop cap p out =
    (if lab = [] \<or> 63 < length lab \<or> cap < length out + 1 + length lab + 1 then Err
     else if dot = [] \<or> tl dot = [] then enc_finish cap (out @ wire_label lab)
     else dns_name_encode_loop cap (tl dot) (out @ wire_label lab))"
  by (subst dns_name_encode_loop.simps)
    (simp add: assms Let_def buf_append_def wire_label_def)

lemma encode_loop_cases:
  assumes ok: "dns_name_encode_loop cap p out = Ok w" and p: "p \<noteq> []"
    and lab: "takeWhile (\<lambda>c. c \<noteq> 46) p = lab" and dot: "dropWhile (\<lambda>c. c \<noteq> 46) p = dot"
  obtains (last) "lab \<noteq> []" "length lab \<le> 63" "dot = [] \<or> dot = [46]"
      "enc_finish cap (out @ wire_label lab) = Ok w"
  | (more) q where "lab \<noteq> []" "length lab \<le> 63" "dot = 46 # q" "q \<noteq> []"
      "length out + 1 + length lab + 1 \<le> cap"
      "dns_name_encode_loop cap q (out @ wire_label lab) = Ok w"
proof (cases dot)
  case Nil
  with ok show thesis
    by (intro last) (auto simp: encode_loop_unfold [OF p lab dot] split: if_splits)
next
  case (Cons c q)
  with dot have "c = 46" by (intro dropWhile_dot) simp
  with Cons ok show thesis
    by (cases "q = []") (auto simp: encode_loop_unfold [OF p lab dot] split: if_splits
        intro: last more)
qed

lemma encode_loop_sound:
  assumes "dns_name_encode_loop cap p out = Ok w" and "p \<noteq> []"
  shows "\<exists>ls. ls \<noteq> [] \<and> labels_ok ls \<and> spells p ls \<and> w = out @ wire ls \<and> length w \<le> cap \<and> length w \<le> 256"
  using assms
proof (induction cap p out rule: dns_name_encode_loop.induct)
  case (1 cap p out)
  define lab where lab: "lab = takeWhile (\<lambda>c. c \<noteq> 46) p"
  define dot where dot: "dot = dropWhile (\<lambda>c. c \<noteq> 46) p"
  have nodot: "46 \<notin> set lab" by (auto simp: lab dest: set_takeWhileD)
  have p: "p = lab @ dot" by (simp add: lab dot)
  from "1.prems" lab [symmetric] dot [symmetric] show ?case
  proof (cases rule: encode_loop_cases)
    case last
    then have "spells p [lab]" using nodot by (auto simp: spells_def p)
    with last show ?thesis
      by (intro exI [of _ "[lab]"]) (auto simp: enc_finish_Ok labels_ok_def wire_def)
  next
    case (more q)
    have "\<exists>ls. ls \<noteq> [] \<and> labels_ok ls \<and> spells q ls \<and> w = (out @ wire_label lab) @ wire ls
        \<and> length w \<le> cap \<and> length w \<le> 256"
      using "1.prems"(2) more by (intro "1.IH" [OF _ lab dot refl, unfolded more(3) list.sel]) (auto simp: wire_label_def)
    then obtain ls where ls: "ls \<noteq> []" "labels_ok ls" "spells q ls"
      "w = (out @ wire_label lab) @ wire ls" "length w \<le> cap" "length w \<le> 256" by blast
    from ls(1,2) obtain l rest where l: "ls = l # rest" "l \<noteq> []" by (cases ls) (auto simp: labels_ok_def)
    have d: "dotted (lab # ls) = lab @ 46 # dotted ls"
      unfolding l(1) using more(1) l(2) by (rule dotted_Cons_Cons)
    from ls(3) have "q = dotted ls \<or> q = dotted ls @ [46]" "list_all (\<lambda>l. 46 \<notin> set l) ls"
      by (auto simp: spells_def)
    then have "spells p (lab # ls)"
      unfolding spells_def d p using nodot by (auto simp: more(3))
    with ls more show ?thesis
      by (intro exI [of _ "lab # ls"]) (auto simp: labels_ok_def wire_def)
  qed
qed

lemma takeWhile_dot: "46 \<notin> set l \<Longrightarrow> takeWhile (\<lambda>c. c \<noteq> (46 :: byte)) (l @ 46 # q) = l"
  by (induction l) auto

lemma dropWhile_dot_append: "46 \<notin> set l \<Longrightarrow> dropWhile (\<lambda>c. c \<noteq> (46 :: byte)) (l @ 46 # q) = 46 # q"
  by (induction l) auto

lemma encode_loop_complete:
  assumes "labels_ok ls" "ls \<noteq> []" "spells p ls"
    and "length (out @ wire ls) \<le> cap" "length (out @ wire ls) \<le> 256"
  shows "dns_name_encode_loop cap p out = Ok (out @ wire ls)"
  using assms
proof (induction ls arbitrary: p out)
  case Nil
  then show ?case by simp
next
  case (Cons l ls)
  have l: "l \<noteq> []" "length l \<le> 63" "46 \<notin> set l" and ls: "labels_ok ls"
    using Cons.prems(1,3) by (auto simp: labels_ok_def spells_def)
  have room: "length out + 1 + length l + 1 \<le> cap"
    using Cons.prems(4) by (simp add: wire_def wire_label_def)
  show ?case
  proof (cases "ls = []")
    case True
    with Cons.prems(3) l have "p = l \<or> p = l @ [46]" by (auto simp: spells_def)
    then have "p \<noteq> []" "takeWhile (\<lambda>c. c \<noteq> 46) p = l" "dropWhile (\<lambda>c. c \<noteq> 46) p = [] \<or> dropWhile (\<lambda>c. c \<noteq> 46) p = [46]"
      using l takeWhile_dot [of l "[]"] dropWhile_dot_append [of l "[]"] by auto
    then have "dns_name_encode_loop cap p out = enc_finish cap (out @ wire_label l)"
      using l room by (subst encode_loop_unfold [OF _ _ refl]) auto
    with True Cons.prems(4,5) show ?thesis by (simp add: enc_finish_Ok wire_def)
  next
    case False
    then obtain l' rest where l': "ls = l' # rest" "l' \<noteq> []" using ls by (cases ls) (auto simp: labels_ok_def)
    have d: "dotted (l # ls) = l @ 46 # dotted ls"
      unfolding l'(1) using l(1) l'(2) by (rule dotted_Cons_Cons)
    then obtain q where q: "p = l @ 46 # q" "spells q ls" "q \<noteq> []"
      using Cons.prems(3) l' by (auto simp: spells_def dotted_onto_nonempty)
    have "p \<noteq> []" "takeWhile (\<lambda>c. c \<noteq> 46) p = l" "dropWhile (\<lambda>c. c \<noteq> 46) p = 46 # q"
      using l(3) by (simp_all add: q(1) takeWhile_dot dropWhile_dot_append)
    then have "dns_name_encode_loop cap p out = dns_name_encode_loop cap q (out @ wire_label l)"
      using l room q(3) by (subst encode_loop_unfold) auto
    also have "\<dots> = Ok ((out @ wire_label l) @ wire ls)"
      using Cons.prems(4,5) ls False q(2) by (intro Cons.IH) (auto simp: wire_def)
    finally show ?thesis by (simp add: wire_def)
  qed
qed

lemma dns_name_encode_iff:
  "dns_name_encode name cap = Ok w \<longleftrightarrow>
     (\<exists>ls. labels_ok ls \<and> spells name ls \<and> w = wire ls \<and> length w \<le> cap \<and> length w \<le> 256)"
  (is "?L \<longleftrightarrow> ?R")
proof (cases "name = [] \<or> name = [46]")
  case True
  have root: "ls = []" if "labels_ok ls" "spells name ls" for ls
    using that True by (cases ls) (auto simp: labels_ok_def spells_def dotted_onto_nonempty append_eq_Cons_conv Cons_eq_append_conv)
  have "spells name []" using True by (auto simp: spells_def)
  moreover have "labels_ok []" "wire [] = [0]" by (simp_all add: labels_ok_def wire_def)
  ultimately have "?R \<longleftrightarrow> w = [0] \<and> 1 \<le> cap" using root by fastforce
  moreover have "?L \<longleftrightarrow> w = [0] \<and> 1 \<le> cap"
    using True by (auto simp: dns_name_encode_def buf_append_def)
  ultimately show ?thesis by simp
next
  case False
  then have eq: "dns_name_encode name cap = dns_name_encode_loop cap name []"
    by (simp add: dns_name_encode_def)
  show ?thesis
  proof
    assume ?L
    with eq False encode_loop_sound [of cap name "[]" w] show ?R by auto
  next
    assume ?R
    then obtain ls where ls: "labels_ok ls" "spells name ls" "w = wire ls" "length w \<le> cap" "length w \<le> 256"
      by blast
    with False have "ls \<noteq> []" by (auto simp: spells_def)
    with ls eq encode_loop_complete [OF ls(1) _ ls(2), of "[]" cap] show ?L by auto
  qed
qed

lemma length_wire:
  "labels_ok ls \<Longrightarrow> ls \<noteq> [] \<Longrightarrow> length (wire ls) = length (dotted ls) + 2"
proof (cases ls)
  case (Cons l rest)
  assume "labels_ok ls"
  with Cons have "l \<noteq> []" by (simp add: labels_ok_def)
  have "length (concat (map wire_label rest)) = length (concat (map (\<lambda>l. 46 # l) rest))"
    by (induction rest) (auto simp: wire_label_def)
  with Cons \<open>l \<noteq> []\<close> show ?thesis by (simp add: wire_def dotted_onto_nonempty wire_label_def)
qed simp

text \<open>A name without its optional trailing dot.\<close>

definition strip_dot :: "cstring \<Rightarrow> cstring" where
  "strip_dot name = (if name \<noteq> [] \<and> last name = 46 then butlast name else name)"

lemma dotted_last:
  assumes "labels_ok ls" "list_all (\<lambda>l. 46 \<notin> set l) ls" "dotted ls \<noteq> []"
  shows "last (dotted ls) \<noteq> 46"
proof (cases ls rule: rev_cases)
  case (snoc rest l)
  with assms have l: "l \<noteq> []" "46 \<notin> set l" by (auto simp: labels_ok_def)
  have "\<exists>pre. dotted (rest @ [l]) = pre @ l"
  proof (cases rest)
    case (Cons r rs)
    with assms(1) snoc have "r \<noteq> []" by (simp add: labels_ok_def)
    with Cons show ?thesis by (simp add: dotted_onto_nonempty)
  qed simp
  with l snoc show ?thesis by (metis last_appendR last_in_set)
qed (use assms in simp)

lemma spells_strip: "labels_ok ls \<Longrightarrow> spells name ls \<Longrightarrow> strip_dot name = dotted ls"
  using dotted_last [of ls] by (auto simp: spells_def strip_dot_def)

lemma encode_decode:
  assumes enc: "dns_name_encode name cap = Ok w" and name: "is_cstr name"
  shows "dns_name_decode (pre @ w @ post) (length pre) 256 =
     Ok (lower (strip_dot name), length pre + length w)"
proof -
  from enc obtain ls where ls: "labels_ok ls" "spells name ls" "w = wire ls" "length w \<le> 256"
    unfolding dns_name_encode_iff by blast
  have "length (dotted ls) \<le> 255"
    using ls length_wire [OF ls(1)] by (cases "ls = []") auto
  moreover have "is_cstr (dotted ls)"
    using name ls(2) by (auto simp: spells_def)
  moreover have "name_at (pre @ w @ post) (length pre) ls 0 (length pre + length w)"
    unfolding ls(3) using ls(1) by (rule name_at_wire)
  ultimately show ?thesis
    unfolding dns_name_decode_iff spells_strip [OF ls(1,2)] by (intro exI conjI) auto
qed

lemma encode_loop_nofault [nofault]: "dns_name_encode_loop cap p out \<noteq> Fault"
proof (induction cap p out rule: dns_name_encode_loop.induct)
  case (1 cap p out)
  show ?case
  proof (cases "p = []")
    case False
    show ?thesis
      using "1.IH" [OF False refl refl refl] False
      by (auto simp: encode_loop_unfold [OF False refl refl] enc_finish_nofault wire_label_def)
  qed (simp add: dns_name_encode_loop.simps enc_finish_nofault)
qed

lemma dns_name_encode_nofault [nofault]: "dns_name_encode name cap \<noteq> Fault"
  by (simp add: dns_name_encode_def encode_loop_nofault)

section \<open>Properties\<close>

text \<open>C1: the decoder of \<^verbatim>\<open>dns_msg.c\<close> accepts exactly the names of the RFC 1035 grammar that follow
  at most 32 strictly backward pointers and whose text form has at most 255 bytes, and yields the
  lower-cased text (up to the first NUL) and the offset after the name in the original stream.\<close>

theorem name_decode_grammar:
  "dns_name_decode msg off (DNS_MAX_NAME + 1) = Ok (nm, nx) \<longleftrightarrow>
     (\<exists>ls j. name_at msg off ls j nx \<and> j \<le> MAX_PTR_JUMPS \<and> length (dotted ls) \<le> DNS_MAX_NAME
           \<and> nm = cstr (lower (dotted ls)))"
  using dns_name_decode_iff by simp

text \<open>C2: whatever \<^verbatim>\<open>dns_name_encode\<close> writes, at any position of any message, \<^verbatim>\<open>dns_name_decode\<close> reads
  back as the lower-cased name without its optional trailing dot, and consumes exactly the bytes
  written.\<close>

theorem name_roundtrip:
  assumes "dns_name_encode name cap = Ok w" and "is_cstr name"
  shows "dns_name_decode (pre @ w @ post) (length pre) (DNS_MAX_NAME + 1) =
     Ok (lower (strip_dot name), length pre + length w)"
  using encode_decode [OF assms] by simp

theorem name_roundtrip_witness:
  "dns_name_decode ([7, 7] @ [3, 87, 119, 87, 2, 105, 111, 0] @ [9]) (length [7, 7 :: byte]) (DNS_MAX_NAME + 1) =
     Ok (ascii ''www.io'', 10)"
proof -
  have enc: "dns_name_encode (ascii ''WwW.io.'') 32 = Ok [3, 87, 119, 87, 2, 105, 111, 0]"
    by code_simp
  have c: "is_cstr (ascii ''WwW.io.'')" by code_simp
  have "lower (strip_dot (ascii ''WwW.io.'')) = ascii ''www.io''" by code_simp
  with name_roundtrip [OF enc c, of "[7, 7]" "[9]"] show ?thesis by simp
qed

text \<open>C3: a name is in bailiwick of a zone exactly when the zone is the root, the two are the same name
  up to case, or the name ends in a dot followed by the zone with at least one byte in front: the
  comparison respects label boundaries.\<close>

theorem bailiwick_label_boundary:
  "dns_name_in_bailiwick name zone \<longleftrightarrow>
     zone = [] \<or> lower name = lower zone
     \<or> (\<exists>pre. pre \<noteq> [] \<and> lower name = pre @ 46 # lower zone)"
  using dns_name_in_bailiwick_iff below_zone_def by simp

text \<open>Bailiwick is transitive: a zone delegated below a zone contains only names of the outer one.\<close>

lemma bailiwick_transitive:
  assumes "dns_name_in_bailiwick name child" and "dns_name_in_bailiwick child zone"
  shows "dns_name_in_bailiwick name zone"
  using assms below_zone_trans by (simp add: dns_name_in_bailiwick_iff)

end
