(* ===== verification/DnsMsg.thy ===== *)
theory DnsMsg
  imports DnsName
begin

text \<open>
  The second half of \<^verbatim>\<open>dns_msg.c\<close>: parsing of headers, questions, queries and resource records,
  and building of responses and queries. The structures of \<^verbatim>\<open>dns_msg.h\<close> are records; a pointer
  into the message (\<^verbatim>\<open>rdata\<close>) is its offset. Output buffers are the bytes written so far, every
  write is checked against the capacity the caller gave, and the one \<^verbatim>\<open>size_t\<close> subtraction that
  can wrap (the room left for a name) wraps in the model.
\<close>

section \<open>Constants\<close>

definition DNS_MAX_ANSWERS :: nat where "DNS_MAX_ANSWERS = 8"
definition DNS_TYPE_A :: u16 where "DNS_TYPE_A = 1"
definition DNS_TYPE_NS :: u16 where "DNS_TYPE_NS = 2"
definition DNS_TYPE_CNAME :: u16 where "DNS_TYPE_CNAME = 5"
definition DNS_TYPE_AAAA :: u16 where "DNS_TYPE_AAAA = 28"
definition DNS_TYPE_OPT :: u16 where "DNS_TYPE_OPT = 41"
definition DNS_CLASS_IN :: u16 where "DNS_CLASS_IN = 1"
definition DNS_RCODE_NOERROR :: u16 where "DNS_RCODE_NOERROR = 0"
definition DNS_RCODE_SERVFAIL :: u16 where "DNS_RCODE_SERVFAIL = 2"
definition DNS_RCODE_NXDOMAIN :: u16 where "DNS_RCODE_NXDOMAIN = 3"
definition DNS_RCODE_NOTIMP :: u16 where "DNS_RCODE_NOTIMP = 4"
definition DNS_FLAG_QR :: u16 where "DNS_FLAG_QR = 0x8000"
definition DNS_FLAG_TC :: u16 where "DNS_FLAG_TC = 0x0200"
definition DNS_FLAG_RD :: u16 where "DNS_FLAG_RD = 0x0100"
definition DNS_FLAG_RA :: u16 where "DNS_FLAG_RA = 0x0080"
definition DNS_OPCODE_MASK :: u16 where "DNS_OPCODE_MASK = 0x7800"
definition DNS_RCODE_MASK :: u16 where "DNS_RCODE_MASK = 0x000F"
definition DNS_EDNS_MIN_PAYLOAD :: u16 where "DNS_EDNS_MIN_PAYLOAD = 512"
definition DNS_EDNS_OUR_UDP_PAYLOAD :: u16 where "DNS_EDNS_OUR_UDP_PAYLOAD = 1232"
definition DNS_CLASSIC_UDP_LIMIT :: nat where "DNS_CLASSIC_UDP_LIMIT = 512"
definition DNS_OPT_RR_LEN :: nat where "DNS_OPT_RR_LEN = 11"

lemmas dns_msg_consts =
  DNS_MAX_ANSWERS_def DNS_TYPE_A_def DNS_TYPE_NS_def DNS_TYPE_CNAME_def DNS_TYPE_AAAA_def
  DNS_TYPE_OPT_def DNS_CLASS_IN_def DNS_RCODE_NOERROR_def DNS_RCODE_SERVFAIL_def
  DNS_RCODE_NXDOMAIN_def DNS_RCODE_NOTIMP_def DNS_FLAG_QR_def DNS_FLAG_TC_def DNS_FLAG_RD_def
  DNS_FLAG_RA_def DNS_OPCODE_MASK_def DNS_RCODE_MASK_def DNS_EDNS_MIN_PAYLOAD_def
  DNS_EDNS_OUR_UDP_PAYLOAD_def DNS_CLASSIC_UDP_LIMIT_def DNS_OPT_RR_LEN_def

section \<open>Structures\<close>

record dns_header =
  h_id :: u16
  h_flags :: u16
  h_qdcount :: u16
  h_ancount :: u16
  h_nscount :: u16
  h_arcount :: u16

record dns_question =
  q_name :: cstring
  q_qtype :: u16
  q_qclass :: u16
  q_raw_off :: nat
  q_raw_len :: nat

record dns_query_info =
  qi_hdr :: dns_header
  qi_q :: dns_question
  qi_recursion_desired :: bool
  qi_has_edns :: bool
  qi_edns_udp_payload :: u16
  qi_edns_version :: byte
  qi_edns_do :: bool

text \<open>\<open>rr_rdata\<close> is the offset of the data in the message.\<close>

record dns_rr =
  rr_name :: cstring
  rr_type :: u16
  rr_rclass :: u16
  rr_ttl :: u32
  rr_rdlength :: u16
  rr_rdata :: nat

text \<open>
  The union of \<^verbatim>\<open>struct dns_answer\<close>; reading a member other than the one stored is a fault. The
  addresses are the bytes in network order.
\<close>

datatype dns_rdata = RD_A bytes | RD_AAAA bytes | RD_CNAME cstring

record dns_answer =
  an_type :: u16
  an_ttl :: u32
  an_rdata :: dns_rdata
  an_owner :: cstring

fun rdata_a :: "dns_rdata \<Rightarrow> bytes res" where
  "rdata_a (RD_A bs) = Ok bs"
| "rdata_a _ = Fault"

fun rdata_aaaa :: "dns_rdata \<Rightarrow> bytes res" where
  "rdata_aaaa (RD_AAAA bs) = Ok bs"
| "rdata_aaaa _ = Fault"

fun rdata_cname :: "dns_rdata \<Rightarrow> cstring res" where
  "rdata_cname (RD_CNAME s) = Ok s"
| "rdata_cname _ = Fault"

section \<open>Parsing\<close>

definition dns_parse_header :: "bytes \<Rightarrow> dns_header res" where
  "dns_parse_header msg =
     (if length msg < DNS_HDR_LEN then Err
      else res_bind (rd16 msg 0) (\<lambda>i. res_bind (rd16 msg 2) (\<lambda>f.
           res_bind (rd16 msg 4) (\<lambda>qd. res_bind (rd16 msg 6) (\<lambda>an.
           res_bind (rd16 msg 8) (\<lambda>ns. res_bind (rd16 msg 10) (\<lambda>ar.
             Ok \<lparr>h_id = i, h_flags = f, h_qdcount = qd, h_ancount = an, h_nscount = ns,
                 h_arcount = ar\<rparr>)))))))"

definition dns_skip_question :: "bytes \<Rightarrow> nat \<Rightarrow> nat res" where
  "dns_skip_question msg off =
     res_bind (dns_name_decode msg off (DNS_MAX_NAME + 1)) (\<lambda>(_, after).
       if length msg < after + 4 then Err else Ok (after + 4))"

definition dns_parse_rr :: "bytes \<Rightarrow> nat \<Rightarrow> (dns_rr \<times> nat) res" where
  "dns_parse_rr msg off =
     res_bind (dns_name_decode msg off (DNS_MAX_NAME + 1)) (\<lambda>(nm, after).
       if length msg < after + 10 then Err
       else res_bind (rd16 msg after) (\<lambda>ty. res_bind (rd16 msg (after + 2)) (\<lambda>cl.
            res_bind (rd32 msg (after + 4)) (\<lambda>ttl. res_bind (rd16 msg (after + 8)) (\<lambda>rdl.
              if length msg < after + 10 + unat rdl then Err
              else Ok (\<lparr>rr_name = nm, rr_type = ty, rr_rclass = cl, rr_ttl = ttl,
                       rr_rdlength = rdl, rr_rdata = after + 10\<rparr>,
                       after + 10 + unat rdl))))))"

definition dns_parse_query :: "bytes \<Rightarrow> dns_query_info res" where
  "dns_parse_query msg =
     res_bind (dns_parse_header msg) (\<lambda>h.
       if h_flags h AND DNS_FLAG_QR \<noteq> 0 then Err
       else if h_flags h AND DNS_OPCODE_MASK \<noteq> 0 then Err
       else if h_qdcount h \<noteq> 1 then Err
       else res_bind (dns_name_decode msg DNS_HDR_LEN (DNS_MAX_NAME + 1)) (\<lambda>(nm, after).
         if length msg < after + 4 then Err
         else res_bind (rd16 msg after) (\<lambda>ty. res_bind (rd16 msg (after + 2)) (\<lambda>cl.
           let out = \<lparr>qi_hdr = h,
                      qi_q = \<lparr>q_name = nm, q_qtype = ty, q_qclass = cl, q_raw_off = DNS_HDR_LEN,
                              q_raw_len = (after + 4) - DNS_HDR_LEN\<rparr>,
                      qi_recursion_desired = (h_flags h AND DNS_FLAG_RD \<noteq> 0),
                      qi_has_edns = False, qi_edns_udp_payload = 0, qi_edns_version = 0,
                      qi_edns_do = False\<rparr>
           in if 1 \<le> h_arcount h then
                (case dns_parse_rr msg (after + 4) of
                   Fault \<Rightarrow> Fault
                 | Err \<Rightarrow> Ok out
                 | Ok (opt, _) \<Rightarrow>
                     if rr_type opt = DNS_TYPE_OPT \<and> rr_name opt = [] then
                       Ok (out\<lparr>qi_has_edns := True, qi_edns_udp_payload := rr_rclass opt,
                               qi_edns_version := ucast (drop_bit 16 (rr_ttl opt) AND 0xFF),
                               qi_edns_do := (rr_ttl opt AND 0x8000 \<noteq> 0)\<rparr>)
                     else Ok out)
              else Ok out))))"

section \<open>Building\<close>

text \<open>The size ceiling of a response, and the part of it the answers may use.\<close>

definition effective_cap :: "dns_query_info \<Rightarrow> bool \<Rightarrow> nat \<Rightarrow> nat" where
  "effective_cap q is_udp cap =
     (if is_udp then
        let limit = (if qi_has_edns q then
                       let theirs = (if qi_edns_udp_payload q < DNS_EDNS_MIN_PAYLOAD
                                     then DNS_EDNS_MIN_PAYLOAD else qi_edns_udp_payload q)
                       in unat (if theirs < DNS_EDNS_OUR_UDP_PAYLOAD then theirs
                                else DNS_EDNS_OUR_UDP_PAYLOAD)
                     else DNS_CLASSIC_UDP_LIMIT)
        in if cap < limit then cap else limit
      else cap)"

definition ans_cap :: "dns_query_info \<Rightarrow> nat \<Rightarrow> nat \<Rightarrow> nat" where
  "ans_cap q eff off =
     (if qi_has_edns q then (if DNS_OPT_RR_LEN < eff then eff - DNS_OPT_RR_LEN else off) else eff)"

text \<open>
  One iteration of the answer loop: the record is written, or skipped because its type cannot be
  emitted, or does not fit (\<^verbatim>\<open>goto full\<close>). In the last two cases the write position goes back to
  where the record started.
\<close>

datatype emit = Emitted bytes | Skipped | Full

definition build_owner :: "nat \<Rightarrow> nat \<Rightarrow> cstring \<Rightarrow> dns_answer \<Rightarrow> bytes \<Rightarrow> bytes res" where
  "build_owner cap acap qname a out =
     (if dns_name_equal (an_owner a) qname then
        (if acap < length out + 2 then Err else buf_append cap out [0xC0, 0x0C])
      else res_bind (dns_name_encode (an_owner a) (size_sub acap (length out))) (\<lambda>n.
           buf_append cap out n))"

definition build_rdata :: "nat \<Rightarrow> nat \<Rightarrow> dns_answer \<Rightarrow> bytes \<Rightarrow> nat \<Rightarrow> emit res" where
  "build_rdata cap acap a out rdlen_at =
     (if an_type a = DNS_TYPE_A then
        (if acap < length out + 4 then Ok Full
         else res_bind (rdata_a (an_rdata a)) (\<lambda>bs. res_bind (buf_append cap out bs) (\<lambda>out1.
              res_bind (buf_patch out1 rdlen_at (wr16 4)) (\<lambda>out2. Ok (Emitted out2)))))
      else if an_type a = DNS_TYPE_AAAA then
        (if acap < length out + 16 then Ok Full
         else res_bind (rdata_aaaa (an_rdata a)) (\<lambda>bs. res_bind (buf_append cap out bs) (\<lambda>out1.
              res_bind (buf_patch out1 rdlen_at (wr16 16)) (\<lambda>out2. Ok (Emitted out2)))))
      else if an_type a = DNS_TYPE_CNAME then
        res_bind (rdata_cname (an_rdata a)) (\<lambda>s.
          case dns_name_encode s (size_sub acap (length out)) of
            Fault \<Rightarrow> Fault
          | Err \<Rightarrow> Ok Full
          | Ok n \<Rightarrow> res_bind (buf_append cap out n) (\<lambda>out1.
              res_bind (buf_patch out1 rdlen_at (wr16 (word_of_nat (length n)))) (\<lambda>out2.
                Ok (Emitted out2))))
      else Ok Skipped)"

definition build_answer :: "nat \<Rightarrow> nat \<Rightarrow> cstring \<Rightarrow> dns_answer \<Rightarrow> bytes \<Rightarrow> emit res" where
  "build_answer cap acap qname a out =
     (case build_owner cap acap qname a out of
        Fault \<Rightarrow> Fault
      | Err \<Rightarrow> Ok Full
      | Ok out1 \<Rightarrow>
          if acap < length out1 + 10 then Ok Full
          else res_bind (buf_append cap out1 (wr16 (an_type a) @ wr16 DNS_CLASS_IN @ wr32 (an_ttl a)))
            (\<lambda>out2. res_bind (buf_append cap out2 [0, 0]) (\<lambda>out3.
               build_rdata cap acap a out3 (length out2))))"

fun build_answers ::
  "nat \<Rightarrow> nat \<Rightarrow> cstring \<Rightarrow> dns_answer list \<Rightarrow> bytes \<Rightarrow> nat \<Rightarrow> (bytes \<times> nat \<times> bool) res" where
  "build_answers cap acap qname [] out emitted = Ok (out, emitted, False)"
| "build_answers cap acap qname (a # as) out emitted =
     res_bind (build_answer cap acap qname a out) (\<lambda>e.
       case e of
         Full \<Rightarrow> Ok (out, emitted, True)
       | Skipped \<Rightarrow> build_answers cap acap qname as out emitted
       | Emitted out1 \<Rightarrow> build_answers cap acap qname as out1 (emitted + 1))"

definition opt_rr :: "u16 \<Rightarrow> u32 \<Rightarrow> bytes" where
  "opt_rr payload ttl = [0] @ wr16 DNS_TYPE_OPT @ wr16 payload @ wr32 ttl @ wr16 0"

definition response_flags :: "dns_query_info \<Rightarrow> bool \<Rightarrow> u16 \<Rightarrow> u16" where
  "response_flags q truncated rcode =
     DNS_FLAG_QR OR DNS_FLAG_RA OR (if qi_recursion_desired q then DNS_FLAG_RD else 0)
       OR (if truncated then DNS_FLAG_TC else 0) OR (rcode AND DNS_RCODE_MASK)"

definition dns_build_response ::
  "bytes \<Rightarrow> dns_query_info \<Rightarrow> dns_answer list \<Rightarrow> u16 \<Rightarrow> bool \<Rightarrow> nat \<Rightarrow> bytes res" where
  "dns_build_response query q ans rcode is_udp cap =
     (let raw_off = q_raw_off (qi_q q); raw_len = q_raw_len (qi_q q) in
      if cap < DNS_HDR_LEN then Err
      else if length query < raw_off + raw_len then Err
      else if cap < DNS_HDR_LEN + raw_len then Err
      else res_bind (rd_bytes query raw_off raw_len) (\<lambda>question.
           res_bind (buf_append cap (replicate DNS_HDR_LEN 0) question) (\<lambda>out.
           let eff = effective_cap q is_udp cap;
               acap = ans_cap q eff (length out) in
           res_bind (if rcode = DNS_RCODE_NOERROR
                     then build_answers cap acap (q_name (qi_q q)) ans out 0
                     else Ok (out, 0, False)) (\<lambda>(out1, emitted, truncated).
           res_bind (if qi_has_edns q \<and> length out1 + DNS_OPT_RR_LEN \<le> eff
                     then res_bind (buf_append cap out1
                            (opt_rr DNS_EDNS_OUR_UDP_PAYLOAD (if qi_edns_do q then 0x8000 else 0)))
                            (\<lambda>b. Ok (b, 1))
                     else Ok (out1, 0)) (\<lambda>(out2, arcount).
             buf_patch out2 0 (wr16 (h_id (qi_hdr q)) @ wr16 (response_flags q truncated rcode)
               @ wr16 1 @ wr16 (word_of_nat emitted) @ wr16 0 @ wr16 arcount))))))"

definition dns_build_query :: "u16 \<Rightarrow> cstring \<Rightarrow> u16 \<Rightarrow> bool \<Rightarrow> u16 \<Rightarrow> nat \<Rightarrow> bytes res" where
  "dns_build_query i name qtype rd payload cap =
     (if cap < DNS_HDR_LEN then Err
      else res_bind (buf_append cap [] (wr16 i @ wr16 (if rd then DNS_FLAG_RD else 0) @ wr16 1
             @ wr16 0 @ wr16 0 @ wr16 (if payload \<noteq> 0 then 1 else 0))) (\<lambda>out.
           res_bind (dns_name_encode name (cap - DNS_HDR_LEN)) (\<lambda>n.
           res_bind (buf_append cap out n) (\<lambda>out1.
           if cap < length out1 + 4 then Err
           else res_bind (buf_append cap out1 (wr16 qtype @ wr16 DNS_CLASS_IN)) (\<lambda>out2.
             if payload \<noteq> 0 then
               (if cap < length out2 + DNS_OPT_RR_LEN then Err
                else buf_append cap out2 (opt_rr payload 0))
             else Ok out2)))))"

section \<open>Parsing stays inside the message\<close>

lemma dns_parse_header_nofault [nofault]: "dns_parse_header msg \<noteq> Fault"
  by (auto simp: dns_parse_header_def res_bind_eq_Fault)

lemma dns_parse_header_Err [simp]: "dns_parse_header msg = Err \<longleftrightarrow> length msg < 12"
  by (auto simp: dns_parse_header_def res_bind_eq_Err)

lemma dns_skip_question_nofault [nofault]: "dns_skip_question msg off \<noteq> Fault"
  by (auto simp: dns_skip_question_def res_bind_eq_Fault dns_name_decode_nofault)

lemma dns_skip_question_bounds:
  "dns_skip_question msg off = Ok nx \<Longrightarrow> off < nx \<and> nx \<le> length msg"
  by (auto simp: dns_skip_question_def dest!: dns_name_decode_bounds(1) split: if_splits)

lemma dns_parse_rr_nofault [nofault]: "dns_parse_rr msg off \<noteq> Fault"
  by (auto simp: dns_parse_rr_def res_bind_eq_Fault dns_name_decode_nofault)

lemma dns_parse_rr_cases:
  assumes "dns_parse_rr msg off = Ok (rr, nx)"
  obtains after where "dns_name_decode msg off 256 = Ok (rr_name rr, after)"
    "rr_rdata rr = after + 10" "nx = rr_rdata rr + unat (rr_rdlength rr)" "nx \<le> length msg"
    "rr_type rr = be16 (msg ! after) (msg ! (after + 1))"
    "rr_rclass rr = be16 (msg ! (after + 2)) (msg ! (after + 3))"
    "rr_ttl rr = be32 (msg ! (after + 4)) (msg ! (after + 5)) (msg ! (after + 6)) (msg ! (after + 7))"
    "rr_rdlength rr = be16 (msg ! (after + 8)) (msg ! (after + 9))"
  using assms by (auto simp: dns_parse_rr_def eval_nat_numeral split: if_splits)

lemma dns_parse_rr_bounds:
  assumes "dns_parse_rr msg off = Ok (rr, nx)"
  shows "off < nx" "nx \<le> length msg" "rr_rdata rr + unat (rr_rdlength rr) = nx"
    and "length (rr_name rr) \<le> 255" "is_cstr (rr_name rr)" "lower (rr_name rr) = rr_name rr"
  using assms by (auto elim!: dns_parse_rr_cases dest: dns_name_decode_bounds)

lemma dns_parse_query_nofault [nofault]: "dns_parse_query msg \<noteq> Fault"
  unfolding dns_parse_query_def
  by (auto simp: res_bind_eq_Fault Let_def dns_parse_header_nofault dns_name_decode_nofault
      dns_parse_rr_nofault split: res.splits if_splits)

text \<open>A question is never longer than a full name and its two fields.\<close>

lemma name_at_extent:
  "name_at msg off ls j nxt \<Longrightarrow> nxt \<le> off + sum_list (map (\<lambda>l. length l + 1) ls) + 2"
  by (induction rule: name_at.induct) auto

lemma name_at_labels: "name_at msg off ls j nxt \<Longrightarrow> labels_ok ls"
proof (induction rule: name_at.induct)
  case (label off l ls j nxt)
  have "0 < unat l" using label.hyps(3) by (simp add: word_unat_eq_iff)
  with label.hyps(1) label.IH label_len [OF label.hyps(4)] show ?case
    by (auto simp: labels_ok_def)
qed (simp_all add: labels_ok_def)

lemma dotted_extent: "labels_ok ls \<Longrightarrow> sum_list (map (\<lambda>l. length l + 1) ls) \<le> length (dotted ls) + 1"
proof (cases ls)
  case (Cons l rest)
  assume "labels_ok ls"
  with Cons have "l \<noteq> []" by (simp add: labels_ok_def)
  have "sum_list (map (\<lambda>l. length l + 1) rest) = length (concat (map (\<lambda>l. 46 # l) rest))"
    by (induction rest) auto
  with Cons \<open>l \<noteq> []\<close> show ?thesis by (simp add: dotted_onto_nonempty)
qed simp

lemma dns_name_decode_extent:
  assumes "dns_name_decode msg off 256 = Ok (nm, nx)"
  shows "nx \<le> off + 258"
proof -
  from assms obtain ls j where ls: "name_at msg off ls j nx" "length (dotted ls) \<le> 255"
    unfolding dns_name_decode_iff by blast
  from name_at_extent [OF ls(1)] dotted_extent [OF name_at_labels [OF ls(1)]] ls(2)
  show ?thesis by linarith
qed

text \<open>What a parsed query says about the message.\<close>

lemma dns_parse_query_cases:
  assumes "dns_parse_query msg = Ok q"
  obtains h nm after where "dns_parse_header msg = Ok h" "qi_hdr q = h"
    "h_flags h AND DNS_FLAG_QR = 0" "h_flags h AND DNS_OPCODE_MASK = 0" "h_qdcount h = 1"
    "dns_name_decode msg 12 256 = Ok (nm, after)" "after + 4 \<le> length msg"
    "q_name (qi_q q) = nm" "q_raw_off (qi_q q) = 12" "q_raw_len (qi_q q) = after + 4 - 12"
    "q_qtype (qi_q q) = be16 (msg ! after) (msg ! (after + 1))"
    "q_qclass (qi_q q) = be16 (msg ! (after + 2)) (msg ! (after + 3))"
    "qi_recursion_desired q = (h_flags h AND DNS_FLAG_RD \<noteq> 0)"
  using assms unfolding dns_parse_query_def
  by (auto simp: Let_def eval_nat_numeral split: res.splits if_splits prod.splits)

lemma dns_parse_query_raw:
  assumes "dns_parse_query msg = Ok q"
  shows "q_raw_off (qi_q q) = 12" "12 + q_raw_len (qi_q q) \<le> length msg"
    "5 \<le> q_raw_len (qi_q q)" "q_raw_len (qi_q q) \<le> 262"
proof -
  from assms obtain nm after where a: "dns_name_decode msg 12 256 = Ok (nm, after)"
    "after + 4 \<le> length msg" "q_raw_off (qi_q q) = 12" "q_raw_len (qi_q q) = after + 4 - 12"
    by (rule dns_parse_query_cases)
  from dns_name_decode_bounds(1) [OF a(1)] dns_name_decode_extent [OF a(1)] a(2-)
  show "q_raw_off (qi_q q) = 12" "12 + q_raw_len (qi_q q) \<le> length msg"
    "5 \<le> q_raw_len (qi_q q)" "q_raw_len (qi_q q) \<le> 262" by auto
qed

section \<open>Emitting answers\<close>

definition supported :: "dns_answer \<Rightarrow> bool" where
  "supported a \<longleftrightarrow> an_type a = DNS_TYPE_A \<or> an_type a = DNS_TYPE_AAAA \<or> an_type a = DNS_TYPE_CNAME"

text \<open>The union of an answer agrees with its type tag.\<close>

definition wf_answer :: "dns_answer \<Rightarrow> bool" where
  "wf_answer a \<longleftrightarrow>
     (an_type a = DNS_TYPE_A \<longrightarrow> (\<exists>bs. an_rdata a = RD_A bs \<and> length bs = 4)) \<and>
     (an_type a = DNS_TYPE_AAAA \<longrightarrow> (\<exists>bs. an_rdata a = RD_AAAA bs \<and> length bs = 16)) \<and>
     (an_type a = DNS_TYPE_CNAME \<longrightarrow> (\<exists>s. an_rdata a = RD_CNAME s))"

text \<open>The bytes of a record, independent of the buffer it goes to.\<close>

definition name_wire :: "cstring \<Rightarrow> bytes option" where
  "name_wire s = (case dns_name_encode s 256 of Ok n \<Rightarrow> Some n | _ \<Rightarrow> None)"

definition owner_wire :: "cstring \<Rightarrow> dns_answer \<Rightarrow> bytes option" where
  "owner_wire qname a =
     (if dns_name_equal (an_owner a) qname then Some [0xC0, 0x0C] else name_wire (an_owner a))"

fun rdata_wire :: "dns_rdata \<Rightarrow> bytes option" where
  "rdata_wire (RD_A bs) = Some bs"
| "rdata_wire (RD_AAAA bs) = Some bs"
| "rdata_wire (RD_CNAME s) = name_wire s"

definition ans_wire :: "cstring \<Rightarrow> dns_answer \<Rightarrow> bytes option" where
  "ans_wire qname a =
     (case (owner_wire qname a, rdata_wire (an_rdata a)) of
        (Some ow, Some rd) \<Rightarrow> Some (ow @ wr16 (an_type a) @ wr16 DNS_CLASS_IN @ wr32 (an_ttl a)
                                 @ wr16 (word_of_nat (length rd)) @ rd)
      | _ \<Rightarrow> None)"

lemma name_wire_iff: "name_wire s = Some w \<longleftrightarrow> dns_name_encode s 256 = Ok w"
  by (auto simp: name_wire_def split: res.splits)

lemma dns_name_encode_cap:
  "dns_name_encode s c =
     (case name_wire s of Some n \<Rightarrow> if length n \<le> c then Ok n else Err | None \<Rightarrow> Err)"
proof -
  have "dns_name_encode s c = Ok w \<longleftrightarrow> dns_name_encode s 256 = Ok w \<and> length w \<le> c" for w
    by (auto simp: dns_name_encode_iff)
  then have cap: "dns_name_encode s c = Ok w \<longleftrightarrow> name_wire s = Some w \<and> length w \<le> c" for w
    by (simp add: name_wire_iff)
  show ?thesis
  proof (cases "dns_name_encode s c")
    case (Ok w)
    then have "name_wire s = Some w \<and> length w \<le> c" using cap by blast
    with Ok show ?thesis by simp
  next
    case Err
    then have "\<not> (name_wire s = Some w \<and> length w \<le> c)" for w using cap by (metis res.distinct(1))
    with Err show ?thesis by (auto split: option.splits)
  qed (use dns_name_encode_nofault in blast)
qed

lemma name_wire_length: "name_wire s = Some n \<Longrightarrow> length n \<le> 256"
  by (auto simp: name_wire_iff dns_name_encode_iff)

lemma build_owner_eq:
  assumes "length out \<le> acap" "acap \<le> cap"
  shows "build_owner cap acap qname a out =
    (case owner_wire qname a of
       Some ow \<Rightarrow> if length out + length ow \<le> acap then Ok (out @ ow) else Err
     | None \<Rightarrow> Err)"
  using assms
  by (auto simp: build_owner_def owner_wire_def dns_name_encode_cap buf_append_def split: option.splits)

lemma patch_end:
  "length z = length w \<Longrightarrow> k = length pre \<Longrightarrow> buf_patch ((pre @ z) @ rest) k w = Ok ((pre @ w) @ rest)"
  by simp

definition build_outcome :: "nat \<Rightarrow> cstring \<Rightarrow> dns_answer \<Rightarrow> bytes \<Rightarrow> emit" where
  "build_outcome acap qname a out =
     (case owner_wire qname a of
        None \<Rightarrow> Full
      | Some ow \<Rightarrow>
         if acap < length out + length ow + 10 then Full
         else if \<not> supported a then Skipped
         else (case ans_wire qname a of
                 None \<Rightarrow> Full
               | Some r \<Rightarrow> if length out + length r \<le> acap then Emitted (out @ r) else Full))"

lemma build_rdata_eq:
  assumes "wf_answer a" "length out = length pre + 2" "out = pre @ [0, 0]" "length out \<le> acap" "acap \<le> cap"
  shows "build_rdata cap acap a out (length pre) = Ok
    (if \<not> supported a then Skipped
     else (case rdata_wire (an_rdata a) of
        None \<Rightarrow> Full
      | Some rd \<Rightarrow> if length out + length rd \<le> acap
                   then Emitted (pre @ wr16 (word_of_nat (length rd)) @ rd) else Full))"
  using assms
  by (auto simp: build_rdata_def supported_def wf_answer_def dns_name_encode_cap buf_append_def
      buf_patch_def dns_msg_consts simp del: res_bind_eq_Ok Ok_eq_res_bind split: option.splits)

lemma build_answer_eq:
  assumes "wf_answer a" "length out \<le> acap" "acap \<le> cap"
  shows "build_answer cap acap qname a out = Ok (build_outcome acap qname a out)"
proof (cases "owner_wire qname a")
  case None
  with assms show ?thesis by (simp add: build_answer_def build_outcome_def build_owner_eq)
next
  case (Some ow)
  let ?pre = "(out @ ow) @ wr16 (an_type a) @ wr16 DNS_CLASS_IN @ wr32 (an_ttl a)"
  show ?thesis
  proof (cases "acap < length out + length ow + 10")
    case True
    with Some assms show ?thesis by (auto simp: build_answer_def build_outcome_def build_owner_eq)
  next
    case False
    have "build_answer cap acap qname a out = build_rdata cap acap a (?pre @ [0, 0]) (length ?pre)"
      using Some assms False by (simp add: build_answer_def build_owner_eq buf_append_def)
    also have "\<dots> = Ok (build_outcome acap qname a out)"
      using Some assms False
      by (subst build_rdata_eq) (auto simp: build_outcome_def ans_wire_def split: option.splits)
    finally show ?thesis .
  qed
qed

lemma build_outcome_Emitted:
  assumes "build_outcome acap qname a out = Emitted out'"
  obtains r where "ans_wire qname a = Some r" "out' = out @ r" "length (out @ r) \<le> acap" "supported a"
  using assms by (auto simp: build_outcome_def split: option.splits if_splits)

lemma build_outcome_Skipped: "build_outcome acap qname a out = Skipped \<Longrightarrow> \<not> supported a"
  by (auto simp: build_outcome_def split: option.splits if_splits)

text \<open>
  The answer loop writes the records of a prefix of the answers. It stops early, with the
  truncation flag, exactly when some record does not fit.
\<close>

lemma build_answers_spec:
  assumes "list_all wf_answer as" "length out \<le> acap" "acap \<le> cap"
  shows "\<exists>done rest rs. as = done @ rest \<and> map (ans_wire qname) (filter supported done) = map Some rs
     \<and> build_answers cap acap qname as out e = Ok (out @ concat rs, e + length rs, rest \<noteq> [])
     \<and> length (out @ concat rs) \<le> acap
     \<and> (rest \<noteq> [] \<longrightarrow> build_outcome acap qname (hd rest) (out @ concat rs) = Full)"
  using assms
proof (induction as arbitrary: out e)
  case Nil
  then show ?case by (intro exI [of _ "[]"]) simp
next
  case (Cons a as)
  have wf: "wf_answer a" "list_all wf_answer as" using Cons.prems by simp_all
  have eq: "build_answer cap acap qname a out = Ok (build_outcome acap qname a out)"
    using wf(1) Cons.prems(2,3) by (rule build_answer_eq)
  show ?case
  proof (cases "build_outcome acap qname a out")
    case Full
    with eq Cons.prems show ?thesis
      by (intro exI [of _ "[]"] exI [of _ "a # as"]) simp
  next
    case Skipped
    from Cons.IH [OF wf(2) Cons.prems(2,3), of e] obtain dn rest rs where
      ih: "as = dn @ rest" "map (ans_wire qname) (filter supported dn) = map Some rs"
        "build_answers cap acap qname as out e = Ok (out @ concat rs, e + length rs, rest \<noteq> [])"
        "length (out @ concat rs) \<le> acap"
        "rest \<noteq> [] \<longrightarrow> build_outcome acap qname (hd rest) (out @ concat rs) = Full" by blast
    with Skipped eq build_outcome_Skipped [OF Skipped] show ?thesis
      by (intro exI [of _ "a # dn"] exI [of _ rest] exI [of _ rs]) simp
  next
    case (Emitted out')
    then obtain r where r: "ans_wire qname a = Some r" "out' = out @ r" "length (out @ r) \<le> acap" "supported a"
      by (rule build_outcome_Emitted)
    from Cons.IH [OF wf(2) r(3) Cons.prems(3), of "e + 1"] obtain dn rest rs where
      ih: "as = dn @ rest" "map (ans_wire qname) (filter supported dn) = map Some rs"
        "build_answers cap acap qname as (out @ r) (e + 1) = Ok ((out @ r) @ concat rs, e + 1 + length rs, rest \<noteq> [])"
        "length ((out @ r) @ concat rs) \<le> acap"
        "rest \<noteq> [] \<longrightarrow> build_outcome acap qname (hd rest) ((out @ r) @ concat rs) = Full" by blast
    with Emitted eq r show ?thesis
      by (intro exI [of _ "a # dn"] exI [of _ rest] exI [of _ "r # rs"]) simp
  qed
qed

section \<open>The shape of a response\<close>

lemma effective_cap_le: "effective_cap q is_udp cap \<le> cap"
  by (simp add: effective_cap_def Let_def)

lemma effective_cap_ge: "512 \<le> cap \<Longrightarrow> 512 \<le> effective_cap q is_udp cap"
  by (auto simp: effective_cap_def Let_def dns_msg_consts word_less_nat_alt)

lemma effective_cap_udp: "effective_cap q True cap \<le> 1232"
  by (auto simp: effective_cap_def Let_def dns_msg_consts word_less_nat_alt)

lemma effective_cap_classic: "\<not> qi_has_edns q \<Longrightarrow> effective_cap q True cap \<le> 512"
  by (auto simp: effective_cap_def Let_def dns_msg_consts)

definition response_header :: "dns_query_info \<Rightarrow> bool \<Rightarrow> u16 \<Rightarrow> nat \<Rightarrow> bytes" where
  "response_header q truncated rcode n =
     wr16 (h_id (qi_hdr q)) @ wr16 (response_flags q truncated rcode) @ wr16 1
       @ wr16 (word_of_nat n) @ wr16 0 @ wr16 (if qi_has_edns q then 1 else 0)"

definition response_opt :: "dns_query_info \<Rightarrow> bytes" where
  "response_opt q =
     (if qi_has_edns q
      then opt_rr DNS_EDNS_OUR_UDP_PAYLOAD (if qi_edns_do q then 0x8000 else 0) else [])"

lemma length_response_header [simp]: "length (response_header q t r n) = 12"
  by (simp add: response_header_def)

lemma length_opt_rr [simp]: "length (opt_rr p t) = 11"
  by (simp add: opt_rr_def)

lemma dns_build_response_shape:
  assumes q: "dns_parse_query query = Ok q" and cap: "512 \<le> cap" and wf: "list_all wf_answer ans"
  obtains dn rest rs where
    "(if rcode = DNS_RCODE_NOERROR then ans else []) = dn @ rest"
    "map (ans_wire (q_name (qi_q q))) (filter supported dn) = map Some rs"
    "dns_build_response query q ans rcode is_udp cap =
       Ok (response_header q (rest \<noteq> []) rcode (length rs) @ take (q_raw_len (qi_q q)) (drop 12 query)
           @ concat rs @ response_opt q)"
    "12 + q_raw_len (qi_q q) + length (concat rs) + length (response_opt q) \<le> effective_cap q is_udp cap"
    "rest \<noteq> [] \<longrightarrow> build_outcome (effective_cap q is_udp cap - length (response_opt q))
        (q_name (qi_q q)) (hd rest) (replicate 12 0 @ take (q_raw_len (qi_q q)) (drop 12 query) @ concat rs) = Full"
proof -
  note raw = dns_parse_query_raw [OF q]
  let ?n = "q_raw_len (qi_q q)" and ?eff = "effective_cap q is_udp cap"
  define out where "out = replicate 12 0 @ take ?n (drop 12 query)"
  let ?acap = "?eff - length (response_opt q)"
  define ans' where "ans' = (if rcode = DNS_RCODE_NOERROR then ans else [])"
  have len: "length out = 12 + ?n" using raw by (simp add: out_def)
  have eff: "512 \<le> ?eff" "?eff \<le> cap" using effective_cap_ge [OF cap] effective_cap_le by auto
  have acap: "ans_cap q ?eff (length out) = ?acap" "?acap \<le> cap" "length out \<le> ?acap"
    using eff raw len by (auto simp: ans_cap_def response_opt_def dns_msg_consts)
  have "list_all wf_answer ans'" using wf by (simp add: ans'_def)
  from build_answers_spec [OF this acap(3,2), of "q_name (qi_q q)" 0]
  obtain dn rest rs where spec: "ans' = dn @ rest"
    "map (ans_wire (q_name (qi_q q))) (filter supported dn) = map Some rs"
    "build_answers cap ?acap (q_name (qi_q q)) ans' out 0 = Ok (out @ concat rs, length rs, rest \<noteq> [])"
    "length (out @ concat rs) \<le> ?acap"
    "rest \<noteq> [] \<longrightarrow> build_outcome ?acap (q_name (qi_q q)) (hd rest) (out @ concat rs) = Full"
    unfolding add_0 by blast
  have loop: "(if rcode = DNS_RCODE_NOERROR then build_answers cap ?acap (q_name (qi_q q)) ans out 0
      else Ok (out, 0, False)) = Ok (out @ concat rs, length rs, rest \<noteq> [])"
  proof (cases "rcode = DNS_RCODE_NOERROR")
    case False
    with spec(1) have "dn = []" "rest = []" by (simp_all add: ans'_def)
    with spec(2) False show ?thesis by simp
  qed (use spec(3) in \<open>simp add: ans'_def\<close>)
  have opt: "(if qi_has_edns q \<and> length (out @ concat rs) + DNS_OPT_RR_LEN \<le> ?eff
      then res_bind (buf_append cap (out @ concat rs)
             (opt_rr DNS_EDNS_OUR_UDP_PAYLOAD (if qi_edns_do q then 0x8000 else 0))) (\<lambda>b. Ok (b, 1))
      else Ok (out @ concat rs, 0)) = Ok ((out @ concat rs) @ response_opt q, if qi_has_edns q then 1 else 0)"
    using spec(4) eff by (auto simp: response_opt_def dns_msg_consts buf_append_def)
  have patch: "buf_patch ((out @ concat rs) @ response_opt q) 0 (response_header q (rest \<noteq> []) rcode (length rs))
     = Ok (response_header q (rest \<noteq> []) rcode (length rs) @ take ?n (drop 12 query) @ concat rs @ response_opt q)"
    by (simp add: buf_patch_def out_def)
  have q12: "rd_bytes query 12 ?n = Ok (take ?n (drop 12 query))"
    "buf_append cap (replicate 12 0) (take ?n (drop 12 query)) = Ok out"
    using raw eff by (simp_all add: out_def)
  have "\<not> cap < 12" "\<not> length query < 12 + ?n" "\<not> cap < 12 + ?n" using raw eff by auto
  then have "dns_build_response query q ans rcode is_udp cap =
       Ok (response_header q (rest \<noteq> []) rcode (length rs) @ take ?n (drop 12 query)
           @ concat rs @ response_opt q)"
    unfolding dns_build_response_def Let_def
    by (simp only: raw(1) DNS_HDR_LEN_def if_False q12 res_bind.simps acap(1) loop opt prod.case
        response_header_def [symmetric] patch)
  moreover have "12 + ?n + length (concat rs) + length (response_opt q) \<le> ?eff"
    using spec(4) len eff by (auto simp: response_opt_def)
  ultimately show thesis using that spec(1,2,5) unfolding ans'_def out_def append.assoc by blast
qed

section \<open>Reading back what was built\<close>

lemma dns_parse_header_wr16:
  "dns_parse_header (wr16 a @ wr16 b @ wr16 c @ wr16 d @ wr16 e @ wr16 f @ rest) =
     Ok \<lparr>h_id = a, h_flags = b, h_qdcount = c, h_ancount = d, h_nscount = e, h_arcount = f\<rparr>"
  (is "dns_parse_header ?m = _")
proof -
  have "rd16 ?m 0 = Ok a" using rd16_at [of "[]" 0 a] by simp
  moreover have "rd16 ?m 2 = Ok b" using rd16_at [of "wr16 a" 2 b] by simp
  moreover have "rd16 ?m 4 = Ok c" using rd16_at [of "wr16 a @ wr16 b" 4 c] by simp
  moreover have "rd16 ?m 6 = Ok d" using rd16_at [of "wr16 a @ wr16 b @ wr16 c" 6 d] by simp
  moreover have "rd16 ?m 8 = Ok e" using rd16_at [of "wr16 a @ wr16 b @ wr16 c @ wr16 d" 8 e] by simp
  moreover have "rd16 ?m 10 = Ok f"
    using rd16_at [of "wr16 a @ wr16 b @ wr16 c @ wr16 d @ wr16 e" 10 f] by simp
  ultimately show ?thesis
    by (simp add: dns_parse_header_def del: rd16_Ok res_bind_eq_Ok)
qed

lemma dns_parse_rr_eval:
  assumes "dns_name_decode m off 256 = Ok (n, a)" "rd16 m a = Ok ty" "rd16 m (a + 2) = Ok cl"
    "rd32 m (a + 4) = Ok ttl" "rd16 m (a + 8) = Ok rdl" "a + 10 + unat rdl \<le> length m"
  shows "dns_parse_rr m off =
     Ok (\<lparr>rr_name = n, rr_type = ty, rr_rclass = cl, rr_ttl = ttl, rr_rdlength = rdl,
          rr_rdata = a + 10\<rparr>, a + 10 + unat rdl)"
  using assms by (simp add: dns_parse_rr_def del: rd16_Ok rd32_Ok res_bind_eq_Ok Ok_eq_res_bind)

lemma dns_parse_rr_at:
  assumes m: "m = pre @ ow @ wr16 ty @ wr16 cl @ wr32 ttl @ wr16 rdl @ rd @ post"
    and nm: "dns_name_decode m (length pre) 256 = Ok (n, length pre + length ow)"
    and rdl: "unat rdl = length rd"
  shows "dns_parse_rr m (length pre) =
     Ok (\<lparr>rr_name = n, rr_type = ty, rr_rclass = cl, rr_ttl = ttl, rr_rdlength = rdl,
          rr_rdata = length pre + length ow + 10\<rparr>,
         length pre + length ow + 10 + length rd)"
proof -
  let ?p = "pre @ ow"
  have "rd16 m (length pre + length ow) = Ok ty" "rd16 m (length pre + length ow + 2) = Ok cl"
    "rd32 m (length pre + length ow + 4) = Ok ttl" "rd16 m (length pre + length ow + 8) = Ok rdl"
    unfolding m
    using rd16_at [of ?p "length ?p" ty] rd16_at [of "?p @ wr16 ty" "length ?p + 2" cl]
      rd32_at [of "?p @ wr16 ty @ wr16 cl" "length ?p + 4" ttl]
      rd16_at [of "?p @ wr16 ty @ wr16 cl @ wr32 ttl" "length ?p + 8" rdl]
    by (simp_all del: rd16_Ok rd32_Ok)
  moreover have "length pre + length ow + 10 + unat rdl \<le> length m"
    using rdl by (simp add: m)
  ultimately show ?thesis using dns_parse_rr_eval [OF nm] rdl by simp
qed

lemma unat_u16_small: "n < 65536 \<Longrightarrow> unat (word_of_nat n :: u16) = n"
  by (simp add: unsigned_of_nat take_bit_nat_eq_self)

text \<open>A name with no pointers depends only on its own bytes.\<close>

lemma name_at_local:
  assumes "name_at msg off ls j nxt" "j = 0" "nxt \<le> length msg'"
    and "\<And>i. off \<le> i \<Longrightarrow> i < nxt \<Longrightarrow> msg' ! i = msg ! i"
  shows "name_at msg' off ls 0 nxt"
  using assms
proof (induction rule: name_at.induct)
  case (root off)
  then show ?case using name_at.root [of off msg'] by simp
next
  case (label off l ls j nxt)
  have nxt: "off + 1 + unat l < nxt" using name_at_bounds [OF label.hyps(5)] by simp
  then have room: "off + 1 + unat l \<le> length msg'" using label.prems(2) by simp
  have "take (unat l) (drop (off + 1) msg') = take (unat l) (drop (off + 1) msg)"
  proof (rule nth_equalityI)
    show "length (take (unat l) (drop (off + 1) msg')) = length (take (unat l) (drop (off + 1) msg))"
      using room label.hyps(1) by simp
  next
    fix i assume "i < length (take (unat l) (drop (off + 1) msg'))"
    with room label.hyps(1) nxt label.prems(3) [of "off + 1 + i"]
    show "take (unat l) (drop (off + 1) msg') ! i = take (unat l) (drop (off + 1) msg) ! i" by simp
  qed
  moreover have "l = msg' ! off" using label.prems(3) [of off] label.hyps(2) nxt by simp
  moreover have "name_at msg' (off + 1 + unat l) ls 0 nxt"
    using label.prems by (intro label.IH) auto
  ultimately show ?case using name_at.label [OF room _ label.hyps(3,4)] by simp
next
  case (pointer off t ls j nxt)
  then show ?case by simp
qed

section \<open>Queries\<close>

lemma dns_build_query_shape:
  assumes "name_wire name = Some w" "284 \<le> cap"
  shows "dns_build_query i name qtype rd payload cap =
     Ok (wr16 i @ wr16 (if rd then DNS_FLAG_RD else 0) @ wr16 1 @ wr16 0 @ wr16 0
         @ wr16 (if payload \<noteq> 0 then 1 else 0) @ w @ wr16 qtype @ wr16 DNS_CLASS_IN
         @ (if payload \<noteq> 0 then opt_rr payload 0 else []))"
  using assms name_wire_length [OF assms(1)]
  by (auto simp: dns_build_query_def dns_name_encode_cap buf_append_def DNS_OPT_RR_LEN_def
      simp del: res_bind_eq_Ok)

lemma dns_build_query_nofault [nofault]: "dns_build_query i name qtype rd payload cap \<noteq> Fault"
  by (auto simp: dns_build_query_def res_bind_eq_Fault dns_name_encode_cap DNS_OPT_RR_LEN_def
      split: option.splits if_splits)

text \<open>A query built by the resolver parses back to what it asks.\<close>

definition built_query_info :: "u16 \<Rightarrow> cstring \<Rightarrow> u16 \<Rightarrow> bool \<Rightarrow> u16 \<Rightarrow> nat \<Rightarrow> dns_query_info" where
  "built_query_info i name qtype rd payload wlen =
     \<lparr>qi_hdr = \<lparr>h_id = i, h_flags = (if rd then DNS_FLAG_RD else 0), h_qdcount = 1, h_ancount = 0,
               h_nscount = 0, h_arcount = (if payload \<noteq> 0 then 1 else 0)\<rparr>,
      qi_q = \<lparr>q_name = lower (strip_dot name), q_qtype = qtype, q_qclass = DNS_CLASS_IN,
             q_raw_off = 12, q_raw_len = wlen + 4\<rparr>,
      qi_recursion_desired = rd, qi_has_edns = (payload \<noteq> 0), qi_edns_udp_payload = payload,
      qi_edns_version = 0, qi_edns_do = False\<rparr>"

lemma parse_built_query:
  assumes w: "name_wire name = Some w" and name: "is_cstr name"
    and m: "m = wr16 i @ wr16 (if rd then DNS_FLAG_RD else 0) @ wr16 1 @ wr16 0 @ wr16 0
         @ wr16 (if payload \<noteq> 0 then 1 else 0) @ w @ wr16 qtype @ wr16 DNS_CLASS_IN
         @ (if payload \<noteq> 0 then opt_rr payload 0 else [])"
  shows "dns_parse_query m = Ok (built_query_info i name qtype rd payload (length w))"
proof -
  let ?h = "wr16 i @ wr16 (if rd then DNS_FLAG_RD else 0) @ wr16 1 @ wr16 0 @ wr16 0
         @ wr16 (if payload \<noteq> 0 then 1 else 0)"
  let ?o = "if payload \<noteq> 0 then opt_rr payload 0 else []"
  have hdr: "dns_parse_header m = Ok \<lparr>h_id = i, h_flags = (if rd then DNS_FLAG_RD else 0), h_qdcount = 1,
      h_ancount = 0, h_nscount = 0, h_arcount = (if payload \<noteq> 0 then 1 else 0)\<rparr>"
    unfolding m by (rule dns_parse_header_wr16)
  have dec: "dns_name_decode m 12 256 = Ok (lower (strip_dot name), 12 + length w)"
    using encode_decode [of name 256 w ?h "wr16 qtype @ wr16 DNS_CLASS_IN @ ?o"] w name
    by (simp add: m name_wire_iff)
  have fields: "rd16 m (12 + length w) = Ok qtype" "rd16 m (12 + length w + 2) = Ok DNS_CLASS_IN"
    using rd16_at [of "?h @ w" "12 + length w" qtype "wr16 DNS_CLASS_IN @ ?o"]
      rd16_at [of "?h @ w @ wr16 qtype" "12 + length w + 2" DNS_CLASS_IN ?o]
    by (simp_all add: m del: rd16_Ok)
  have opt: "dns_parse_rr m (12 + length w + 4) = Ok (\<lparr>rr_name = [], rr_type = DNS_TYPE_OPT,
      rr_rclass = payload, rr_ttl = 0, rr_rdlength = 0, rr_rdata = 12 + length w + 4 + 11\<rparr>, length m)"
    if "payload \<noteq> 0"
  proof -
    let ?p = "?h @ w @ wr16 qtype @ wr16 DNS_CLASS_IN"
    have mm: "m = ?p @ [0] @ wr16 DNS_TYPE_OPT @ wr16 payload @ wr32 0 @ wr16 0 @ [] @ []"
      using that by (simp add: m opt_rr_def)
    have "dns_name_decode m (length ?p) 256 = Ok ([], length ?p + 1)"
      unfolding mm using encode_decode [of "[]" 256 "[0]" ?p "wr16 DNS_TYPE_OPT @ wr16 payload @ wr32 0 @ wr16 0"]
      by (simp add: dns_name_encode_def is_cstr_def strip_dot_def)
    with dns_parse_rr_at [OF mm, of "[]"] show ?thesis by (simp add: mm)
  qed
  show ?thesis
    using hdr dec fields opt
    by (cases "payload = 0"; cases rd)
      (simp_all add: dns_parse_query_def built_query_info_def m dns_msg_consts
        del: rd16_Ok res_bind_eq_Ok Ok_eq_res_bind)
qed

section \<open>Responses\<close>

text \<open>A section of \<open>n\<close> records, read one after the other.\<close>

fun parse_rrs :: "bytes \<Rightarrow> nat \<Rightarrow> nat \<Rightarrow> (dns_rr list \<times> nat) res" where
  "parse_rrs msg off 0 = Ok ([], off)"
| "parse_rrs msg off (Suc n) =
     res_bind (dns_parse_rr msg off) (\<lambda>(rr, nx).
     res_bind (parse_rrs msg nx n) (\<lambda>(rrs, e). Ok (rr # rrs, e)))"

text \<open>A parsed record carries an answer.\<close>

definition rr_for :: "bytes \<Rightarrow> cstring \<Rightarrow> dns_rr \<Rightarrow> dns_answer \<Rightarrow> bool" where
  "rr_for msg qname rr a \<longleftrightarrow>
     rr_type rr = an_type a \<and> rr_rclass rr = DNS_CLASS_IN \<and> rr_ttl rr = an_ttl a \<and>
     rr_name rr = (if dns_name_equal (an_owner a) qname then lower (an_owner a)
                   else lower (strip_dot (an_owner a))) \<and>
     (case an_rdata a of
        RD_A bs \<Rightarrow> take (unat (rr_rdlength rr)) (drop (rr_rdata rr) msg) = bs
      | RD_AAAA bs \<Rightarrow> take (unat (rr_rdlength rr)) (drop (rr_rdata rr) msg) = bs
      | RD_CNAME s \<Rightarrow> dns_name_decode msg (rr_rdata rr) 256 =
                      Ok (lower (strip_dot s), rr_rdata rr + unat (rr_rdlength rr)))"

text \<open>The strings an answer carries are C strings.\<close>

definition cstr_answer :: "dns_answer \<Rightarrow> bool" where
  "cstr_answer a \<longleftrightarrow> is_cstr (an_owner a) \<and> (\<forall>s. an_rdata a = RD_CNAME s \<longrightarrow> is_cstr s)"

lemma decode_owner_pointer:
  assumes "name_at m 12 ls 0 nxt" "length (dotted ls) \<le> 255" "m = pre @ [0xC0, 0x0C] @ post" "12 < length pre"
  shows "dns_name_decode m (length pre) 256 = Ok (cstr (lower (dotted ls)), length pre + 2)"
proof -
  have "name_at m (length pre) ls (0 + 1) (length pre + 2)"
  proof (rule name_at.pointer)
    show "12 = unat (be16 (m ! length pre AND 0x3F) (m ! (length pre + 1)))"
      by (simp add: assms(3) nth_append unat_be16)
  qed (use assms in \<open>simp_all add: nth_append\<close>)
  with assms(2) show ?thesis unfolding dns_name_decode_iff by fastforce
qed

lemma rdata_wire_length: "wf_answer a \<Longrightarrow> supported a \<Longrightarrow> rdata_wire (an_rdata a) = Some rd \<Longrightarrow> length rd \<le> 256"
  by (auto simp: wf_answer_def supported_def dest: name_wire_length)

lemma parse_ans_wire:
  assumes r: "ans_wire qn a = Some r" and wf: "wf_answer a" "supported a" "cstr_answer a"
    and m: "m = pre @ r @ post" "12 < length pre"
    and q: "name_at m 12 ls 0 nxt" "length (dotted ls) \<le> 255" "qn = cstr (lower (dotted ls))"
  shows "\<exists>rr. dns_parse_rr m (length pre) = Ok (rr, length pre + length r) \<and> rr_for m qn rr a"
proof -
  from r obtain ow rd where w: "owner_wire qn a = Some ow" "rdata_wire (an_rdata a) = Some rd"
    "r = ow @ wr16 (an_type a) @ wr16 DNS_CLASS_IN @ wr32 (an_ttl a) @ wr16 (word_of_nat (length rd)) @ rd"
    by (auto simp: ans_wire_def split: option.splits)
  let ?n = "if dns_name_equal (an_owner a) qn then lower (an_owner a) else lower (strip_dot (an_owner a))"
  have rdl: "length rd \<le> 256" using wf w(2) by (intro rdata_wire_length)
  have mm: "m = pre @ ow @ wr16 (an_type a) @ wr16 DNS_CLASS_IN @ wr32 (an_ttl a)
      @ wr16 (word_of_nat (length rd)) @ rd @ post"
    using m w by simp
  have low: "lower qn = qn" unfolding q(3) by (simp add: cstr_def lower_def takeWhile_map o_def)
  have nm: "dns_name_decode m (length pre) 256 = Ok (?n, length pre + length ow)"
  proof (cases "dns_name_equal (an_owner a) qn")
    case True
    with w(1) have "ow = [0xC0, 0x0C]" by (simp add: owner_wire_def)
    moreover have "lower (an_owner a) = qn" using True low by (simp add: dns_name_equal_iff)
    ultimately show ?thesis
      using True decode_owner_pointer [OF q(1,2), of pre] m(2) q(3) mm by simp
  next
    case False
    with w(1) have "dns_name_encode (an_owner a) 256 = Ok ow" by (simp add: owner_wire_def name_wire_iff)
    from encode_decode [OF this] False wf(3) show ?thesis by (simp add: mm cstr_answer_def)
  qed
  have rdu: "unat (word_of_nat (length rd) :: u16) = length rd" using rdl by (intro unat_u16_small) simp
  let ?rr = "\<lparr>rr_name = ?n, rr_type = an_type a, rr_rclass = DNS_CLASS_IN, rr_ttl = an_ttl a,
     rr_rdlength = word_of_nat (length rd), rr_rdata = length pre + length ow + 10\<rparr>"
  have parse: "dns_parse_rr m (length pre) = Ok (?rr, length pre + length r)"
    using dns_parse_rr_at [OF mm nm rdu] by (simp add: w(3))
  let ?pre = "pre @ ow @ wr16 (an_type a) @ wr16 DNS_CLASS_IN @ wr32 (an_ttl a) @ wr16 (word_of_nat (length rd))"
  have mr: "m = ?pre @ rd @ post" "length ?pre = rr_rdata ?rr" using mm by simp_all
  have "take (length rd) (drop (rr_rdata ?rr) m) = rd"
    unfolding mr(2) [symmetric] by (simp add: mm)
  moreover have "dns_name_decode m (rr_rdata ?rr) 256 = Ok (lower (strip_dot s), rr_rdata ?rr + length rd)"
    if s: "an_rdata a = RD_CNAME s" for s
  proof -
    from w(2) s have "dns_name_encode s 256 = Ok rd" by (simp add: name_wire_iff)
    from encode_decode [OF this, of ?pre post] wf(3) s show ?thesis
      unfolding mr(2) [symmetric] mr(1) [symmetric] by (simp add: cstr_answer_def)
  qed
  ultimately have "rr_for m qn ?rr a"
    using w(2) by (auto simp: rr_for_def rdu simp del: dns_rr.select_convs(6) split: dns_rdata.splits)
  with parse show ?thesis by blast
qed

lemma parse_all_ans_wire:
  assumes "map (ans_wire qn) as = map Some rs" "list_all wf_answer as" "list_all supported as"
    "list_all cstr_answer as" "m = pre @ concat rs @ post" "12 < length pre"
    and q: "name_at m 12 ls 0 nxt" "length (dotted ls) \<le> 255" "qn = cstr (lower (dotted ls))"
  shows "\<exists>rrs. parse_rrs m (length pre) (length rs) = Ok (rrs, length pre + length (concat rs))
     \<and> list_all2 (rr_for m qn) rrs as"
  using assms(1-6)
proof (induction as arbitrary: rs pre)
  case Nil
  then show ?case by simp
next
  case (Cons a as)
  then obtain r rs' where rs: "rs = r # rs'" "ans_wire qn a = Some r" "map (ans_wire qn) as = map Some rs'"
    by (cases rs) auto
  have m: "m = pre @ r @ (concat rs' @ post)" "m = (pre @ r) @ concat rs' @ post"
    using Cons.prems(5) rs(1) by simp_all
  obtain rr where rr: "dns_parse_rr m (length pre) = Ok (rr, length pre + length r)" "rr_for m qn rr a"
    using parse_ans_wire [OF rs(2) _ _ _ m(1) Cons.prems(6) q] Cons.prems by auto
  have "list_all wf_answer as" "list_all supported as" "list_all cstr_answer as" "12 < length (pre @ r)"
    using Cons.prems by simp_all
  from Cons.IH [OF rs(3) this(1-3) m(2) this(4)] obtain rrs where
    "parse_rrs m (length (pre @ r)) (length rs') = Ok (rrs, length (pre @ r) + length (concat rs'))"
    "list_all2 (rr_for m qn) rrs as" by blast
  with rr rs(1) show ?case by (intro exI [of _ "rr # rrs"]) simp
qed

text \<open>The question name is spelled out in the query, without compression.\<close>

definition plain_question :: "bytes \<Rightarrow> bool" where
  "plain_question query \<longleftrightarrow> (\<exists>ls nxt. name_at query 12 ls 0 nxt)"

lemma name_at_unique:
  assumes "name_at msg off ls j nxt" "name_at msg off ls' j' nxt'"
  shows "ls = ls' \<and> j = j' \<and> nxt = nxt'"
  using assms
proof (induction arbitrary: ls' j' nxt' rule: name_at.induct)
  case (root off)
  from root(3) show ?case by cases (use root in auto)
next
  case (label off l ls j nxt)
  from label.prems show ?case
  proof cases
    case root
    with label.hyps(2,3) show ?thesis by simp
  next
    case (label l2 ls2)
    with \<open>l = msg ! off\<close> have "ls = ls2 \<and> j = j' \<and> nxt = nxt'" by (intro label.IH) simp
    with label \<open>l = msg ! off\<close> show ?thesis by simp
  next
    case (pointer t j2 nxt2)
    with label.hyps(2,4) show ?thesis by simp
  qed
next
  case (pointer off t ls j nxt)
  from pointer.prems show ?case
  proof cases
    case root
    with pointer.hyps(2) show ?thesis by simp
  next
    case (label l2 ls2)
    with pointer.hyps(2) show ?thesis by simp
  next
    case (pointer t2 j2 nxt2)
    with \<open>t = unat (be16 (msg ! off AND 0x3F) (msg ! (off + 1)))\<close>
    have "ls = ls' \<and> j = j2 \<and> nxt = nxt2" by (intro pointer.IH) simp
    with pointer show ?thesis by simp
  qed
qed

lemma plain_question_decode:
  assumes "dns_parse_query query = Ok q" "plain_question query"
  obtains ls where "name_at query 12 ls 0 (12 + q_raw_len (qi_q q) - 4)" "length (dotted ls) \<le> 255"
    "q_name (qi_q q) = cstr (lower (dotted ls))"
proof -
  from assms(1) obtain nm after where a: "dns_name_decode query 12 256 = Ok (nm, after)"
    "q_name (qi_q q) = nm" "q_raw_len (qi_q q) = after + 4 - 12"
    by (rule dns_parse_query_cases)
  from a(1) obtain ls j where ls: "name_at query 12 ls j after" "length (dotted ls) \<le> 255"
    "nm = cstr (lower (dotted ls))" unfolding dns_name_decode_iff by blast
  from assms(2) ls(1) have "j = 0" unfolding plain_question_def by (auto dest: name_at_unique)
  moreover have "after = 12 + q_raw_len (qi_q q) - 4" using a(3) name_at_bounds [OF ls(1)] by simp
  ultimately show thesis using that ls a(2) by simp
qed

lemma response_reads_back:
  assumes q: "dns_parse_query query = Ok q" "plain_question query" and cap: "512 \<le> cap"
    and wf: "list_all wf_answer ans" "list_all cstr_answer ans"
    and out: "dns_build_response query q ans rcode is_udp cap = Ok out"
  shows "\<exists>dn rest rrs nx. (if rcode = DNS_RCODE_NOERROR then ans else []) = dn @ rest \<and>
     parse_rrs out (12 + q_raw_len (qi_q q)) (length (filter supported dn)) = Ok (rrs, nx) \<and>
     list_all2 (rr_for out (q_name (qi_q q))) rrs (filter supported dn) \<and>
     dns_parse_header out = Ok \<lparr>h_id = h_id (qi_hdr q), h_flags = response_flags q (rest \<noteq> []) rcode,
        h_qdcount = 1, h_ancount = word_of_nat (length rrs), h_nscount = 0,
        h_arcount = (if qi_has_edns q then 1 else 0)\<rparr> \<and>
     drop nx out = response_opt q"
proof -
  let ?n = "q_raw_len (qi_q q)"
  obtain dn rest rs where sh: "(if rcode = DNS_RCODE_NOERROR then ans else []) = dn @ rest"
    "map (ans_wire (q_name (qi_q q))) (filter supported dn) = map Some rs"
    "dns_build_response query q ans rcode is_udp cap =
       Ok (response_header q (rest \<noteq> []) rcode (length rs) @ take ?n (drop 12 query)
           @ concat rs @ response_opt q)"
    by (rule dns_build_response_shape [OF q(1) cap wf(1), of rcode is_udp])
  let ?hdr = "response_header q (rest \<noteq> []) rcode (length rs)"
  have o: "out = ?hdr @ take ?n (drop 12 query) @ concat rs @ response_opt q" using sh(3) out by simp
  let ?pre = "?hdr @ take ?n (drop 12 query)"
  note raw = dns_parse_query_raw [OF q(1)]
  have len: "length ?pre = 12 + ?n" using raw by simp
  obtain ls where ls: "name_at query 12 ls 0 (12 + ?n - 4)" "length (dotted ls) \<le> 255"
    "q_name (qi_q q) = cstr (lower (dotted ls))" by (rule plain_question_decode [OF q])
  have "name_at out 12 ls 0 (12 + ?n - 4)"
    using ls(1) refl
  proof (rule name_at_local)
    show "12 + ?n - 4 \<le> length out" using len by (simp add: o)
  next
    fix i assume "12 \<le> i" "i < 12 + ?n - 4"
    moreover from this have "i - 12 < ?n" "min (length query - 12) ?n = ?n" using raw by auto
    ultimately show "out ! i = query ! i" using raw by (simp add: o nth_append)
  qed
  moreover have "list_all wf_answer (filter supported dn)" "list_all cstr_answer (filter supported dn)"
    "list_all supported (filter supported dn)"
    using wf sh(1) by (auto simp: list_all_iff split: if_splits)
  moreover have "out = ?pre @ concat rs @ response_opt q" using o by simp
  ultimately obtain rrs where rrs:
    "parse_rrs out (length ?pre) (length rs) = Ok (rrs, length ?pre + length (concat rs))"
    "list_all2 (rr_for out (q_name (qi_q q))) rrs (filter supported dn)"
    using parse_all_ans_wire [OF sh(2) _ _ _ _ _ _ ls(2,3), of out ?pre "response_opt q"] len raw by auto
  have n: "length rs = length (filter supported dn)" using arg_cong [OF sh(2), of length] by simp
  with rrs(2) have "length rrs = length rs" by (simp add: list_all2_lengthD)
  then have "dns_parse_header out = Ok \<lparr>h_id = h_id (qi_hdr q), h_flags = response_flags q (rest \<noteq> []) rcode,
        h_qdcount = 1, h_ancount = word_of_nat (length rrs), h_nscount = 0,
        h_arcount = (if qi_has_edns q then 1 else 0)\<rparr>"
    unfolding o response_header_def by (simp add: dns_parse_header_wr16)
  moreover have "drop (length ?pre + length (concat rs)) out = response_opt q"
    by (simp add: o)
  ultimately show ?thesis using sh(1) rrs n len by metis
qed

lemma response_flags_TC: "response_flags q t r AND DNS_FLAG_TC = (if t then DNS_FLAG_TC else 0)"
proof -
  have "(r AND 0xF) AND 0x200 = 0" by (simp add: and.assoc)
  then show ?thesis
    by (auto simp: response_flags_def dns_msg_consts bit.conj_disj_distrib2)
qed

text \<open>When every answer has a wire form, the response is complete or truncated by size alone.\<close>

lemma response_truncated_iff:
  assumes q: "dns_parse_query query = Ok q" and cap: "512 \<le> cap"
    and wf: "list_all wf_answer ans" "list_all supported ans"
    and wire: "map (ans_wire (q_name (qi_q q))) ans = map Some all"
    and out: "dns_build_response query q ans DNS_RCODE_NOERROR is_udp cap = Ok out"
    and h: "dns_parse_header out = Ok h"
  shows "h_flags h AND DNS_FLAG_TC = 0 \<longleftrightarrow>
    12 + q_raw_len (qi_q q) + length (concat all) + length (response_opt q) \<le> effective_cap q is_udp cap"
proof -
  let ?n = "q_raw_len (qi_q q)" and ?eff = "effective_cap q is_udp cap"
  obtain dn rest rs where sh0: "(if DNS_RCODE_NOERROR = DNS_RCODE_NOERROR then ans else []) = dn @ rest"
    "map (ans_wire (q_name (qi_q q))) (filter supported dn) = map Some rs"
    "dns_build_response query q ans DNS_RCODE_NOERROR is_udp cap =
       Ok (response_header q (rest \<noteq> []) DNS_RCODE_NOERROR (length rs) @ take ?n (drop 12 query)
           @ concat rs @ response_opt q)"
    "12 + ?n + length (concat rs) + length (response_opt q) \<le> ?eff"
    "rest \<noteq> [] \<longrightarrow> build_outcome (?eff - length (response_opt q)) (q_name (qi_q q)) (hd rest)
       (replicate 12 0 @ take ?n (drop 12 query) @ concat rs) = Full"
    by (rule dns_build_response_shape [OF q cap wf(1), of DNS_RCODE_NOERROR is_udp])
  have sh: "ans = dn @ rest" "out = response_header q (rest \<noteq> []) DNS_RCODE_NOERROR (length rs)
      @ take ?n (drop 12 query) @ concat rs @ response_opt q"
    using sh0(1,3) out by simp_all
  have "h = \<lparr>h_id = h_id (qi_hdr q), h_flags = response_flags q (rest \<noteq> []) DNS_RCODE_NOERROR,
        h_qdcount = 1, h_ancount = word_of_nat (length rs), h_nscount = 0,
        h_arcount = (if qi_has_edns q then 1 else 0)\<rparr>"
    using h unfolding sh(2) response_header_def by (simp add: dns_parse_header_wr16)
  then have flag: "h_flags h AND DNS_FLAG_TC = 0 \<longleftrightarrow> rest = []"
    by (simp add: response_flags_TC) (simp add: dns_msg_consts)
  have "filter supported dn = dn" using wf(2) sh(1) by (simp add: list_all_iff)
  with wire sh(1) sh0(2) have "map Some rs @ map (ans_wire (q_name (qi_q q))) rest = map Some all" by simp
  then obtain vs where all: "all = rs @ vs" "map (ans_wire (q_name (qi_q q))) rest = map Some vs"
    by (auto simp: append_eq_map_conv inj_map_eq_map)
  show ?thesis
  proof (cases rest)
    case Nil
    then show ?thesis using flag all sh0(4) by simp
  next
    case (Cons a as)
    then obtain r more where r: "vs = r # more" "ans_wire (q_name (qi_q q)) a = Some r"
      using all(2) by (cases vs) auto
    have "supported a" using wf(2) sh(1) Cons by simp
    with sh0(5) Cons r(2) have "?eff - length (response_opt q) < 12 + ?n + length (concat rs) + length r"
      using dns_parse_query_raw [OF q]
      by (auto simp: build_outcome_def ans_wire_def split: option.splits if_splits)
    moreover have "length (concat all) = length (concat rs) + length r + length (concat more)"
      by (simp add: all(1) r(1))
    ultimately show ?thesis using flag Cons by simp
  qed
qed

section \<open>Properties\<close>

text \<open>
  Concrete messages: a query for the A records of \<^verbatim>\<open>a.io\<close> with an OPT record announcing 1400 bytes,
  and two answers, one owned by the name asked for and one by another name.
\<close>

definition sample_query :: bytes where
  "sample_query =
     [0x12, 0x34, 0x01, 0x00, 0, 1, 0, 0, 0, 0, 0, 1,
      1, 97, 2, 105, 111, 0, 0, 1, 0, 1,
      0, 0, 41, 0x05, 0x78, 0, 0, 0, 0, 0, 0]"

definition sample_info :: dns_query_info where
  "sample_info =
     \<lparr>qi_hdr = \<lparr>h_id = 0x1234, h_flags = 0x0100, h_qdcount = 1, h_ancount = 0, h_nscount = 0,
               h_arcount = 1\<rparr>,
      qi_q = \<lparr>q_name = [97, 46, 105, 111], q_qtype = 1, q_qclass = 1, q_raw_off = 12, q_raw_len = 10\<rparr>,
      qi_recursion_desired = True, qi_has_edns = True, qi_edns_udp_payload = 1400,
      qi_edns_version = 0, qi_edns_do = False\<rparr>"

definition sample_answers :: "dns_answer list" where
  "sample_answers =
     [\<lparr>an_type = 5, an_ttl = 60, an_rdata = RD_CNAME [98, 46, 105, 111], an_owner = [97, 46, 105, 111]\<rparr>,
      \<lparr>an_type = 1, an_ttl = 30, an_rdata = RD_A [10, 0, 0, 1], an_owner = [98, 46, 105, 111]\<rparr>]"

lemma sample_query_parse: "dns_parse_query sample_query = Ok sample_info"
  by code_simp

lemma sample_answers_wf:
  "list_all wf_answer sample_answers" "list_all cstr_answer sample_answers" "list_all supported sample_answers"
  by (simp_all add: sample_answers_def wf_answer_def cstr_answer_def supported_def is_cstr_def dns_msg_consts)

lemma sample_query_plain: "plain_question sample_query"
proof -
  have "name_at (take 12 sample_query @ wire [[97], [105, 111]] @ drop 18 sample_query)
      (length (take 12 sample_query)) [[97], [105, 111]] 0
      (length (take 12 sample_query) + length (wire [[97], [105, 111]]))"
    by (rule name_at_wire) (simp add: labels_ok_def)
  moreover have "take 12 sample_query @ wire [[97], [105, 111]] @ drop 18 sample_query = sample_query"
    "length (take 12 sample_query) = 12"
    by (simp_all add: sample_query_def wire_def wire_label_def)
  ultimately show ?thesis unfolding plain_question_def by metis
qed

lemma sample_response:
  "dns_build_response sample_query sample_info sample_answers DNS_RCODE_NOERROR True 1500 =
     Ok [0x12, 0x34, 0x81, 0x80, 0, 1, 0, 2, 0, 0, 0, 1,
         1, 97, 2, 105, 111, 0, 0, 1, 0, 1,
         0xC0, 0x0C, 0, 5, 0, 1, 0, 0, 0, 60, 0, 6, 1, 98, 2, 105, 111, 0,
         1, 98, 2, 105, 111, 0, 0, 1, 0, 1, 0, 0, 0, 30, 0, 4, 10, 0, 0, 1,
         0, 0, 41, 0x04, 0xD0, 0, 0, 0, 0, 0, 0]"
  by code_simp

text \<open>C4: no byte string makes the parsers of \<^verbatim>\<open>dns_msg.c\<close> read outside the message or write outside
  their name buffer: they return a result or their error code.\<close>

theorem parse_memory_safe:
  "dns_name_decode msg off cap \<noteq> Fault \<and> dns_skip_question msg off \<noteq> Fault
   \<and> dns_parse_rr msg off \<noteq> Fault \<and> dns_parse_header msg \<noteq> Fault \<and> dns_parse_query msg \<noteq> Fault"
  by (intro conjI nofault)



text \<open>C6: a response reads back. Parsing it yields the query's id, the flags the code computes, one
  question, and as many records as were emitted: those of a prefix of the answers, each with its
  owner, type, class, TTL and data; what is left is the OPT record, echoed whenever the query
  carried one. The question name is spelled out, not compressed.\<close>

theorem response_roundtrip:
  assumes "dns_parse_query query = Ok q" "plain_question query" "512 \<le> cap"
    "list_all wf_answer ans" "list_all cstr_answer ans"
    "dns_build_response query q ans rcode is_udp cap = Ok out"
  shows "\<exists>dn rest rrs nx. (if rcode = DNS_RCODE_NOERROR then ans else []) = dn @ rest \<and>
     parse_rrs out (12 + q_raw_len (qi_q q)) (length (filter supported dn)) = Ok (rrs, nx) \<and>
     list_all2 (rr_for out (q_name (qi_q q))) rrs (filter supported dn) \<and>
     dns_parse_header out = Ok \<lparr>h_id = h_id (qi_hdr q), h_flags = response_flags q (rest \<noteq> []) rcode,
        h_qdcount = 1, h_ancount = word_of_nat (length rrs), h_nscount = 0,
        h_arcount = (if qi_has_edns q then 1 else 0)\<rparr> \<and>
     drop nx out = response_opt q"
  using response_reads_back [OF assms] .

theorem response_roundtrip_witness:
  "\<exists>out dn rest rrs nx. dns_build_response sample_query sample_info sample_answers DNS_RCODE_NOERROR True 1500 = Ok out \<and>
     sample_answers = dn @ rest \<and>
     parse_rrs out 22 (length (filter supported dn)) = Ok (rrs, nx) \<and>
     list_all2 (rr_for out [97, 46, 105, 111]) rrs (filter supported dn)"
  using response_roundtrip [OF sample_query_parse sample_query_plain _ sample_answers_wf(1,2) sample_response]
    sample_response
  by (fastforce simp: sample_info_def)

text \<open>C7: truncation is signalled exactly when the records do not all fit under the ceiling next to the
  question and the reserved OPT record.\<close>

theorem response_truncation:
  assumes "dns_parse_query query = Ok q" "512 \<le> cap"
    "list_all wf_answer ans" "list_all supported ans"
    "map (ans_wire (q_name (qi_q q))) ans = map Some records"
    "dns_build_response query q ans DNS_RCODE_NOERROR is_udp cap = Ok out"
    "dns_parse_header out = Ok h"
  shows "h_flags h AND DNS_FLAG_TC = 0 \<longleftrightarrow>
    12 + q_raw_len (qi_q q) + length (concat records) + length (response_opt q) \<le> effective_cap q is_udp cap"
  using response_truncated_iff [OF assms] .

theorem response_truncation_witness:
  "\<exists>out h records. dns_build_response sample_query sample_info sample_answers DNS_RCODE_NOERROR True 1500 = Ok out
     \<and> dns_parse_header out = Ok h
     \<and> map (ans_wire (q_name (qi_q sample_info))) sample_answers = map Some records
     \<and> h_flags h AND DNS_FLAG_TC = 0
     \<and> 12 + q_raw_len (qi_q sample_info) + length (concat records) + length (response_opt sample_info)
         \<le> effective_cap sample_info True 1500"
proof -
  obtain out where out: "dns_build_response sample_query sample_info sample_answers DNS_RCODE_NOERROR True 1500 = Ok out"
    and o: "take 4 out = [0x12, 0x34, 0x81, 0x80]" "12 \<le> length out"
    using sample_response by auto
  then obtain h where h: "dns_parse_header out = Ok h"
    using dns_parse_header_nofault [of out] by (cases "dns_parse_header out") auto
  have w: "map (ans_wire (q_name (qi_q sample_info))) sample_answers =
      map Some [[0xC0, 0x0C, 0, 5, 0, 1, 0, 0, 0, 60, 0, 6, 1, 98, 2, 105, 111, 0],
        [1, 98, 2, 105, 111, 0, 0, 1, 0, 1, 0, 0, 0, 30, 0, 4, 10, 0, 0, 1]]"
    by code_simp
  have fits: "12 + q_raw_len (qi_q sample_info)
      + length (concat [[0xC0, 0x0C, 0, 5, 0, 1, 0, 0, 0, 60, 0, 6, 1, 98, 2, 105, 111, 0 :: byte],
        [1, 98, 2, 105, 111, 0, 0, 1, 0, 1, 0, 0, 0, 30, 0, 4, 10, 0, 0, 1]])
      + length (response_opt sample_info) \<le> effective_cap sample_info True 1500"
    by code_simp
  have "(512 :: nat) \<le> 1500" by simp
  then have "h_flags h AND DNS_FLAG_TC = 0"
    using response_truncation [OF sample_query_parse _ sample_answers_wf(1,3) w out h] fits by blast
  with out h w fits show ?thesis by blast
qed

text \<open>C8: every query the resolver builds for an encodable name, with any id, type, recursion bit and
  EDNS payload, is accepted by \<^verbatim>\<open>dns_parse_query\<close> and parses back to exactly those values.\<close>

theorem query_roundtrip:
  assumes "dns_name_encode name (DNS_MAX_NAME + 1) = Ok w" "is_cstr name" "284 \<le> cap"
  shows "\<exists>m. dns_build_query i name qtype rd payload cap = Ok m \<and> length m \<le> cap
     \<and> dns_parse_query m = Ok (built_query_info i name qtype rd payload (length w))"
proof -
  have w: "name_wire name = Some w" using assms(1) by (simp add: name_wire_iff)
  show ?thesis
    using dns_build_query_shape [OF w assms(3)] parse_built_query [OF w assms(2) refl]
      name_wire_length [OF w] assms(3) by simp
qed

theorem query_roundtrip_witness:
  "\<exists>m. dns_build_query 7 (ascii ''NS.io'') 1 False 1232 1500 = Ok m
     \<and> dns_parse_query m = Ok (built_query_info 7 (ascii ''NS.io'') 1 False 1232 7)"
proof -
  have e: "dns_name_encode (ascii ''NS.io'') (DNS_MAX_NAME + 1) = Ok [2, 78, 83, 2, 105, 111, 0]" by code_simp
  have c: "is_cstr (ascii ''NS.io'')" by code_simp
  show ?thesis using query_roundtrip [OF e c, of 1500 7 1 False 1232] by (auto simp: eval_nat_numeral)
qed


end
