(* ===== verification/DnsBloom.thy ===== *)
theory DnsBloom
  imports DnsName "HOL-Library.Multiset"
begin

text \<open>
  The key hash and the counting Bloom filter in front of the cache (\<^verbatim>\<open>dns_bloom.c\<close>,
  \<^verbatim>\<open>dns_bloom.h\<close>). The array of counters is a function on slot indices below \<open>BLOOM_SLOTS\<close>;
  the statistics are the sharded counters of the code, with the thread-local shard pointer of
  each thread as a map from thread identifiers. The contract of the filter is the locale
  \<open>membership_filter\<close>, which the counting filter and the stub of the
  \<^verbatim>\<open>DNS_BLOOM_DISABLED\<close> build both implement.
\<close>

section \<open>Definitions\<close>

definition dns_key_hash :: "cstring \<Rightarrow> u16 \<Rightarrow> u64" where
  "dns_key_hash name qtype =
     (let h = foldl (\<lambda>h c. (h XOR ucast (tolower c)) * 1099511628211) 14695981039346656037 name
      in (h XOR ucast qtype) * 1099511628211)"

definition BLOOM_SLOTS :: nat where "BLOOM_SLOTS = 65536"
definition BLOOM_HASHES :: nat where "BLOOM_HASHES = 4"
definition BLOOM_MAX :: byte where "BLOOM_MAX = 255"
definition STAT_SHARDS :: nat where "STAT_SHARDS = 64"

record stat_shard =
  queries :: u64
  rejected :: u64
  saturated :: u64

record bloom =
  slots :: "u32 \<Rightarrow> byte"
  shards :: "nat \<Rightarrow> stat_shard"
  next_shard :: u32
  my_shard :: "nat \<Rightarrow> nat option"

text \<open>The shard of thread \<open>t\<close>, claimed on first use.\<close>

definition shard :: "nat \<Rightarrow> bloom \<Rightarrow> nat \<times> bloom" where
  "shard t b = (case my_shard b t of
       Some i \<Rightarrow> (i, b)
     | None \<Rightarrow> (let i = unat (next_shard b) mod STAT_SHARDS
               in (i, b\<lparr>next_shard := next_shard b + 1, my_shard := (my_shard b)(t \<mapsto> i)\<rparr>)))"

definition bump_queries :: "nat \<Rightarrow> bloom \<Rightarrow> bloom" where
  "bump_queries i b =
     b\<lparr>shards := (shards b)(i := (shards b i)\<lparr>queries := queries (shards b i) + 1\<rparr>)\<rparr>"

definition bump_rejected :: "nat \<Rightarrow> bloom \<Rightarrow> bloom" where
  "bump_rejected i b =
     b\<lparr>shards := (shards b)(i := (shards b i)\<lparr>rejected := rejected (shards b i) + 1\<rparr>)\<rparr>"

definition bump_saturated :: "nat \<Rightarrow> bloom \<Rightarrow> bloom" where
  "bump_saturated i b =
     b\<lparr>shards := (shards b)(i := (shards b i)\<lparr>saturated := saturated (shards b i) + 1\<rparr>)\<rparr>"

definition bloom_slots :: "u64 \<Rightarrow> u32 list" where
  "bloom_slots hash =
     (let h1 = ucast hash :: u32; h2 = (ucast (drop_bit 32 hash) :: u32) OR 1
      in map (\<lambda>i. (h1 + of_nat i * h2) AND (of_nat BLOOM_SLOTS - 1)) [0..<BLOOM_HASHES])"

definition dns_bloom_reset :: "bloom \<Rightarrow> bloom" where
  "dns_bloom_reset b =
     b\<lparr>slots := \<lambda>i. if unat i < BLOOM_SLOTS then 0 else slots b i,
       shards := \<lambda>i. if i < STAT_SHARDS then \<lparr>queries = 0, rejected = 0, saturated = 0\<rparr>
                     else shards b i\<rparr>"

fun maybe_loop :: "nat \<Rightarrow> u32 list \<Rightarrow> bloom \<Rightarrow> bool \<times> bloom" where
  "maybe_loop st [] b = (True, b)"
| "maybe_loop st (i # idx) b =
     (if slots b i = 0 then (False, bump_rejected st b) else maybe_loop st idx b)"

definition dns_bloom_maybe :: "nat \<Rightarrow> u64 \<Rightarrow> bloom \<Rightarrow> bool \<times> bloom" where
  "dns_bloom_maybe t hash b =
     (let (st, b1) = shard t b in maybe_loop st (bloom_slots hash) (bump_queries st b1))"

definition add_slot :: "nat \<Rightarrow> u32 \<Rightarrow> bloom \<Rightarrow> bloom" where
  "add_slot t i b =
     (let v = slots b i
      in if v = BLOOM_MAX then (let (st, b1) = shard t b in bump_saturated st b1)
         else b\<lparr>slots := (slots b)(i := v + 1)\<rparr>)"

definition dns_bloom_add :: "nat \<Rightarrow> u64 \<Rightarrow> bloom \<Rightarrow> bloom" where
  "dns_bloom_add t hash b = fold (add_slot t) (bloom_slots hash) b"

definition del_slot :: "u32 \<Rightarrow> bloom \<Rightarrow> bloom" where
  "del_slot i b =
     (let v = slots b i
      in if v = 0 \<or> v = BLOOM_MAX then b else b\<lparr>slots := (slots b)(i := v - 1)\<rparr>)"

definition dns_bloom_del :: "u64 \<Rightarrow> bloom \<Rightarrow> bloom" where
  "dns_bloom_del hash b = fold del_slot (bloom_slots hash) b"

text \<open>The four out-parameters, all requested: queries, rejected, saturated, slots in use.\<close>

definition dns_bloom_stats :: "bloom \<Rightarrow> u64 \<times> u64 \<times> u64 \<times> nat" where
  "dns_bloom_stats b =
     (sum_list (map (\<lambda>i. queries (shards b i)) [0..<STAT_SHARDS]),
      sum_list (map (\<lambda>i. rejected (shards b i)) [0..<STAT_SHARDS]),
      sum_list (map (\<lambda>i. saturated (shards b i)) [0..<STAT_SHARDS]),
      length (filter (\<lambda>i. slots b (of_nat i) \<noteq> 0) [0..<BLOOM_SLOTS]))"

text \<open>The filter compiled out.\<close>

definition disabled_maybe :: "nat \<Rightarrow> u64 \<Rightarrow> bloom \<Rightarrow> bool \<times> bloom" where
  "disabled_maybe t h b = (True, b)"

definition disabled_add :: "nat \<Rightarrow> u64 \<Rightarrow> bloom \<Rightarrow> bloom" where
  "disabled_add t h b = b"

definition disabled_del :: "u64 \<Rightarrow> bloom \<Rightarrow> bloom" where
  "disabled_del h b = b"

definition disabled_reset :: "bloom \<Rightarrow> bloom" where
  "disabled_reset b = b"

text \<open>The zero-initialised statics at program start.\<close>

definition bloom_static :: bloom where
  "bloom_static = \<lparr>slots = \<lambda>_. 0, shards = \<lambda>_. \<lparr>queries = 0, rejected = 0, saturated = 0\<rparr>,
     next_shard = 0, my_shard = \<lambda>_. None\<rparr>"

section \<open>The hash\<close>

lemma foldl_lower: "foldl (\<lambda>h c. (h XOR ucast (tolower c)) * k) (h :: u64) name =
    foldl (\<lambda>h c. (h XOR ucast c) * k) h (lower name)"
  by (induction name arbitrary: h) (simp_all add: lower_def)

lemma dns_key_hash_equal: "dns_name_equal a b \<Longrightarrow> dns_key_hash a t = dns_key_hash b t"
  by (simp add: dns_key_hash_def dns_name_equal_iff foldl_lower)

section \<open>Slot indices\<close>

lemma mask16_32: "(0xFFFF::u32) = mask 16"
  by (simp add: mask_eq_exp_minus_1)

lemma bloom_slots_eq:
  "bloom_slots hash = (let h1 = ucast hash :: u32; h2 = (ucast (drop_bit 32 hash) :: u32) OR 1
     in map (\<lambda>i. take_bit 16 (h1 + of_nat i * h2)) [0..<4])"
  by (simp add: bloom_slots_def BLOOM_SLOTS_def BLOOM_HASHES_def mask16_32 take_bit_eq_mask)

lemma bloom_slots_bound: "i \<in> set (bloom_slots hash) \<Longrightarrow> unat i < BLOOM_SLOTS"
  by (auto simp: bloom_slots_eq Let_def BLOOM_SLOTS_def unsigned_take_bit_eq
      intro: take_bit_nat_less_exp [of 16, simplified])

lemma length_bloom_slots [simp]: "length (bloom_slots hash) = 4"
  by (simp add: bloom_slots_eq Let_def)

lemma uint_stride: "uint (take_bit 16 (h1 + of_nat i * h2 :: u32)) = (uint h1 + int i * uint h2) mod 65536"
proof -
  have "h1 + of_nat i * h2 = word_of_int (uint h1 + int i * uint h2)" by simp
  then have "uint (take_bit 16 (h1 + of_nat i * h2)) =
      take_bit 16 (take_bit 32 (uint h1 + int i * uint h2))"
    by (simp add: unsigned_take_bit_eq uint_word_of_int_eq del: of_int_add of_int_mult)
  also have "\<dots> = take_bit 16 (uint h1 + int i * uint h2)" by (simp add: take_bit_take_bit)
  finally show ?thesis by (simp add: take_bit_eq_mod)
qed

lemma odd_stride_inj:
  fixes h1 h2 :: u32
  assumes odd: "odd (uint h2)" and lt: "i < j" "j < 4"
  shows "take_bit 16 (h1 + of_nat i * h2) \<noteq> take_bit 16 (h1 + of_nat j * h2)"
proof
  assume "take_bit 16 (h1 + of_nat i * h2) = take_bit 16 (h1 + of_nat j * h2)"
  then have "(uint h1 + int i * uint h2) mod 65536 = (uint h1 + int j * uint h2) mod 65536"
    by (metis uint_stride)
  then have "65536 dvd (uint h1 + int j * uint h2) - (uint h1 + int i * uint h2)"
    by (metis mod_eq_dvd_iff)
  then have "65536 dvd (int j - int i) * uint h2" by (simp add: algebra_simps)
  moreover have "coprime (65536::int) (uint h2)"
  proof -
    have "coprime (2::int) (uint h2)" using odd by simp
    then have "coprime ((2::int) ^ 16) (uint h2)" by (rule coprime_power_left_iff [THEN iffD2, OF disjI1])
    then show ?thesis by simp
  qed
  ultimately have "65536 dvd int j - int i"
    using coprime_dvd_mult_left_iff by blast
  then show False using lt zdvd_imp_le by fastforce
qed

lemma bloom_slots_distinct: "distinct (bloom_slots hash)"
proof -
  let ?h2 = "(ucast (drop_bit 32 hash) :: u32) OR 1"
  have "odd (uint ?h2)" by (simp add: unsigned_or_eq even_or_iff)
  then have ne: "take_bit 16 (ucast hash + of_nat i * ?h2) \<noteq> take_bit 16 (ucast hash + of_nat j * ?h2)"
    if "i < j" "j < 4" for i j
    using odd_stride_inj that by blast
  show ?thesis
    unfolding bloom_slots_eq Let_def distinct_map
    by (auto simp: inj_on_def) (metis ne linorder_neqE_nat)
qed

section \<open>What the operations do to a slot\<close>

lemma shard_slots [simp]: "slots (snd (shard t b)) = slots b"
  by (simp add: shard_def Let_def split: option.split)

lemma bump_slots [simp]:
  "slots (bump_queries i b) = slots b" "slots (bump_rejected i b) = slots b"
  "slots (bump_saturated i b) = slots b"
  by (simp_all add: bump_queries_def bump_rejected_def bump_saturated_def)

lemma maybe_loop_eq:
  "maybe_loop st idx b =
     (if \<exists>i\<in>set idx. slots b i = 0 then (False, bump_rejected st b) else (True, b))"
  by (induction idx) auto

lemma dns_bloom_maybe_iff: "fst (dns_bloom_maybe t h b) \<longleftrightarrow> (\<forall>i\<in>set (bloom_slots h). slots b i \<noteq> 0)"
  using shard_slots [of t b]
  by (cases "shard t b") (auto simp: dns_bloom_maybe_def maybe_loop_eq)

lemma dns_bloom_maybe_slots [simp]: "slots (snd (dns_bloom_maybe t h b)) = slots b"
  using shard_slots [of t b]
  by (cases "shard t b") (auto simp: dns_bloom_maybe_def maybe_loop_eq)

lemma add_slot_slots:
  "slots (add_slot t i b) = (if slots b i = BLOOM_MAX then slots b else (slots b)(i := slots b i + 1))"
  using shard_slots [of t b]
  by (cases "shard t b") (simp add: add_slot_def Let_def)

lemma del_slot_slots:
  "slots (del_slot i b) =
     (if slots b i = 0 \<or> slots b i = BLOOM_MAX then slots b else (slots b)(i := slots b i - 1))"
  by (simp add: del_slot_def Let_def)

lemma fold_add_slots:
  "distinct idx \<Longrightarrow> slots (fold (add_slot t) idx b) i =
     (if i \<in> set idx \<and> slots b i \<noteq> BLOOM_MAX then slots b i + 1 else slots b i)"
  by (induction idx arbitrary: b) (auto simp: add_slot_slots)

lemma fold_del_slots:
  "distinct idx \<Longrightarrow> slots (fold del_slot idx b) i =
     (if i \<in> set idx \<and> slots b i \<noteq> 0 \<and> slots b i \<noteq> BLOOM_MAX then slots b i - 1 else slots b i)"
  by (induction idx arbitrary: b) (auto simp: del_slot_slots)

lemma dns_bloom_add_slots:
  "slots (dns_bloom_add t h b) i =
     (if i \<in> set (bloom_slots h) \<and> slots b i \<noteq> BLOOM_MAX then slots b i + 1 else slots b i)"
  by (simp add: dns_bloom_add_def fold_add_slots bloom_slots_distinct)

lemma dns_bloom_del_slots:
  "slots (dns_bloom_del h b) i =
     (if i \<in> set (bloom_slots h) \<and> slots b i \<noteq> 0 \<and> slots b i \<noteq> BLOOM_MAX
      then slots b i - 1 else slots b i)"
  by (simp add: dns_bloom_del_def fold_del_slots bloom_slots_distinct)

lemma dns_bloom_reset_slots: "unat i < BLOOM_SLOTS \<Longrightarrow> slots (dns_bloom_reset b) i = 0"
  by (simp add: dns_bloom_reset_def)

section \<open>The counting invariant\<close>

text \<open>
  \<open>cover i H\<close> is the number of keys of the multiset \<open>H\<close> that use slot \<open>i\<close>. A filter counts \<open>H\<close>
  when every slot holds that number or is pinned at \<open>BLOOM_MAX\<close>.
\<close>

definition cover :: "u32 \<Rightarrow> u64 multiset \<Rightarrow> nat" where
  "cover i H = size (filter_mset (\<lambda>h. i \<in> set (bloom_slots h)) H)"

definition bloom_counts :: "bloom \<Rightarrow> u64 multiset \<Rightarrow> bool" where
  "bloom_counts b H \<longleftrightarrow>
     (\<forall>i. unat i < BLOOM_SLOTS \<longrightarrow> slots b i = BLOOM_MAX \<or> unat (slots b i) = cover i H)"

lemma cover_empty [simp]: "cover i {#} = 0"
  by (simp add: cover_def)

lemma cover_add: "cover i (add_mset h H) = (if i \<in> set (bloom_slots h) then Suc (cover i H) else cover i H)"
  by (simp add: cover_def)

lemma cover_del:
  assumes "h \<in># H"
  shows "cover i H = (if i \<in> set (bloom_slots h) then Suc (cover i (H - {#h#})) else cover i (H - {#h#}))"
  using assms cover_add [of i h "H - {#h#}"] by simp

lemma unat_byte_inc: "v \<noteq> BLOOM_MAX \<Longrightarrow> unat (v + 1 :: byte) = Suc (unat v)"
  using unat_byte_less [of v] by (simp add: BLOOM_MAX_def unat_word_ariths word_unat_eq_iff)

lemma unat_byte_dec: "v \<noteq> 0 \<Longrightarrow> unat (v - 1 :: byte) = unat v - 1"
  by (simp add: unat_minus_one)

lemma bloom_counts_reset: "bloom_counts (dns_bloom_reset b) {#}"
  by (simp add: bloom_counts_def dns_bloom_reset_slots)

lemma bloom_counts_static: "bloom_counts bloom_static {#}"
  by (simp add: bloom_counts_def bloom_static_def)

lemma bloom_counts_maybe: "bloom_counts b H \<Longrightarrow> bloom_counts (snd (dns_bloom_maybe t h b)) H"
  by (simp add: bloom_counts_def)

lemma bloom_counts_add: "bloom_counts b H \<Longrightarrow> bloom_counts (dns_bloom_add t h b) (add_mset h H)"
  unfolding bloom_counts_def dns_bloom_add_slots cover_add
  by (auto simp: unat_byte_inc)

lemma bloom_counts_del:
  assumes "bloom_counts b H" "h \<in># H"
  shows "bloom_counts (dns_bloom_del h b) (H - {#h#})"
  unfolding bloom_counts_def
proof (intro allI impI)
  fix i :: u32 assume "unat i < BLOOM_SLOTS"
  then have "slots b i = BLOOM_MAX \<or> unat (slots b i) = cover i H"
    using assms(1) by (simp add: bloom_counts_def)
  then show "slots (dns_bloom_del h b) i = BLOOM_MAX \<or>
      unat (slots (dns_bloom_del h b) i) = cover i (H - {#h#})"
    using cover_del [OF assms(2), of i]
    by (auto simp: dns_bloom_del_slots unat_byte_dec split: if_splits)
qed

lemma bloom_counts_member:
  assumes "bloom_counts b H" "h \<in># H"
  shows "fst (dns_bloom_maybe t h b)"
  unfolding dns_bloom_maybe_iff
proof
  fix i assume i: "i \<in> set (bloom_slots h)"
  then have "slots b i = BLOOM_MAX \<or> unat (slots b i) = cover i H"
    using assms(1) bloom_slots_bound by (simp add: bloom_counts_def)
  then show "slots b i \<noteq> 0"
    using cover_del [OF assms(2), of i] i by (auto simp: BLOOM_MAX_def)
qed

section \<open>The filter contract\<close>

text \<open>
  A history of calls by several threads, the answers it gives, and the multiset of keys it
  leaves live: \<open>None\<close> when some key is deleted that was not live.
\<close>

datatype filter_op = Maybe nat u64 | Add nat u64 | Del u64

fun filter_run ::
  "(nat \<Rightarrow> u64 \<Rightarrow> 's \<Rightarrow> bool \<times> 's) \<Rightarrow> (nat \<Rightarrow> u64 \<Rightarrow> 's \<Rightarrow> 's) \<Rightarrow> (u64 \<Rightarrow> 's \<Rightarrow> 's) \<Rightarrow>
   filter_op list \<Rightarrow> 's \<Rightarrow> bool list \<times> 's" where
  "filter_run mb ad dl [] s = ([], s)"
| "filter_run mb ad dl (Maybe t h # ops) s =
     (let (r, s1) = mb t h s; (rs, s2) = filter_run mb ad dl ops s1 in (r # rs, s2))"
| "filter_run mb ad dl (Add t h # ops) s = filter_run mb ad dl ops (ad t h s)"
| "filter_run mb ad dl (Del h # ops) s = filter_run mb ad dl ops (dl h s)"

fun live_keys :: "filter_op list \<Rightarrow> u64 multiset \<Rightarrow> u64 multiset option" where
  "live_keys [] H = Some H"
| "live_keys (Maybe t h # ops) H = live_keys ops H"
| "live_keys (Add t h # ops) H = live_keys ops (add_mset h H)"
| "live_keys (Del h # ops) H = (if h \<in># H then live_keys ops (H - {#h#}) else None)"

locale membership_filter =
  fixes mb :: "nat \<Rightarrow> u64 \<Rightarrow> 's \<Rightarrow> bool \<times> 's"
    and ad :: "nat \<Rightarrow> u64 \<Rightarrow> 's \<Rightarrow> 's"
    and dl :: "u64 \<Rightarrow> 's \<Rightarrow> 's"
    and rs :: "'s \<Rightarrow> 's"
    and tracks :: "'s \<Rightarrow> u64 multiset \<Rightarrow> bool"
  assumes reset_tracks: "tracks (rs s) {#}"
    and maybe_tracks: "tracks s H \<Longrightarrow> tracks (snd (mb t h s)) H"
    and add_tracks: "tracks s H \<Longrightarrow> tracks (ad t h s) (add_mset h H)"
    and del_tracks: "tracks s H \<Longrightarrow> h \<in># H \<Longrightarrow> tracks (dl h s) (H - {#h#})"
    and member_maybe: "tracks s H \<Longrightarrow> h \<in># H \<Longrightarrow> fst (mb t h s)"
begin

lemma run_tracks:
  "tracks s H \<Longrightarrow> live_keys ops H = Some H' \<Longrightarrow> tracks (snd (filter_run mb ad dl ops s)) H'"
proof (induction ops H arbitrary: s rule: live_keys.induct)
  case (2 t h ops H)
  then show ?case using maybe_tracks [of s H t h] by (auto simp: split_def Let_def)
qed (auto simp: add_tracks del_tracks split: if_splits)

lemma no_false_negative:
  "live_keys ops {#} = Some H \<Longrightarrow> h \<in># H \<Longrightarrow> fst (mb t h (snd (filter_run mb ad dl ops (rs s))))"
  by (rule member_maybe [OF run_tracks [OF reset_tracks]])

end

interpretation counting: membership_filter dns_bloom_maybe dns_bloom_add dns_bloom_del dns_bloom_reset
    bloom_counts
  by unfold_locales
    (simp_all add: bloom_counts_reset bloom_counts_maybe bloom_counts_add bloom_counts_del
      bloom_counts_member)

interpretation disabled: membership_filter disabled_maybe disabled_add disabled_del disabled_reset
    "\<lambda>_ _. True"
  by unfold_locales (simp_all add: disabled_maybe_def)

section \<open>Statistics\<close>

text \<open>Every claimed shard is one of the array.\<close>

definition shards_ok :: "bloom \<Rightarrow> bool" where
  "shards_ok b \<longleftrightarrow> (\<forall>t i. my_shard b t = Some i \<longrightarrow> i < STAT_SHARDS)"

definition tally :: "(stat_shard \<Rightarrow> u64) \<Rightarrow> bloom \<Rightarrow> u64" where
  "tally f b = (\<Sum>i<STAT_SHARDS. f (shards b i))"

lemma dns_bloom_stats_tally:
  "dns_bloom_stats b = (tally queries b, tally rejected b, tally saturated b,
     length (filter (\<lambda>i. slots b (of_nat i) \<noteq> 0) [0..<BLOOM_SLOTS]))"
  by (simp add: dns_bloom_stats_def tally_def interv_sum_list_conv_sum_set_nat atLeast0LessThan)

lemma shard_less: "shards_ok b \<Longrightarrow> fst (shard t b) < STAT_SHARDS"
  by (auto simp: shard_def shards_ok_def Let_def STAT_SHARDS_def split: option.split)

lemma shard_ok: "shards_ok b \<Longrightarrow> shards_ok (snd (shard t b))"
  by (auto simp: shard_def shards_ok_def Let_def STAT_SHARDS_def split: option.split)

lemma shard_shards [simp]: "shards (snd (shard t b)) = shards b"
  by (simp add: shard_def Let_def split: option.split)

lemma tally_upd:
  assumes "i < STAT_SHARDS"
  shows "(\<Sum>j<STAT_SHARDS. f (if j = i then s else g j)) = (\<Sum>j<STAT_SHARDS. f (g j)) + f s - (f (g i) :: u64)"
proof -
  have split: "(\<Sum>j<STAT_SHARDS. k j) = k i + sum k ({..<STAT_SHARDS} - {i})" for k :: "nat \<Rightarrow> u64"
    using assms by (simp add: sum.remove)
  show ?thesis by (subst (1 2) split) simp
qed

lemma tally_bump:
  assumes "i < STAT_SHARDS"
  shows "tally queries (bump_queries i b) = tally queries b + 1"
    and "tally rejected (bump_queries i b) = tally rejected b"
    and "tally queries (bump_rejected i b) = tally queries b"
    and "tally rejected (bump_rejected i b) = tally rejected b + 1"
    and "tally queries (bump_saturated i b) = tally queries b"
    and "tally rejected (bump_saturated i b) = tally rejected b"
  using assms
  by (simp_all add: tally_def bump_queries_def bump_rejected_def bump_saturated_def fun_upd_def tally_upd)

lemma bump_my_shard [simp]:
  "my_shard (bump_queries i b) = my_shard b" "my_shard (bump_rejected i b) = my_shard b"
  "my_shard (bump_saturated i b) = my_shard b"
  by (simp_all add: bump_queries_def bump_rejected_def bump_saturated_def)

lemma shards_ok_cong: "my_shard a = my_shard b \<Longrightarrow> shards_ok a \<longleftrightarrow> shards_ok b"
  by (simp add: shards_ok_def)

lemma tally_cong: "shards a = shards b \<Longrightarrow> tally f a = tally f b"
  by (simp add: tally_def)

lemma maybe_stats:
  assumes "shards_ok b"
  shows "shards_ok (snd (dns_bloom_maybe t h b))"
    and "tally queries (snd (dns_bloom_maybe t h b)) = tally queries b + 1"
    and "tally rejected (snd (dns_bloom_maybe t h b)) =
      tally rejected b + (if fst (dns_bloom_maybe t h b) then 0 else 1)"
proof -
  obtain i b1 where s: "shard t b = (i, b1)" by force
  have i: "i < STAT_SHARDS" and ok: "shards_ok b1" and eq: "shards b1 = shards b"
    using shard_less [OF assms, of t] shard_ok [OF assms, of t] shard_shards [of t b]
    by (simp_all add: s)
  have ok': "shards_ok (bump_queries i b1)" "shards_ok (bump_rejected i (bump_queries i b1))"
    using ok by (simp_all add: shards_ok_def)
  show "shards_ok (snd (dns_bloom_maybe t h b))"
    using ok' by (simp add: dns_bloom_maybe_def s maybe_loop_eq)
  show "tally queries (snd (dns_bloom_maybe t h b)) = tally queries b + 1"
    using i by (simp add: dns_bloom_maybe_def s maybe_loop_eq tally_bump tally_cong [OF eq])
  show "tally rejected (snd (dns_bloom_maybe t h b)) =
      tally rejected b + (if fst (dns_bloom_maybe t h b) then 0 else 1)"
    using i by (simp add: dns_bloom_maybe_def s maybe_loop_eq tally_bump tally_cong [OF eq])
qed

lemma add_slot_stats:
  assumes "shards_ok b"
  shows "shards_ok (add_slot t i b) \<and> tally queries (add_slot t i b) = tally queries b \<and>
    tally rejected (add_slot t i b) = tally rejected b"
proof -
  obtain j b1 where s: "shard t b = (j, b1)" by force
  have j: "j < STAT_SHARDS" and ok: "shards_ok b1" and eq: "shards b1 = shards b"
    using shard_less [OF assms, of t] shard_ok [OF assms, of t] shard_shards [of t b]
    by (simp_all add: s)
  have "shards_ok (bump_saturated j b1)" using ok by (simp add: shards_ok_def)
  then show ?thesis
    using assms j by (simp add: add_slot_def s Let_def tally_bump tally_cong [OF eq])
      (simp add: shards_ok_def tally_def)
qed

lemma add_stats:
  assumes "shards_ok b"
  shows "shards_ok (dns_bloom_add t h b) \<and> tally queries (dns_bloom_add t h b) = tally queries b \<and>
    tally rejected (dns_bloom_add t h b) = tally rejected b"
proof -
  have "shards_ok (fold (add_slot t) idx b) \<and> tally queries (fold (add_slot t) idx b) = tally queries b \<and>
      tally rejected (fold (add_slot t) idx b) = tally rejected b" for idx
    using assms by (induction idx arbitrary: b) (auto simp: add_slot_stats)
  then show ?thesis by (simp add: dns_bloom_add_def)
qed

lemma del_stats:
  "shards (dns_bloom_del h b) = shards b \<and> my_shard (dns_bloom_del h b) = my_shard b"
proof -
  have "shards (fold del_slot idx b) = shards b \<and> my_shard (fold del_slot idx b) = my_shard b" for idx
    by (induction idx arbitrary: b) (auto simp: del_slot_def Let_def)
  then show ?thesis by (simp add: dns_bloom_del_def)
qed

lemma run_stats:
  assumes "shards_ok b" "filter_run dns_bloom_maybe dns_bloom_add dns_bloom_del ops b = (rs, b')"
  shows "tally queries b' = tally queries b + of_nat (length rs) \<and>
    tally rejected b' = tally rejected b + of_nat (length (filter Not rs))"
  using assms
proof (induction ops arbitrary: b rs)
  case (Cons p ops)
  show ?case
  proof (cases p)
    case (Maybe t h)
    obtain q b1 where q: "dns_bloom_maybe t h b = (q, b1)" by force
    obtain qs where "filter_run dns_bloom_maybe dns_bloom_add dns_bloom_del ops b1 = (qs, b')" "rs = q # qs"
      using Cons.prems(2) by (auto simp: Maybe q split: prod.splits)
    then show ?thesis using Cons.IH [of b1 qs] maybe_stats [OF Cons.prems(1), of t h] by (auto simp: q)
  next
    case (Add t h)
    then show ?thesis using Cons.IH [of "dns_bloom_add t h b" rs] Cons.prems add_stats [of b t h] by auto
  next
    case (Del h)
    then show ?thesis
      using Cons.IH [of "dns_bloom_del h b" rs] Cons.prems del_stats [of h b]
      by (auto simp: shards_ok_def tally_def)
  qed
qed auto

lemma tally_reset: "tally queries (dns_bloom_reset b) = 0" "tally rejected (dns_bloom_reset b) = 0"
  by (simp_all add: tally_def dns_bloom_reset_def)

lemma shards_ok_reset: "shards_ok (dns_bloom_reset b) \<longleftrightarrow> shards_ok b"
  by (simp add: shards_ok_def dns_bloom_reset_def)

lemma bloom_counts_maybe_iff:
  assumes "bloom_counts b H"
  shows "fst (dns_bloom_maybe t h b) \<longleftrightarrow>
    (\<forall>i\<in>set (bloom_slots h). slots b i = BLOOM_MAX \<or> (\<exists>k\<in>#H. i \<in> set (bloom_slots k)))"
proof -
  have "slots b i \<noteq> 0 \<longleftrightarrow> slots b i = BLOOM_MAX \<or> (\<exists>k\<in>#H. i \<in> set (bloom_slots k))"
    if "i \<in> set (bloom_slots h)" for i
  proof -
    have "slots b i = BLOOM_MAX \<or> unat (slots b i) = cover i H"
      using assms bloom_slots_bound [OF that] by (simp add: bloom_counts_def)
    moreover have "0 < size M \<longleftrightarrow> (\<exists>k. k \<in># M)" for M :: "u64 multiset" by (cases M) auto
    then have "0 < cover i H \<longleftrightarrow> (\<exists>k\<in>#H. i \<in> set (bloom_slots k))" by (auto simp: cover_def)
    ultimately show ?thesis by (auto simp: BLOOM_MAX_def unat_eq_0)
  qed
  then show ?thesis by (auto simp: dns_bloom_maybe_iff)
qed

section \<open>Properties\<close>

text \<open>Names that compare equal hash alike, whatever their case, so the bucket index and the
  filter slots of a key agree with \<open>dns_name_equal\<close>; and the four slots of a hash are distinct
  indices inside the array.\<close>

lemma hash_agrees_with_equality:
  "(dns_name_equal a b \<longrightarrow> dns_key_hash a t = dns_key_hash b t) \<and>
   length (bloom_slots h) = BLOOM_HASHES \<and> distinct (bloom_slots h) \<and>
   list_all (\<lambda>i. unat i < BLOOM_SLOTS) (bloom_slots h)"
  using dns_key_hash_equal [of a b t] bloom_slots_bound [of _ h]
  by (auto simp: BLOOM_HASHES_def bloom_slots_distinct list_all_iff)



text \<open>The sharded statistics are exact: after any history since the reset, summing the
  shards gives the number of lookups and the number of lookups rejected, modulo \<open>2 ^ 64\<close>,
  however the threads share the shards.\<close>

lemma bloom_stats_exact:
  assumes "shards_ok b"
    and "filter_run dns_bloom_maybe dns_bloom_add dns_bloom_del ops (dns_bloom_reset b) = (rs, b')"
    and "dns_bloom_stats b' = (q, r, sat, used)"
  shows "q = of_nat (length rs) \<and> r = of_nat (length (filter Not rs))"
  using run_stats [OF _ assms(2)] assms(1,3)
  by (simp add: shards_ok_reset dns_bloom_stats_tally tally_reset)



end
