(* ===== verification/DnsCache.thy ===== *)
theory DnsCache
  imports DnsMsg DnsBloom
begin

text \<open>
  The LRU cache of answers (\<^verbatim>\<open>dns_cache.c\<close>, \<^verbatim>\<open>dns_cache.h\<close>), at the level of its pointers: nodes
  live in a heap, a map from addresses to nodes, and are linked into bucket chains and into the
  doubly linked LRU list. \<open>None\<close> is the null pointer; reading or writing through a null or freed
  pointer, freeing twice, and indexing outside an array are \<open>Fault\<close>.

  \<^verbatim>\<open>calloc\<close> is an argument: it maps the heap to a fresh address, or to \<open>None\<close> when memory is
  short. \<^verbatim>\<open>time(NULL)\<close> is the argument \<open>now\<close> and the calling thread the argument \<open>t\<close>. Walks of
  a chain take a fuel of \<open>CACHE_CAPACITY + 1\<close> steps, and running out is \<open>Fault\<close>, so a theorem
  that an operation is not \<open>Fault\<close> also says that its loops end.
\<close>

section \<open>Definitions\<close>

definition CACHE_CAPACITY :: nat where "CACHE_CAPACITY = 4096"
definition CACHE_BUCKETS :: nat where "CACHE_BUCKETS = 2048"
definition CACHE_MIN_TTL :: u32 where "CACHE_MIN_TTL = 5"
definition CACHE_MAX_TTL :: u32 where "CACHE_MAX_TTL = 86400"
definition CACHE_NEG_TTL :: u32 where "CACHE_NEG_TTL = 60"

record cache_node =
  cn_name :: cstring
  cn_qtype :: u16
  cn_ans :: "dns_answer list"
  cn_nans :: nat
  cn_rcode :: u16
  cn_expires :: int
  cn_hnext :: "nat option"
  cn_prev :: "nat option"
  cn_next :: "nat option"

type_synonym node_heap = "nat \<rightharpoonup> cache_node"

record cache =
  c_heap :: node_heap
  c_buckets :: "nat \<Rightarrow> nat option"
  c_lru_head :: "nat option"
  c_lru_tail :: "nat option"
  c_entry_count :: nat
  c_hits :: u64
  c_misses :: u64
  c_evictions :: u64
  c_expirations :: u64
  c_bloom :: bloom

definition bucket_of :: "u64 \<Rightarrow> nat" where
  "bucket_of hash = unat ((ucast hash :: u32) AND (of_nat CACHE_BUCKETS - 1))"

definition clamp_ttl :: "u32 \<Rightarrow> u32" where
  "clamp_ttl ttl = (if ttl < CACHE_MIN_TTL then CACHE_MIN_TTL
     else if ttl > CACHE_MAX_TTL then CACHE_MAX_TTL else ttl)"

subsection \<open>Memory\<close>

definition deref :: "nat \<Rightarrow> cache \<Rightarrow> cache_node res" where
  "deref p s = (case c_heap s p of None \<Rightarrow> Fault | Some n \<Rightarrow> Ok n)"

definition upd_node :: "nat \<Rightarrow> (cache_node \<Rightarrow> cache_node) \<Rightarrow> cache \<Rightarrow> cache res" where
  "upd_node p f s = (case c_heap s p of None \<Rightarrow> Fault
     | Some n \<Rightarrow> Ok (s\<lparr>c_heap := (c_heap s)(p \<mapsto> f n)\<rparr>))"

definition free_node :: "nat \<Rightarrow> cache \<Rightarrow> cache res" where
  "free_node p s = (case c_heap s p of None \<Rightarrow> Fault
     | Some n \<Rightarrow> Ok (s\<lparr>c_heap := (c_heap s)(p := None)\<rparr>))"

text \<open>What \<^verbatim>\<open>struct cache_node **pp\<close> can point to: an array element or a \<^verbatim>\<open>hnext\<close> field.\<close>

datatype slot_ptr = BucketSlot nat | NextSlot nat

fun load_slot :: "slot_ptr \<Rightarrow> cache \<Rightarrow> nat option res" where
  "load_slot (BucketSlot b) s = (if b < CACHE_BUCKETS then Ok (c_buckets s b) else Fault)"
| "load_slot (NextSlot p) s = res_bind (deref p s) (\<lambda>n. Ok (cn_hnext n))"

fun store_slot :: "slot_ptr \<Rightarrow> nat option \<Rightarrow> cache \<Rightarrow> cache res" where
  "store_slot (BucketSlot b) v s =
     (if b < CACHE_BUCKETS then Ok (s\<lparr>c_buckets := (c_buckets s)(b := v)\<rparr>) else Fault)"
| "store_slot (NextSlot p) v s = upd_node p (\<lambda>m. m\<lparr>cn_hnext := v\<rparr>) s"

subsection \<open>List helpers\<close>

definition lru_unlink :: "nat \<Rightarrow> cache \<Rightarrow> cache res" where
  "lru_unlink p s =
     res_bind (deref p s) (\<lambda>n.
     res_bind (case cn_prev n of
         Some q \<Rightarrow> upd_node q (\<lambda>m. m\<lparr>cn_next := cn_next n\<rparr>) s
       | None \<Rightarrow> Ok (s\<lparr>c_lru_head := cn_next n\<rparr>)) (\<lambda>s1.
     res_bind (deref p s1) (\<lambda>n1.
     res_bind (case cn_next n1 of
         Some q \<Rightarrow> upd_node q (\<lambda>m. m\<lparr>cn_prev := cn_prev n1\<rparr>) s1
       | None \<Rightarrow> Ok (s1\<lparr>c_lru_tail := cn_prev n1\<rparr>)) (\<lambda>s2.
     upd_node p (\<lambda>m. m\<lparr>cn_prev := None, cn_next := None\<rparr>) s2))))"

definition lru_push_front :: "nat \<Rightarrow> cache \<Rightarrow> cache res" where
  "lru_push_front p s =
     res_bind (upd_node p (\<lambda>m. m\<lparr>cn_prev := None, cn_next := c_lru_head s\<rparr>) s) (\<lambda>s1.
     res_bind (case c_lru_head s1 of
         Some q \<Rightarrow> upd_node q (\<lambda>m. m\<lparr>cn_prev := Some p\<rparr>) s1
       | None \<Rightarrow> Ok s1) (\<lambda>s2.
     let s3 = s2\<lparr>c_lru_head := Some p\<rparr>
     in Ok (if c_lru_tail s3 = None then s3\<lparr>c_lru_tail := Some p\<rparr> else s3)))"

definition unlink_at :: "slot_ptr \<Rightarrow> nat \<Rightarrow> cache \<Rightarrow> cache res" where
  "unlink_at pp p s =
     res_bind (deref p s) (\<lambda>n.
     res_bind (store_slot pp (cn_hnext n) s) (\<lambda>s1.
     upd_node p (\<lambda>m. m\<lparr>cn_hnext := None\<rparr>) s1))"

fun bucket_unlink_loop :: "nat \<Rightarrow> slot_ptr \<Rightarrow> nat \<Rightarrow> cache \<Rightarrow> cache res" where
  "bucket_unlink_loop 0 pp p s = Fault"
| "bucket_unlink_loop (Suc fuel) pp p s =
     res_bind (load_slot pp s) (\<lambda>v. case v of
         None \<Rightarrow> Ok s
       | Some q \<Rightarrow> if q = p then unlink_at pp p s
                  else bucket_unlink_loop fuel (NextSlot q) p s)"

definition bucket_unlink :: "nat \<Rightarrow> cache \<Rightarrow> cache res" where
  "bucket_unlink p s =
     res_bind (deref p s) (\<lambda>n.
     bucket_unlink_loop (CACHE_CAPACITY + 1)
       (BucketSlot (bucket_of (dns_key_hash (cn_name n) (cn_qtype n)))) p s)"

definition node_destroy :: "nat \<Rightarrow> cache \<Rightarrow> cache res" where
  "node_destroy p s =
     res_bind (deref p s) (\<lambda>n.
     let s1 = s\<lparr>c_bloom := dns_bloom_del (dns_key_hash (cn_name n) (cn_qtype n)) (c_bloom s)\<rparr> in
     res_bind (bucket_unlink p s1) (\<lambda>s2.
     res_bind (lru_unlink p s2) (\<lambda>s3.
     res_bind (free_node p s3) (\<lambda>s4.
     Ok (s4\<lparr>c_entry_count := size_sub (c_entry_count s4) 1\<rparr>)))))"

fun find_loop :: "nat \<Rightarrow> nat option \<Rightarrow> cstring \<Rightarrow> u16 \<Rightarrow> cache \<Rightarrow> nat option res" where
  "find_loop fuel None name qtype s = Ok None"
| "find_loop 0 (Some p) name qtype s = Fault"
| "find_loop (Suc fuel) (Some p) name qtype s =
     res_bind (deref p s) (\<lambda>n.
       if cn_qtype n = qtype \<and> dns_name_equal (cn_name n) name then Ok (Some p)
       else find_loop fuel (cn_hnext n) name qtype s)"

definition bucket_find :: "u64 \<Rightarrow> cstring \<Rightarrow> u16 \<Rightarrow> cache \<Rightarrow> nat option res" where
  "bucket_find hash name qtype s =
     res_bind (load_slot (BucketSlot (bucket_of hash)) s) (\<lambda>v.
     find_loop (CACHE_CAPACITY + 1) v name qtype s)"

fun scan_tail :: "nat \<Rightarrow> nat option \<Rightarrow> int \<Rightarrow> cache \<Rightarrow> nat option res" where
  "scan_tail 0 n now s = Ok None"
| "scan_tail (Suc k) None now s = Ok None"
| "scan_tail (Suc k) (Some p) now s =
     res_bind (deref p s) (\<lambda>n.
       if cn_expires n \<le> now then Ok (Some p) else scan_tail k (cn_prev n) now s)"

definition evict_one :: "int \<Rightarrow> cache \<Rightarrow> cache res" where
  "evict_one now s =
     res_bind (scan_tail 8 (c_lru_tail s) now s) (\<lambda>dead.
     case (case dead of Some p \<Rightarrow> Some p | None \<Rightarrow> c_lru_tail s) of
       Some victim \<Rightarrow> res_bind (node_destroy victim s) (\<lambda>s1.
                       Ok (s1\<lparr>c_evictions := c_evictions s1 + 1\<rparr>))
     | None \<Rightarrow> Ok s)"

subsection \<open>Public operations\<close>

text \<open>The statics are zeroed; nodes that were still allocated are not freed.\<close>

definition dns_cache_init :: "cache \<Rightarrow> cache" where
  "dns_cache_init s = s\<lparr>c_buckets := \<lambda>_. None, c_lru_head := None, c_lru_tail := None,
     c_entry_count := 0, c_hits := 0, c_misses := 0, c_evictions := 0, c_expirations := 0,
     c_bloom := dns_bloom_reset (c_bloom s)\<rparr>"

fun fini_loop :: "nat \<Rightarrow> nat option \<Rightarrow> cache \<Rightarrow> cache res" where
  "fini_loop fuel None s = Ok s"
| "fini_loop 0 (Some p) s = Fault"
| "fini_loop (Suc fuel) (Some p) s =
     res_bind (deref p s) (\<lambda>n. res_bind (free_node p s) (fini_loop fuel (cn_next n)))"

definition dns_cache_fini :: "cache \<Rightarrow> cache res" where
  "dns_cache_fini s =
     res_bind (fini_loop (CACHE_CAPACITY + 1) (c_lru_head s) s) (\<lambda>s1.
     Ok (s1\<lparr>c_buckets := \<lambda>_. None, c_lru_head := None, c_lru_tail := None, c_entry_count := 0,
            c_bloom := dns_bloom_reset (c_bloom s1)\<rparr>))"

text \<open>The part of a lookup under the mutex. A hit yields the answers and the rcode.\<close>

definition get_locked ::
  "int \<Rightarrow> u64 \<Rightarrow> cstring \<Rightarrow> u16 \<Rightarrow> nat \<Rightarrow> cache \<Rightarrow> ((dns_answer list \<times> u16) option \<times> cache) res" where
  "get_locked now h name qtype cap s =
     res_bind (bucket_find h name qtype s) (\<lambda>f. case f of
       None \<Rightarrow> Ok (None, s\<lparr>c_misses := c_misses s + 1\<rparr>)
     | Some p \<Rightarrow> res_bind (deref p s) (\<lambda>n.
         if cn_expires n \<le> now then
           res_bind (node_destroy p s) (\<lambda>s1.
             Ok (None, s1\<lparr>c_expirations := c_expirations s1 + 1, c_misses := c_misses s1 + 1\<rparr>))
         else
           let k = (if cn_nans n < cap then cn_nans n else cap);
               remaining = (word_of_int (cn_expires n - now) :: u32)
           in if length (cn_ans n) < k then Fault
              else res_bind (lru_unlink p s) (\<lambda>s1. res_bind (lru_push_front p s1) (\<lambda>s2.
                Ok (Some (map (\<lambda>a. a\<lparr>an_ttl := remaining\<rparr>) (take k (cn_ans n)), cn_rcode n),
                    s2\<lparr>c_hits := c_hits s2 + 1\<rparr>)))))"

definition dns_cache_get ::
  "nat \<Rightarrow> int \<Rightarrow> cstring \<Rightarrow> u16 \<Rightarrow> nat \<Rightarrow> cache \<Rightarrow> ((dns_answer list \<times> u16) option \<times> cache) res" where
  "dns_cache_get t now name qtype cap s =
     (let h = dns_key_hash name qtype;
          (m, b) = dns_bloom_maybe t h (c_bloom s);
          s1 = s\<lparr>c_bloom := b\<rparr>
      in if \<not> m then Ok (None, s1\<lparr>c_misses := c_misses s1 + 1\<rparr>)
         else get_locked now h name qtype cap s1)"

text \<open>The lifetime of a set: \<open>ans = None\<close> is a null pointer.\<close>

definition put_ttl :: "nat \<Rightarrow> dns_answer list option \<Rightarrow> u32 res" where
  "put_ttl n ans =
     (if n = 0 then Ok CACHE_NEG_TTL
      else case ans of
        None \<Rightarrow> Fault
      | Some as \<Rightarrow> if length as < n then Fault
          else Ok (clamp_ttl (foldl (\<lambda>t a. if an_ttl a < t then an_ttl a else t) CACHE_MAX_TTL
                 (take n as))))"

fun evict_loop :: "nat \<Rightarrow> int \<Rightarrow> cache \<Rightarrow> cache res" where
  "evict_loop 0 now s = (if CACHE_CAPACITY \<le> c_entry_count s then Fault else Ok s)"
| "evict_loop (Suc fuel) now s =
     (if CACHE_CAPACITY \<le> c_entry_count s then res_bind (evict_one now s) (evict_loop fuel now)
      else Ok s)"

text \<open>The bytes \<^verbatim>\<open>calloc\<close> zeroes.\<close>

definition zero_answer :: dns_answer where
  "zero_answer = \<lparr>an_type = 0, an_ttl = 0, an_rdata = RD_A (replicate 4 0), an_owner = []\<rparr>"

definition zero_node :: cache_node where
  "zero_node = \<lparr>cn_name = [], cn_qtype = 0, cn_ans = replicate DNS_MAX_ANSWERS zero_answer,
     cn_nans = 0, cn_rcode = 0, cn_expires = 0, cn_hnext = None, cn_prev = None, cn_next = None\<rparr>"

text \<open>A new key: make room, allocate, and link the node into its bucket and the filter.\<close>

definition insert_new ::
  "(node_heap \<Rightarrow> nat option) \<Rightarrow> nat \<Rightarrow> int \<Rightarrow> u64 \<Rightarrow> cstring \<Rightarrow> u16 \<Rightarrow> cache \<Rightarrow>
   (nat option \<times> cache) res" where
  "insert_new calloc t now h name qtype s =
     res_bind (evict_loop (CACHE_CAPACITY + 1) now s) (\<lambda>s1.
     case calloc (c_heap s1) of
       None \<Rightarrow> Ok (None, s1)
     | Some p \<Rightarrow>
         let b = bucket_of h;
             s2 = s1\<lparr>c_heap := (c_heap s1)(p \<mapsto> zero_node\<lparr>cn_name := take DNS_MAX_NAME name, cn_qtype := qtype\<rparr>)\<rparr>
         in res_bind (load_slot (BucketSlot b) s2) (\<lambda>v.
            res_bind (upd_node p (\<lambda>m. m\<lparr>cn_hnext := v\<rparr>) s2) (\<lambda>s3.
            res_bind (store_slot (BucketSlot b) (Some p) s3) (\<lambda>s4.
            Ok (Some p, s4\<lparr>c_entry_count := c_entry_count s4 + 1,
                           c_bloom := dns_bloom_add t h (c_bloom s4)\<rparr>)))))"

definition fill_node :: "nat \<Rightarrow> dns_answer list option \<Rightarrow> u16 \<Rightarrow> cache_node \<Rightarrow> cache_node" where
  "fill_node n ans rcode m = m\<lparr>
     cn_ans := (case ans of Some as \<Rightarrow> if n = 0 then cn_ans m else take n as @ drop n (cn_ans m)
                          | None \<Rightarrow> cn_ans m),
     cn_nans := n, cn_rcode := rcode\<rparr>"

definition dns_cache_put ::
  "(node_heap \<Rightarrow> nat option) \<Rightarrow> nat \<Rightarrow> int \<Rightarrow> cstring \<Rightarrow> u16 \<Rightarrow> dns_answer list option \<Rightarrow> nat \<Rightarrow>
   u16 \<Rightarrow> cache \<Rightarrow> cache res" where
  "dns_cache_put calloc t now name qtype ans n0 rcode s =
     (let n = (if n0 > DNS_MAX_ANSWERS then DNS_MAX_ANSWERS else n0) in
      res_bind (put_ttl n ans) (\<lambda>ttl.
      let h = dns_key_hash name qtype in
      res_bind (bucket_find h name qtype s) (\<lambda>f.
      res_bind (case f of
          None \<Rightarrow> insert_new calloc t now h name qtype s
        | Some p \<Rightarrow> res_bind (lru_unlink p s) (\<lambda>s1. Ok (Some p, s1))) (\<lambda>(r, s1).
      case r of
        None \<Rightarrow> Ok s1
      | Some p \<Rightarrow>
          res_bind (upd_node p (\<lambda>m. (fill_node n ans rcode m)\<lparr>cn_expires := now + int (unat ttl)\<rparr>) s1)
            (lru_push_front p)))))"

definition dns_cache_stats :: "cache \<Rightarrow> u64 \<times> u64 \<times> u64 \<times> u64 \<times> nat" where
  "dns_cache_stats s = (c_hits s, c_misses s, c_evictions s, c_expirations s, c_entry_count s)"

text \<open>The zero-initialised statics at program start.\<close>

definition cache_static :: cache where
  "cache_static = \<lparr>c_heap = Map.empty, c_buckets = \<lambda>_. None, c_lru_head = None, c_lru_tail = None,
     c_entry_count = 0, c_hits = 0, c_misses = 0, c_evictions = 0, c_expirations = 0,
     c_bloom = bloom_static\<rparr>"

end
