(* ===== verification/CacheHeap.thy ===== *)
theory CacheHeap
  imports DnsCache
begin

text \<open>
  Pointer structures of the cache: the heap seen as LRU links, chain links and node contents,
  doubly linked segments and bucket chains over those views, and what \<open>lru_unlink\<close>,
  \<open>lru_push_front\<close> and \<open>bucket_unlink\<close> do to them.
\<close>

section \<open>Views of the heap\<close>

text \<open>
  The LRU links, the chain links and the contents of the nodes are separate views of the heap:
  each operation changes some of them and leaves the others alone.
\<close>

definition links :: "node_heap \<Rightarrow> nat \<Rightarrow> (nat option \<times> nat option) option" where
  "links h p = map_option (\<lambda>n. (cn_prev n, cn_next n)) (h p)"

definition hnexts :: "node_heap \<Rightarrow> nat \<Rightarrow> nat option option" where
  "hnexts h p = map_option cn_hnext (h p)"

definition contents :: "node_heap \<Rightarrow> nat \<Rightarrow> cache_node option" where
  "contents h p = map_option (\<lambda>n. n\<lparr>cn_hnext := None, cn_prev := None, cn_next := None\<rparr>) (h p)"

lemma contents_dom: "contents h = contents h' \<Longrightarrow> dom h = dom h'"
  by (auto simp: contents_def fun_eq_iff dom_def) (metis option.map_disc_iff not_Some_eq)+

lemma contents_SomeD:
  assumes "contents h = contents h'" "h p = Some n"
  obtains n' where "h' p = Some n'" "cn_name n' = cn_name n" "cn_qtype n' = cn_qtype n"
    "cn_ans n' = cn_ans n" "cn_nans n' = cn_nans n" "cn_rcode n' = cn_rcode n" "cn_expires n' = cn_expires n"
proof -
  have eq: "contents h p = contents h' p" using assms(1) by simp
  then obtain n' where "h' p = Some n'" using assms(2) by (cases "h' p") (auto simp: contents_def)
  moreover have "n'\<lparr>cn_hnext := None, cn_prev := None, cn_next := None\<rparr> =
      n\<lparr>cn_hnext := None, cn_prev := None, cn_next := None\<rparr>"
    using eq assms(2) calculation by (simp add: contents_def)
  ultimately show ?thesis using that by (cases n; cases n') simp
qed

subsection \<open>Doubly linked segments\<close>

fun first :: "nat list \<Rightarrow> nat option \<Rightarrow> nat option" where
  "first [] q = q"
| "first (x # xs) q = Some x"

fun final :: "nat option \<Rightarrow> nat list \<Rightarrow> nat option" where
  "final p [] = p"
| "final p (x # xs) = final (Some x) xs"

fun dseg :: "(nat \<Rightarrow> (nat option \<times> nat option) option) \<Rightarrow> nat option \<Rightarrow> nat list \<Rightarrow> nat option \<Rightarrow> bool" where
  "dseg l p [] q = True"
| "dseg l p (x # xs) q = (l x = Some (p, first xs q) \<and> dseg l (Some x) xs q)"

lemma first_append [simp]: "first (xs @ ys) q = first xs (first ys q)"
  by (cases xs) auto

lemma final_append [simp]: "final p (xs @ ys) = final (final p xs) ys"
  by (induction xs arbitrary: p) auto

lemma final_snoc_cases: "final p xs = (if xs = [] then p else Some (last xs))"
  by (induction xs arbitrary: p) auto

lemma dseg_append: "dseg l p (xs @ ys) q \<longleftrightarrow> dseg l p xs (first ys q) \<and> dseg l (final p xs) ys q"
  by (induction xs arbitrary: p) auto

lemma dseg_frame: "(\<And>x. x \<in> set xs \<Longrightarrow> l' x = l x) \<Longrightarrow> dseg l' p xs q = dseg l p xs q"
  by (induction xs arbitrary: p) auto

lemma dseg_mem: "dseg l p xs q \<Longrightarrow> x \<in> set xs \<Longrightarrow> l x \<noteq> None"
  by (induction xs arbitrary: p) auto

subsection \<open>Writes through the views\<close>

lemma deref_links: "links (c_heap s) p = Some (a, b) \<Longrightarrow>
    \<exists>n. c_heap s p = Some n \<and> deref p s = Ok n \<and> cn_prev n = a \<and> cn_next n = b"
  by (auto simp: links_def deref_def)

lemma contents_upd [simp]:
  "h p = Some n \<Longrightarrow> contents (h(p \<mapsto> n\<lparr>cn_prev := a\<rparr>)) = contents h"
  "h p = Some n \<Longrightarrow> contents (h(p \<mapsto> n\<lparr>cn_next := b\<rparr>)) = contents h"
  "h p = Some n \<Longrightarrow> contents (h(p \<mapsto> n\<lparr>cn_prev := a, cn_next := b\<rparr>)) = contents h"
  "h p = Some n \<Longrightarrow> contents (h(p \<mapsto> n\<lparr>cn_hnext := c\<rparr>)) = contents h"
  by (auto simp: contents_def)

lemma hnexts_upd [simp]:
  "h p = Some n \<Longrightarrow> hnexts (h(p \<mapsto> n\<lparr>cn_prev := a\<rparr>)) = hnexts h"
  "h p = Some n \<Longrightarrow> hnexts (h(p \<mapsto> n\<lparr>cn_next := b\<rparr>)) = hnexts h"
  "h p = Some n \<Longrightarrow> hnexts (h(p \<mapsto> n\<lparr>cn_prev := a, cn_next := b\<rparr>)) = hnexts h"
  "hnexts (h(p \<mapsto> n\<lparr>cn_hnext := c\<rparr>)) = (hnexts h)(p \<mapsto> c)"
  by (auto simp: hnexts_def)

lemma links_upd [simp]:
  "links (h(p \<mapsto> n\<lparr>cn_prev := a\<rparr>)) = (links h)(p \<mapsto> (a, cn_next n))"
  "links (h(p \<mapsto> n\<lparr>cn_next := b\<rparr>)) = (links h)(p \<mapsto> (cn_prev n, b))"
  "links (h(p \<mapsto> n\<lparr>cn_prev := a, cn_next := b\<rparr>)) = (links h)(p \<mapsto> (a, b))"
  "h p = Some n \<Longrightarrow> links (h(p \<mapsto> n\<lparr>cn_hnext := c\<rparr>)) = links h"
  by (auto simp: links_def)

text \<open>The writes of each list helper, as writes to a view.\<close>

lemma upd_next: "links (c_heap s) p = Some (a, b) \<Longrightarrow>
    \<exists>h. upd_node p (\<lambda>m. m\<lparr>cn_next := v\<rparr>) s = Ok (s\<lparr>c_heap := h\<rparr>) \<and>
      links h = (links (c_heap s))(p \<mapsto> (a, v)) \<and> hnexts h = hnexts (c_heap s) \<and>
      contents h = contents (c_heap s)"
  by (auto simp: upd_node_def dest!: deref_links)

lemma upd_prev: "links (c_heap s) p = Some (a, b) \<Longrightarrow>
    \<exists>h. upd_node p (\<lambda>m. m\<lparr>cn_prev := v\<rparr>) s = Ok (s\<lparr>c_heap := h\<rparr>) \<and>
      links h = (links (c_heap s))(p \<mapsto> (v, b)) \<and> hnexts h = hnexts (c_heap s) \<and>
      contents h = contents (c_heap s)"
  by (auto simp: upd_node_def dest!: deref_links)

lemma upd_links: "links (c_heap s) p = Some (a, b) \<Longrightarrow>
    \<exists>h. upd_node p (\<lambda>m. m\<lparr>cn_prev := v, cn_next := w\<rparr>) s = Ok (s\<lparr>c_heap := h\<rparr>) \<and>
      links h = (links (c_heap s))(p \<mapsto> (v, w)) \<and> hnexts h = hnexts (c_heap s) \<and>
      contents h = contents (c_heap s)"
  by (auto simp: upd_node_def dest!: deref_links)

subsection \<open>The LRU list\<close>

definition lru_ok :: "cache \<Rightarrow> nat list \<Rightarrow> bool" where
  "lru_ok s xs \<longleftrightarrow> dseg (links (c_heap s)) None xs None \<and> distinct xs \<and>
     c_lru_head s = first xs None \<and> c_lru_tail s = final None xs"

text \<open>Redirecting the link into the node from the left, and from the right.\<close>

lemma relink_left:
  assumes "dseg (links (c_heap s)) None us q" "distinct us"
  shows "\<exists>h. (case final None us of
         Some q \<Rightarrow> upd_node q (\<lambda>m. m\<lparr>cn_next := w\<rparr>) s
       | None \<Rightarrow> Ok (s\<lparr>c_lru_head := w\<rparr>)) =
       Ok (s\<lparr>c_heap := h, c_lru_head := if us = [] then w else c_lru_head s\<rparr>) \<and>
     dseg (links h) None us w \<and> (\<forall>y. y \<notin> set us \<longrightarrow> links h y = links (c_heap s) y) \<and>
     hnexts h = hnexts (c_heap s) \<and> contents h = contents (c_heap s)"
proof (cases us rule: rev_cases)
  case Nil
  then show ?thesis by (intro exI [of _ "c_heap s"]) simp
next
  case (snoc ws a)
  then have "links (c_heap s) a = Some (final None ws, q)" using assms(1) by (simp add: dseg_append)
  from upd_next [OF this, of w] obtain h where
    h: "upd_node a (\<lambda>m. m\<lparr>cn_next := w\<rparr>) s = Ok (s\<lparr>c_heap := h\<rparr>)"
    "links h = (links (c_heap s))(a \<mapsto> (final None ws, w))"
    "hnexts h = hnexts (c_heap s)" "contents h = contents (c_heap s)" by blast
  have "dseg (links h) None ws (Some a) = dseg (links (c_heap s)) None ws (Some a)"
    using snoc assms(2) by (intro dseg_frame) (auto simp: h(2))
  then show ?thesis
    using snoc assms h by (intro exI [of _ h]) (simp add: dseg_append)
qed

lemma relink_right:
  assumes "dseg (links (c_heap s)) p vs None" "distinct vs"
  shows "\<exists>h. (case first vs None of
         Some q \<Rightarrow> upd_node q (\<lambda>m. m\<lparr>cn_prev := w\<rparr>) s
       | None \<Rightarrow> Ok (s\<lparr>c_lru_tail := w\<rparr>)) =
       Ok (s\<lparr>c_heap := h, c_lru_tail := if vs = [] then w else c_lru_tail s\<rparr>) \<and>
     dseg (links h) w vs None \<and> (\<forall>y. y \<notin> set vs \<longrightarrow> links h y = links (c_heap s) y) \<and>
     hnexts h = hnexts (c_heap s) \<and> contents h = contents (c_heap s)"
proof (cases vs)
  case Nil
  then show ?thesis by (intro exI [of _ "c_heap s"]) simp
next
  case (Cons b ws)
  then have "links (c_heap s) b = Some (p, first ws None)" using assms(1) by simp
  from upd_prev [OF this, of w] obtain h where
    h: "upd_node b (\<lambda>m. m\<lparr>cn_prev := w\<rparr>) s = Ok (s\<lparr>c_heap := h\<rparr>)"
    "links h = (links (c_heap s))(b \<mapsto> (w, first ws None))"
    "hnexts h = hnexts (c_heap s)" "contents h = contents (c_heap s)" by blast
  have "dseg (links h) (Some b) ws None = dseg (links (c_heap s)) (Some b) ws None"
    using Cons assms(2) by (intro dseg_frame) (auto simp: h(2))
  then show ?thesis
    using Cons assms h by (intro exI [of _ h]) simp
qed

lemma lru_unlink_ok:
  assumes ok: "lru_ok s (us @ x # vs)"
  shows "\<exists>h. lru_unlink x s = Ok (s\<lparr>c_heap := h, c_lru_head := first (us @ vs) None,
        c_lru_tail := final None (us @ vs)\<rparr>) \<and>
      dseg (links h) None (us @ vs) None \<and> links h x = Some (None, None) \<and>
      hnexts h = hnexts (c_heap s) \<and> contents h = contents (c_heap s)"
proof -
  let ?a = "final None us" and ?b = "first vs None"
  have seg: "dseg (links (c_heap s)) None us (Some x)" "links (c_heap s) x = Some (?a, ?b)"
      "dseg (links (c_heap s)) (Some x) vs None"
    and d: "distinct us" "x \<notin> set us" "distinct vs" "x \<notin> set vs" "set us \<inter> set vs = {}"
    and ht: "c_lru_head s = first us (Some x)" "c_lru_tail s = final (Some x) vs"
    using ok by (auto simp: lru_ok_def dseg_append)
  obtain n where n: "deref x s = Ok n" "cn_prev n = ?a" "cn_next n = ?b"
    using deref_links [OF seg(2)] by auto
  from relink_left [OF seg(1) d(1), of ?b] obtain h1 where
    s1: "(case ?a of Some q \<Rightarrow> upd_node q (\<lambda>m. m\<lparr>cn_next := ?b\<rparr>) s
         | None \<Rightarrow> Ok (s\<lparr>c_lru_head := ?b\<rparr>)) =
       Ok (s\<lparr>c_heap := h1, c_lru_head := if us = [] then ?b else c_lru_head s\<rparr>)"
    and h1: "dseg (links h1) None us ?b" "\<And>y. y \<notin> set us \<Longrightarrow> links h1 y = links (c_heap s) y"
     "hnexts h1 = hnexts (c_heap s)" "contents h1 = contents (c_heap s)" by blast
  define s1 where "s1 = s\<lparr>c_heap := h1, c_lru_head := if us = [] then ?b else c_lru_head s\<rparr>"
  have hs1: "c_heap s1 = h1" by (simp add: s1_def)
  have "links (c_heap s1) x = Some (?a, ?b)" using h1(2) d seg by (simp add: hs1)
  from deref_links [OF this] obtain n1 where
    n1: "deref x s1 = Ok n1" "cn_prev n1 = ?a" "cn_next n1 = ?b" by blast
  have "dseg (links (c_heap s1)) (Some x) vs None"
    using seg(3) d(5) h1(2) by (subst dseg_frame [of vs _ "links (c_heap s)"]) (auto simp: hs1)
  from relink_right [OF this d(3), of ?a] obtain h2 where
    s2: "(case ?b of Some q \<Rightarrow> upd_node q (\<lambda>m. m\<lparr>cn_prev := ?a\<rparr>) s1
         | None \<Rightarrow> Ok (s1\<lparr>c_lru_tail := ?a\<rparr>)) =
       Ok (s1\<lparr>c_heap := h2, c_lru_tail := if vs = [] then ?a else c_lru_tail s1\<rparr>)"
    and h2: "dseg (links h2) ?a vs None" "\<And>y. y \<notin> set vs \<Longrightarrow> links h2 y = links h1 y"
     "hnexts h2 = hnexts h1" "contents h2 = contents h1" unfolding hs1 by blast
  define s2 where "s2 = s1\<lparr>c_heap := h2, c_lru_tail := if vs = [] then ?a else c_lru_tail s1\<rparr>"
  have hs2: "c_heap s2 = h2" by (simp add: s2_def)
  have "links (c_heap s2) x = Some (?a, ?b)" using h1(2) h2(2) d seg by (simp add: hs2)
  from upd_links [OF this, of None None] obtain h where
    s3: "upd_node x (\<lambda>m. m\<lparr>cn_prev := None, cn_next := None\<rparr>) s2 = Ok (s2\<lparr>c_heap := h\<rparr>)"
    and h: "links h = (links h2)(x \<mapsto> (None, None))" "hnexts h = hnexts h2" "contents h = contents h2"
    unfolding hs2 by blast
  have "dseg (links h) None us ?b"
    using h1(1) d h2(2) by (subst dseg_frame [of us _ "links h1"]) (auto simp: h)
  moreover have "dseg (links h) ?a vs None"
    using h2(1) d by (subst dseg_frame [of vs _ "links h2"]) (auto simp: h)
  moreover have "lru_unlink x s = Ok (s2\<lparr>c_heap := h\<rparr>)"
    unfolding lru_unlink_def n res_bind.simps s1
    unfolding s1_def [symmetric] n1 res_bind.simps s2 s2_def [symmetric] s3 ..
  moreover have "s2\<lparr>c_heap := h\<rparr> = s\<lparr>c_heap := h, c_lru_head := first (us @ vs) None,
        c_lru_tail := final None (us @ vs)\<rparr>"
    using ht by (cases us; cases vs) (simp_all add: s2_def s1_def)
  ultimately show ?thesis
    using h h2 h1 by (intro exI [of _ h]) (simp add: dseg_append)
qed

lemma lru_push_front_ok:
  assumes ok: "lru_ok s xs" and x: "x \<notin> set xs" "c_heap s x \<noteq> None"
  shows "\<exists>h. lru_push_front x s = Ok (s\<lparr>c_heap := h, c_lru_head := Some x,
        c_lru_tail := final None (x # xs)\<rparr>) \<and>
      dseg (links h) None (x # xs) None \<and>
      hnexts h = hnexts (c_heap s) \<and> contents h = contents (c_heap s)"
proof -
  let ?b = "first xs None"
  have seg: "dseg (links (c_heap s)) None xs None" and d: "distinct xs"
    and ht: "c_lru_head s = ?b" "c_lru_tail s = final None xs"
    using ok by (auto simp: lru_ok_def)
  obtain a b where "links (c_heap s) x = Some (a, b)" using x(2) by (auto simp: links_def)
  from upd_links [OF this, where v = None and w = ?b] obtain h1 where
    s1: "upd_node x (\<lambda>m. m\<lparr>cn_prev := None, cn_next := ?b\<rparr>) s = Ok (s\<lparr>c_heap := h1\<rparr>)"
    and h1: "links h1 = (links (c_heap s))(x \<mapsto> (None, ?b))" "hnexts h1 = hnexts (c_heap s)"
      "contents h1 = contents (c_heap s)" by blast
  define s1 where "s1 = s\<lparr>c_heap := h1\<rparr>"
  have hs1: "c_heap s1 = h1" "c_lru_head s1 = ?b" by (simp_all add: s1_def ht)
  have "dseg (links (c_heap s1)) None xs None"
    using seg x(1) by (subst dseg_frame [of xs _ "links (c_heap s)"]) (auto simp: h1 hs1)
  from relink_right [OF this d, of "Some x"] obtain h where
    s2: "(case ?b of Some q \<Rightarrow> upd_node q (\<lambda>m. m\<lparr>cn_prev := Some x\<rparr>) s1
         | None \<Rightarrow> Ok (s1\<lparr>c_lru_tail := Some x\<rparr>)) =
       Ok (s1\<lparr>c_heap := h, c_lru_tail := if xs = [] then Some x else c_lru_tail s1\<rparr>)"
    and h: "dseg (links h) (Some x) xs None" "\<And>y. y \<notin> set xs \<Longrightarrow> links h y = links h1 y"
     "hnexts h = hnexts h1" "contents h = contents h1" unfolding hs1 by blast
  have "lru_push_front x s = Ok (s\<lparr>c_heap := h, c_lru_head := Some x, c_lru_tail := final None (x # xs)\<rparr>)"
  proof (cases xs)
    case Nil
    then have "Ok (s1\<lparr>c_lru_tail := Some x\<rparr>) = Ok (s1\<lparr>c_heap := h, c_lru_tail := Some x\<rparr>)"
      using s2 by simp
    then have "h = h1" by (auto simp: hs1 dest: arg_cong [where f = c_heap])
    then show ?thesis using ht s1 Nil by (simp add: lru_push_front_def Let_def)
  next
    case (Cons y ys)
    then show ?thesis using ht s1 s2
      by (simp add: lru_push_front_def Let_def final_snoc_cases s1_def)
  qed
  moreover have "links h x = Some (None, ?b)" using h(2) x(1) h1 by simp
  ultimately show ?thesis using h h1 by (intro exI [of _ h]) simp
qed

subsection \<open>Bucket chains\<close>

lemma chain_upd [simp]: "p \<notin> set xs \<Longrightarrow> chain (c(p := v)) q xs = chain c q xs"
  by (rule chain_frame) auto

lemma hnexts_Some: "hnexts h p = Some q \<longleftrightarrow> (\<exists>n. h p = Some n \<and> cn_hnext n = q)"
  by (auto simp: hnexts_def)

lemma unlink_loop:
  "chain (hnexts (c_heap s)) v (us @ x # vs) \<Longrightarrow> x \<notin> set us \<Longrightarrow> load_slot pp s = Ok v \<Longrightarrow>
   length us < fuel \<Longrightarrow>
   bucket_unlink_loop fuel pp x s = unlink_at (if us = [] then pp else NextSlot (last us)) x s"
proof (induction us arbitrary: fuel pp v)
  case Nil
  then show ?case by (cases fuel) auto
next
  case (Cons u us)
  then obtain k where fuel: "fuel = Suc k" "length us < k" by (cases fuel) auto
  from Cons.prems obtain n where n: "c_heap s u = Some n" "chain (hnexts (c_heap s)) (cn_hnext n) (us @ x # vs)"
    by (auto simp: hnexts_Some split: option.splits)
  then have "load_slot (NextSlot u) s = Ok (cn_hnext n)" by (simp add: deref_def)
  from Cons.IH [OF n(2) _ this fuel(2)] Cons.prems show ?case by (simp add: fuel(1))
qed

lemma chain_remove_head: "chain c v (x # vs) \<Longrightarrow> \<exists>q. v = Some x \<and> c x = Some q \<and> chain c q vs"
  by (auto split: option.splits)

lemma chain_remove_inner:
  "chain c v (ws @ a # x # vs) \<Longrightarrow> distinct (ws @ a # x # vs) \<Longrightarrow> c x = Some q \<Longrightarrow>
   chain (c(a \<mapsto> q)) v (ws @ a # vs)"
  by (induction ws arbitrary: v) (auto split: option.splits)

lemma chain_head_upd:
  "chain c v ys \<Longrightarrow> p \<notin> set ys \<Longrightarrow> chain (c(p \<mapsto> v)) (Some p) (p # ys)"
  by simp

definition node_hash :: "cache_node \<Rightarrow> u64" where
  "node_hash n = dns_key_hash (cn_name n) (cn_qtype n)"

definition home :: "node_heap \<Rightarrow> nat \<Rightarrow> nat" where
  "home h p = (case h p of None \<Rightarrow> 0 | Some n \<Rightarrow> bucket_of (node_hash n))"

text \<open>Bucket \<open>b\<close> chains exactly the nodes of \<open>P\<close> that hash to it.\<close>

definition bucket_ok :: "node_heap \<Rightarrow> nat option \<Rightarrow> nat set \<Rightarrow> nat \<Rightarrow> bool" where
  "bucket_ok h v P b \<longleftrightarrow> (\<exists>ys. chain (hnexts h) v ys \<and> distinct ys \<and> set ys = {p \<in> P. home h p = b})"

lemma bucket_of_less: "bucket_of hash < CACHE_BUCKETS"
proof -
  have "(2047::u32) = mask 11" by (simp add: mask_eq_exp_minus_1)
  then have "(ucast hash :: u32) AND 2047 = take_bit 11 (ucast hash)" by (simp add: take_bit_eq_mask)
  then have "bucket_of hash = take_bit 11 (unat (ucast hash :: u32))"
    by (simp add: bucket_of_def CACHE_BUCKETS_def unsigned_take_bit_eq)
  also have "\<dots> < 2 ^ 11" by (rule take_bit_nat_less_exp)
  finally show ?thesis by (simp add: CACHE_BUCKETS_def)
qed

lemma home_contents:
  assumes "contents h = contents h'"
  shows "home h p = home h' p"
proof (cases "h p")
  case None
  then have "h' p = None" using contents_dom [OF assms] by (metis domIff)
  then show ?thesis using None by (simp add: home_def)
next
  case (Some n)
  obtain n' where "h' p = Some n'" "cn_name n' = cn_name n" "cn_qtype n' = cn_qtype n"
    by (rule contents_SomeD [OF assms Some])
  then show ?thesis by (simp add: home_def Some node_hash_def)
qed

text \<open>Unlinking a node whose chain is \<open>us @ x # vs\<close>.\<close>

lemma unlink_at_ok:
  assumes ys: "chain (hnexts (c_heap s)) (c_buckets s b) (us @ x # vs)" "distinct (us @ x # vs)"
    and b: "b < CACHE_BUCKETS"
  shows "\<exists>h v. unlink_at (if us = [] then BucketSlot b else NextSlot (last us)) x s =
        Ok (s\<lparr>c_heap := h, c_buckets := (c_buckets s)(b := v)\<rparr>) \<and>
      links h = links (c_heap s) \<and> contents h = contents (c_heap s) \<and>
      chain (hnexts h) v (us @ vs) \<and> (\<forall>p. p \<notin> set (us @ x # vs) \<longrightarrow> hnexts h p = hnexts (c_heap s) p)"
proof -
  obtain n where n: "c_heap s x = Some n"
    using chain_mem [OF ys(1), of x] by (auto simp: hnexts_def)
  show ?thesis
  proof (cases us rule: rev_cases)
    case Nil
    have "chain (hnexts (c_heap s)) (cn_hnext n) vs"
      using ys(1) n Nil by (auto simp: hnexts_Some split: option.splits)
    then have "chain ((hnexts (c_heap s))(x \<mapsto> None)) (cn_hnext n) vs"
      using ys(2) Nil by simp
    then show ?thesis
      using Nil n b
      by (intro exI [of _ "(c_heap s)(x \<mapsto> n\<lparr>cn_hnext := None\<rparr>)"] exI [of _ "cn_hnext n"])
        (simp add: unlink_at_def deref_def upd_node_def)
  next
    case (snoc ws a)
    obtain m where m: "c_heap s a = Some m"
      using chain_mem [OF ys(1), of a] snoc by (auto simp: hnexts_def)
    let ?h = "(c_heap s)(a \<mapsto> m\<lparr>cn_hnext := cn_hnext n\<rparr>)"
    have a: "a \<noteq> x" using ys(2) snoc by auto
    then have hx: "?h x = Some n" by (simp add: n)
    have "hnexts (c_heap s) x = Some (cn_hnext n)" by (simp add: hnexts_def n)
    then have "chain ((hnexts (c_heap s))(a \<mapsto> cn_hnext n)) (c_buckets s b) (us @ vs)"
      using chain_remove_inner [of "hnexts (c_heap s)" "c_buckets s b" ws a x vs] ys snoc by simp
    then have "chain ((hnexts (c_heap s))(a \<mapsto> cn_hnext n, x \<mapsto> None)) (c_buckets s b) (us @ vs)"
      using ys(2) by simp
    then show ?thesis
      using snoc n m a hx
      by (intro exI [of _ "?h(x \<mapsto> n\<lparr>cn_hnext := None\<rparr>)"] exI [of _ "c_buckets s b"])
        (simp add: unlink_at_def deref_def upd_node_def)
  qed
qed

lemma bucket_unlink_ok:
  assumes buckets: "\<And>b. b < CACHE_BUCKETS \<Longrightarrow> bucket_ok (c_heap s) (c_buckets s b) (dom (c_heap s)) b"
    and x: "x \<in> dom (c_heap s)" and small: "finite (dom (c_heap s))" "card (dom (c_heap s)) \<le> CACHE_CAPACITY"
  shows "\<exists>h bs. bucket_unlink x s = Ok (s\<lparr>c_heap := h, c_buckets := bs\<rparr>) \<and>
      links h = links (c_heap s) \<and> contents h = contents (c_heap s) \<and>
      (\<forall>b < CACHE_BUCKETS. bucket_ok h (bs b) (dom (c_heap s) - {x}) b)"
proof -
  obtain n where n: "c_heap s x = Some n" using x by auto
  define k where "k = bucket_of (node_hash n)"
  have k: "k < CACHE_BUCKETS" by (simp add: k_def bucket_of_less)
  obtain ys where ys: "chain (hnexts (c_heap s)) (c_buckets s k) ys" "distinct ys"
      "set ys = {p \<in> dom (c_heap s). home (c_heap s) p = k}"
    using buckets [OF k] by (auto simp: bucket_ok_def)
  have homex: "home (c_heap s) x = k" by (simp add: home_def n k_def)
  have "x \<in> set ys" using ys(3) x homex by simp
  then obtain us vs where uv: "ys = us @ x # vs" by (meson split_list)
  have "length us < length ys" by (simp add: uv)
  also have "length ys \<le> CACHE_CAPACITY"
    using small ys(2,3) card_mono [of "dom (c_heap s)" "set ys"] distinct_card [OF ys(2)] by fastforce
  finally have "length us < CACHE_CAPACITY + 1" by simp
  then have run: "bucket_unlink x s = unlink_at (if us = [] then BucketSlot k else NextSlot (last us)) x s"
    using unlink_loop [of s "c_buckets s k" us x vs "BucketSlot k" "CACHE_CAPACITY + 1"] ys(1,2) k
    by (simp add: bucket_unlink_def deref_def n uv node_hash_def k_def del: bucket_unlink_loop.simps)
  from unlink_at_ok [of s k us x vs, OF _ _ k] ys(1,2) uv obtain h v where
    h: "unlink_at (if us = [] then BucketSlot k else NextSlot (last us)) x s =
        Ok (s\<lparr>c_heap := h, c_buckets := (c_buckets s)(k := v)\<rparr>)"
      "links h = links (c_heap s)" "contents h = contents (c_heap s)"
      "chain (hnexts h) v (us @ vs)" "\<And>p. p \<notin> set ys \<Longrightarrow> hnexts h p = hnexts (c_heap s) p"
    by blast
  have "bucket_ok h (((c_buckets s)(k := v)) b) (dom (c_heap s) - {x}) b" if b: "b < CACHE_BUCKETS" for b
  proof (cases "b = k")
    case True
    have "set (us @ vs) = {p \<in> dom (c_heap s) - {x}. home h p = k}"
      using ys(2,3) by (auto simp: uv home_contents [OF h(3)])
    then show ?thesis
      using h(4) ys(2) True uv unfolding bucket_ok_def by (intro exI [of _ "us @ vs"]) auto
  next
    case False
    obtain zs where zs: "chain (hnexts (c_heap s)) (c_buckets s b) zs" "distinct zs"
        "set zs = {p \<in> dom (c_heap s). home (c_heap s) p = b}"
      using buckets [OF b] by (auto simp: bucket_ok_def)
    have "chain (hnexts h) (c_buckets s b) zs"
      using zs(1) h(5) ys(3) zs(3) False by (subst chain_frame [of zs _ "hnexts (c_heap s)"]) auto
    moreover have "set zs = {p \<in> dom (c_heap s) - {x}. home h p = b}"
      using zs(3) False homex by (auto simp: home_contents [OF h(3)])
    ultimately show ?thesis
      using zs(2) False unfolding bucket_ok_def by (intro exI [of _ zs]) auto
  qed
  then show ?thesis
    by (intro exI [of _ h] exI [of _ "(c_buckets s)(k := v)"] conjI allI impI) (simp_all only: run h)
qed

end
