(* ===== verification/CacheRefinement.thy ===== *)
theory CacheRefinement
  imports CacheHeap
begin

text \<open>
  The cache against its abstract specification: an entry list in order of use with lookup,
  store and eviction on lists, the representation invariant that ties the pointer structure,
  the entry count and the Bloom filter to such a list, the refinement of every operation, the
  cache as an interface for its clients, and whole histories from \<open>dns_cache_init\<close> to
  \<open>dns_cache_fini\<close>.
\<close>

section \<open>The abstract cache\<close>

text \<open>
  Seen from outside the cache is a list of entries, most recently used first, with at most one
  entry per key; names are compared without case, so the abstract key is the lower-case name.
\<close>

record entry =
  e_name :: cstring
  e_qtype :: u16
  e_ans :: "dns_answer list"
  e_rcode :: u16
  e_expires :: int

definition e_key :: "entry \<Rightarrow> cstring \<times> u16" where
  "e_key e = (e_name e, e_qtype e)"

definition drop_key :: "cstring \<Rightarrow> u16 \<Rightarrow> entry list \<Rightarrow> entry list" where
  "drop_key name qtype es = filter (\<lambda>e. e_key e \<noteq> (lower name, qtype)) es"

definition find_key :: "cstring \<Rightarrow> u16 \<Rightarrow> entry list \<Rightarrow> entry option" where
  "find_key name qtype es = find (\<lambda>e. e_key e = (lower name, qtype)) es"

text \<open>A lookup: an expired entry is dropped, a live one moves to the front.\<close>

definition spec_get ::
  "int \<Rightarrow> cstring \<Rightarrow> u16 \<Rightarrow> nat \<Rightarrow> entry list \<Rightarrow> (dns_answer list \<times> u16) option \<times> entry list" where
  "spec_get now name qtype cap es = (case find_key name qtype es of
       None \<Rightarrow> (None, es)
     | Some e \<Rightarrow> if e_expires e \<le> now then (None, drop_key name qtype es)
         else (Some (map (\<lambda>a. a\<lparr>an_ttl := word_of_int (e_expires e - now)\<rparr>) (take cap (e_ans e)), e_rcode e),
               e # drop_key name qtype es))"

text \<open>Eviction: an expired entry among the eight least recently used, else the last.\<close>

definition spec_victim :: "int \<Rightarrow> entry list \<Rightarrow> entry option" where
  "spec_victim now es = (case find (\<lambda>e. e_expires e \<le> now) (take 8 (rev es)) of
       Some e \<Rightarrow> Some e
     | None \<Rightarrow> if es = [] then None else Some (last es))"

definition spec_evict :: "int \<Rightarrow> entry list \<Rightarrow> entry list" where
  "spec_evict now es = (case spec_victim now es of None \<Rightarrow> es | Some e \<Rightarrow> remove1 e es)"

definition spec_room :: "int \<Rightarrow> entry list \<Rightarrow> entry list" where
  "spec_room now es = (if CACHE_CAPACITY \<le> length es then spec_evict now es else es)"

definition spec_put ::
  "int \<Rightarrow> u32 \<Rightarrow> cstring \<Rightarrow> u16 \<Rightarrow> dns_answer list \<Rightarrow> u16 \<Rightarrow> entry list \<Rightarrow> entry list" where
  "spec_put now ttl name qtype ans rcode es =
     \<lparr>e_name = lower name, e_qtype = qtype, e_ans = ans, e_rcode = rcode, e_expires = now + int (unat ttl)\<rparr> #
     (if find_key name qtype es = None then spec_room now es else drop_key name qtype es)"

section \<open>The representation invariant\<close>

definition entry_of :: "cache_node \<Rightarrow> entry" where
  "entry_of n = \<lparr>e_name = lower (cn_name n), e_qtype = cn_qtype n, e_ans = take (cn_nans n) (cn_ans n),
     e_rcode = cn_rcode n, e_expires = cn_expires n\<rparr>"

definition node_ok :: "cache_node \<Rightarrow> bool" where
  "node_ok n \<longleftrightarrow> length (cn_ans n) = DNS_MAX_ANSWERS \<and> cn_nans n \<le> DNS_MAX_ANSWERS"

definition entries :: "node_heap \<Rightarrow> nat list \<Rightarrow> entry list" where
  "entries h xs = map (\<lambda>x. entry_of (the (h x))) xs"

definition hashes :: "node_heap \<Rightarrow> nat list \<Rightarrow> u64 multiset" where
  "hashes h xs = mset (map (\<lambda>x. node_hash (the (h x))) xs)"

definition nodes_ok :: "node_heap \<Rightarrow> nat list \<Rightarrow> bool" where
  "nodes_ok h xs \<longleftrightarrow> set xs = dom h \<and> (\<forall>x\<in>set xs. node_ok (the (h x))) \<and>
     distinct (map e_key (entries h xs))"

definition cache_ok :: "cache \<Rightarrow> nat list \<Rightarrow> bool" where
  "cache_ok s xs \<longleftrightarrow> lru_ok s xs \<and> nodes_ok (c_heap s) xs \<and>
     (\<forall>b < CACHE_BUCKETS. bucket_ok (c_heap s) (c_buckets s b) (dom (c_heap s)) b) \<and>
     c_entry_count s = length xs \<and> length xs \<le> CACHE_CAPACITY \<and>
     bloom_counts (c_bloom s) (hashes (c_heap s) xs)"

definition cache_rel :: "cache \<Rightarrow> entry list \<Rightarrow> bool" where
  "cache_rel s es \<longleftrightarrow> (\<exists>xs. cache_ok s xs \<and> es = entries (c_heap s) xs)"

lemma entry_contents:
  assumes "contents h = contents h'" "x \<in> dom h"
  shows "entry_of (the (h' x)) = entry_of (the (h x))" "node_hash (the (h' x)) = node_hash (the (h x))"
    "node_ok (the (h' x)) = node_ok (the (h x))"
proof -
  obtain n where n: "h x = Some n" using assms(2) by auto
  obtain n' where "h' x = Some n'" "cn_name n' = cn_name n" "cn_qtype n' = cn_qtype n"
    "cn_ans n' = cn_ans n" "cn_nans n' = cn_nans n" "cn_rcode n' = cn_rcode n" "cn_expires n' = cn_expires n"
    by (rule contents_SomeD [OF assms(1) n])
  then show "entry_of (the (h' x)) = entry_of (the (h x))" "node_hash (the (h' x)) = node_hash (the (h x))"
    "node_ok (the (h' x)) = node_ok (the (h x))"
    by (simp_all add: n entry_of_def node_hash_def node_ok_def)
qed

lemma entries_contents: "contents h = contents h' \<Longrightarrow> set xs \<subseteq> dom h \<Longrightarrow> entries h' xs = entries h xs"
  by (auto simp: entries_def intro: entry_contents)

lemma hashes_contents: "contents h = contents h' \<Longrightarrow> set xs \<subseteq> dom h \<Longrightarrow> hashes h' xs = hashes h xs"
  unfolding hashes_def by (rule arg_cong [of _ _ mset], rule map_cong [OF refl]) (blast intro: entry_contents(2))

lemma nodes_contents: "contents h = contents h' \<Longrightarrow> nodes_ok h' xs = nodes_ok h xs"
  unfolding nodes_ok_def
  by (metis (no_types, lifting) contents_dom entries_contents entry_contents(3) set_eq_subset)

lemma nodes_remove:
  assumes "nodes_ok h (us @ x # vs)" "distinct (us @ x # vs)"
  shows "nodes_ok (h(x := None)) (us @ vs)"
    and "entries (h(x := None)) (us @ vs) = entries h (us @ vs)"
    and "hashes (h(x := None)) (us @ vs) = hashes h (us @ x # vs) - {#node_hash (the (h x))#}"
    and "node_hash (the (h x)) \<in># hashes h (us @ x # vs)"
proof -
  show *: "entries (h(x := None)) (us @ vs) = entries h (us @ vs)"
    using assms(2) by (auto simp: entries_def)
  show "nodes_ok (h(x := None)) (us @ vs)"
    using assms unfolding nodes_ok_def * by (auto simp: entries_def)
  have "map (\<lambda>y. node_hash (the ((h(x := None)) y))) (us @ vs) = map (\<lambda>y. node_hash (the (h y))) (us @ vs)"
    using assms(2) by auto
  then have "hashes (h(x := None)) (us @ vs) = hashes h (us @ vs)" unfolding hashes_def by (rule arg_cong)
  then show "hashes (h(x := None)) (us @ vs) = hashes h (us @ x # vs) - {#node_hash (the (h x))#}"
    by (simp add: hashes_def)
  show "node_hash (the (h x)) \<in># hashes h (us @ x # vs)" by (simp add: hashes_def)
qed

lemma cache_ok_card: "cache_ok s xs \<Longrightarrow> finite (dom (c_heap s)) \<and> card (dom (c_heap s)) = length xs"
  unfolding cache_ok_def nodes_ok_def lru_ok_def
  by (metis distinct_card finite_set)

lemma links_free: "x \<notin> set ys \<Longrightarrow> dseg (links (h(x := None))) p ys q = dseg (links h) p ys q"
  by (rule dseg_frame) (auto simp: links_def)

lemma bucket_ok_free:
  assumes "bucket_ok h v (P - {x}) b"
  shows "bucket_ok (h(x := None)) v (P - {x}) b"
proof -
  obtain ys where ys: "chain (hnexts h) v ys" "distinct ys" "set ys = {p \<in> P - {x}. home h p = b}"
    using assms by (auto simp: bucket_ok_def)
  have "chain (hnexts (h(x := None))) v ys"
    using ys(1,3) by (subst chain_frame [of ys _ "hnexts h"]) (auto simp: hnexts_def)
  moreover have "set ys = {p \<in> P - {x}. home (h(x := None)) p = b}"
    using ys(3) by (auto simp: home_def)
  ultimately show ?thesis using ys(2) by (auto simp: bucket_ok_def)
qed

lemma bucket_ok_contents:
  "contents h = contents h' \<Longrightarrow> hnexts h = hnexts h' \<Longrightarrow> bucket_ok h' v P b = bucket_ok h v P b"
  by (simp add: bucket_ok_def home_contents [of h h'])

text \<open>The counters an operation leaves alone.\<close>

definition same_stats :: "cache \<Rightarrow> cache \<Rightarrow> bool" where
  "same_stats s s' \<longleftrightarrow> c_hits s' = c_hits s \<and> c_misses s' = c_misses s \<and>
     c_evictions s' = c_evictions s \<and> c_expirations s' = c_expirations s"

lemma node_destroy_ok:
  assumes ok: "cache_ok s (us @ x # vs)"
  shows "\<exists>s'. node_destroy x s = Ok s' \<and> cache_ok s' (us @ vs) \<and>
    entries (c_heap s') (us @ vs) = entries (c_heap s) (us @ vs) \<and> same_stats s s'"
proof -
  let ?xs = "us @ x # vs" and ?h0 = "c_heap s"
  have lru: "lru_ok s ?xs" and nodes: "nodes_ok ?h0 ?xs"
    and bk: "\<And>b. b < CACHE_BUCKETS \<Longrightarrow> bucket_ok ?h0 (c_buckets s b) (dom ?h0) b"
    and cnt: "c_entry_count s = length ?xs" "length ?xs \<le> CACHE_CAPACITY"
    and bl: "bloom_counts (c_bloom s) (hashes ?h0 ?xs)"
    and d: "distinct ?xs" and x: "x \<in> dom ?h0" and domx: "set ?xs = dom ?h0"
    using ok by (auto simp: cache_ok_def lru_ok_def nodes_ok_def)
  obtain n where n: "?h0 x = Some n" using x by auto
  define s1 where "s1 = s\<lparr>c_bloom := dns_bloom_del (node_hash n) (c_bloom s)\<rparr>"
  have hs1: "c_heap s1 = ?h0" "c_buckets s1 = c_buckets s" by (simp_all add: s1_def)
  have card: "finite (dom (c_heap s1))" "card (dom (c_heap s1)) \<le> CACHE_CAPACITY"
    using cache_ok_card [OF ok] cnt by (simp_all add: hs1)
  from bucket_unlink_ok [of s1 x] bk x card obtain h1 bs where
    s2: "bucket_unlink x s1 = Ok (s1\<lparr>c_heap := h1, c_buckets := bs\<rparr>)" and
    h1: "links h1 = links ?h0" "contents h1 = contents ?h0"
      "\<And>b. b < CACHE_BUCKETS \<Longrightarrow> bucket_ok h1 (bs b) (dom ?h0 - {x}) b"
    unfolding hs1 by blast
  define s2 where "s2 = s1\<lparr>c_heap := h1, c_buckets := bs\<rparr>"
  have hs2: "c_heap s2 = h1" by (simp add: s2_def)
  have "lru_ok s2 ?xs" using lru by (simp add: lru_ok_def s2_def s1_def h1)
  from lru_unlink_ok [OF this] obtain h2 where
    s3: "lru_unlink x s2 = Ok (s2\<lparr>c_heap := h2, c_lru_head := first (us @ vs) None,
        c_lru_tail := final None (us @ vs)\<rparr>)"
    and h2: "dseg (links h2) None (us @ vs) None" "hnexts h2 = hnexts h1" "contents h2 = contents h1"
    unfolding hs2 by blast
  have c2: "contents ?h0 = contents h2" by (simp add: h1 h2)
  then have "x \<in> dom h2" using contents_dom x by blast
  then obtain m where m: "h2 x = Some m" by auto
  define s' where "s' = s2\<lparr>c_heap := h2(x := None), c_lru_head := first (us @ vs) None,
        c_lru_tail := final None (us @ vs), c_entry_count := length (us @ vs)\<rparr>"
  have run: "node_destroy x s = Ok s'"
    unfolding node_destroy_def deref_def n option.case res_bind.simps Let_def node_hash_def [symmetric]
      s1_def [symmetric] s2 s2_def [symmetric] s3
    by (simp add: free_node_def m s'_def) (simp add: s2_def s1_def cnt size_sub_def)
  have nodes2: "nodes_ok h2 ?xs" using nodes nodes_contents [OF c2] by simp
  note rem = nodes_remove [OF nodes2 d]
  have ent: "entries (h2(x := None)) (us @ vs) = entries ?h0 (us @ vs)"
    using rem(2) entries_contents [OF c2, of "us @ vs"] domx by auto
  have hash: "hashes h2 ?xs = hashes ?h0 ?xs" "node_hash (the (h2 x)) = node_hash n"
    using hashes_contents [OF c2, of ?xs] entry_contents(2) [OF c2 x] domx n by auto
  have bl': "bloom_counts (c_bloom s') (hashes (h2(x := None)) (us @ vs))"
    using counting.del_tracks [OF bl, of "node_hash n"] rem(3,4) hash by (simp add: s'_def s2_def s1_def)
  have dom': "dom (h2(x := None)) = dom ?h0 - {x}" using contents_dom [OF c2] by simp
  have bk': "bucket_ok (h2(x := None)) (bs b) (dom ?h0 - {x}) b" if "b < CACHE_BUCKETS" for b
    using h1(3) [OF that] bucket_ok_contents [of h1 h2] h2 by (intro bucket_ok_free) simp
  have "lru_ok s' (us @ vs)"
    using h2(1) d links_free [of x "us @ vs" h2] by (simp add: lru_ok_def s'_def)
  then have "cache_ok s' (us @ vs)"
    using rem(1) bk' bl' cnt by (simp add: cache_ok_def s'_def s2_def flip: contents_dom [OF c2])
  moreover have "same_stats s s'" by (simp add: same_stats_def s'_def s2_def s1_def)
  ultimately show ?thesis using run ent by (auto simp: s'_def)
qed

section \<open>Refinement\<close>

lemma find_map: "find P (map f xs) = map_option f (find (\<lambda>x. P (f x)) xs)"
  by (induction xs) auto

lemma find_mem: "find P xs = Some x \<Longrightarrow> x \<in> set xs \<and> P x"
  by (induction xs) (auto split: if_splits)

lemma key_match: "e_key (entry_of n) = (lower name, qtype) \<longleftrightarrow> cn_qtype n = qtype \<and> dns_name_equal (cn_name n) name"
  by (auto simp: e_key_def entry_of_def dns_name_equal_iff)

lemma keys_split:
  assumes "distinct (map e_key (as @ e # bs))" "e_key e = (lower name, qtype)"
  shows "find_key name qtype (as @ e # bs) = Some e" "drop_key name qtype (as @ e # bs) = as @ bs"
proof -
  have as: "\<And>a. a \<in> set as \<Longrightarrow> e_key a \<noteq> e_key e" and bs: "\<And>b. b \<in> set bs \<Longrightarrow> e_key b \<noteq> e_key e"
    using assms(1) by (auto simp: rev_image_eqI)
  have "find (\<lambda>a. e_key a = e_key e) (as @ e # bs) = Some e" using as by (induction as) auto
  then show "find_key name qtype (as @ e # bs) = Some e" by (simp add: find_key_def assms(2))
  show "drop_key name qtype (as @ e # bs) = as @ bs"
    using as bs assms(2) by (auto simp: drop_key_def intro!: filter_True)
qed

lemma keys_remove1: "distinct (map e_key (as @ e # bs)) \<Longrightarrow> remove1 e (as @ e # bs) = as @ bs"
  by (auto simp: remove1_append)

lemma entries_append [simp]: "entries h (us @ x # vs) = entries h us @ entry_of (the (h x)) # entries h vs"
    "entries h (us @ vs) = entries h us @ entries h vs" "entries h [] = []"
    "entries h (x # vs) = entry_of (the (h x)) # entries h vs"
  by (simp_all add: entries_def)

lemma find_loop_ok:
  "chain (hnexts (c_heap s)) v ys \<Longrightarrow> length ys \<le> fuel \<Longrightarrow>
   find_loop fuel v name qtype s = Ok (find (\<lambda>p. e_key (entry_of (the (c_heap s p))) = (lower name, qtype)) ys)"
proof (induction ys arbitrary: v fuel)
  case (Cons y ys)
  then obtain k where k: "fuel = Suc k" "length ys \<le> k" by (cases fuel) auto
  from Cons.prems obtain n where "c_heap s y = Some n" "v = Some y" "chain (hnexts (c_heap s)) (cn_hnext n) ys"
    by (auto simp: hnexts_Some split: option.splits)
  then show ?case using Cons.IH [of "cn_hnext n" k] k by (simp add: deref_def key_match)
qed auto

lemma bucket_find_ok:
  assumes ok: "cache_ok s xs"
  obtains (miss) "bucket_find (dns_key_hash name qtype) name qtype s = Ok None"
      "find_key name qtype (entries (c_heap s) xs) = None"
  | (hit) us x vs n where "xs = us @ x # vs" "bucket_find (dns_key_hash name qtype) name qtype s = Ok (Some x)"
      "c_heap s x = Some n" "find_key name qtype (entries (c_heap s) xs) = Some (entry_of n)"
      "drop_key name qtype (entries (c_heap s) xs) = entries (c_heap s) (us @ vs)"
      "e_key (entry_of n) = (lower name, qtype)"
proof -
  let ?P = "\<lambda>p. e_key (entry_of (the (c_heap s p))) = (lower name, qtype)"
  define b where "b = bucket_of (dns_key_hash name qtype)"
  have b: "b < CACHE_BUCKETS" by (simp add: b_def bucket_of_less)
  then obtain ys where ys: "chain (hnexts (c_heap s)) (c_buckets s b) ys" "distinct ys"
      "set ys = {p \<in> dom (c_heap s). home (c_heap s) p = b}"
    using ok by (auto simp: cache_ok_def bucket_ok_def)
  have dom: "set xs = dom (c_heap s)" using ok by (auto simp: cache_ok_def nodes_ok_def)
  have len: "length ys \<le> CACHE_CAPACITY + 1"
    using cache_ok_card [OF ok] ys(2,3) card_mono [of "dom (c_heap s)" "set ys"] distinct_card [OF ys(2)] ok
    by (fastforce simp: cache_ok_def)
  have run: "bucket_find (dns_key_hash name qtype) name qtype s = Ok (find ?P ys)"
    using find_loop_ok [OF ys(1) len, of name qtype] b
    by (simp add: bucket_find_def flip: b_def del: find_loop.simps)
  show thesis
  proof (cases "find ?P ys")
    case None
    have "find_key name qtype (entries (c_heap s) xs) = None"
      unfolding find_key_def find_None_iff
    proof clarify
      fix e assume "e \<in> set (entries (c_heap s) xs)" and k: "e_key e = (lower name, qtype)"
      then obtain x n where x: "x \<in> set xs" "c_heap s x = Some n" "e = entry_of n"
        using dom by (fastforce simp: entries_def)
      have "node_hash n = dns_key_hash name qtype"
        using k x(3) dns_key_hash_equal by (simp add: key_match node_hash_def)
      then have "x \<in> set ys" using ys(3) x dom by (simp add: home_def b_def)
      then show False using None k x by (auto simp: find_None_iff)
    qed
    then show thesis using miss run None by simp
  next
    case (Some x)
    then have x: "x \<in> set xs" "?P x" using ys(3) dom by (auto dest: find_mem)
    then obtain us vs where uv: "xs = us @ x # vs" by (meson split_list)
    obtain n where n: "c_heap s x = Some n" using x dom by auto
    have "distinct (map e_key (entries (c_heap s) us @ entry_of n # entries (c_heap s) vs))"
      using ok n by (simp add: cache_ok_def nodes_ok_def uv)
    from keys_split [OF this, of name qtype] x(2) n show thesis
      using hit [of us x vs n] uv run Some by simp
  qed
qed

lemma scan_tail_ok:
  "dseg (links (c_heap s)) None xs q \<Longrightarrow>
   scan_tail k (final None xs) now s = Ok (find (\<lambda>p. cn_expires (the (c_heap s p)) \<le> now) (take k (rev xs)))"
proof (induction k arbitrary: xs q)
  case (Suc k)
  show ?case
  proof (cases xs rule: rev_cases)
    case (snoc ws a)
    then have "links (c_heap s) a = Some (final None ws, q)" and ws: "dseg (links (c_heap s)) None ws (Some a)"
      using Suc.prems by (auto simp: dseg_append)
    then obtain n where "c_heap s a = Some n" "cn_prev n = final None ws" using deref_links by blast
    then show ?thesis using Suc.IH [OF ws] snoc by (simp add: deref_def)
  qed simp
qed simp

lemma evict_one_ok:
  assumes ok: "cache_ok s xs" and ne: "xs \<noteq> []"
  shows "\<exists>s' xs'. evict_one now s = Ok s' \<and> cache_ok s' xs' \<and>
    entries (c_heap s') xs' = spec_evict now (entries (c_heap s) xs) \<and> Suc (length xs') = length xs"
proof -
  let ?P = "\<lambda>p. cn_expires (the (c_heap s p)) \<le> now"
  have lru: "dseg (links (c_heap s)) None xs None" "c_lru_tail s = final None xs"
    and keys: "distinct (map e_key (entries (c_heap s) xs))"
    using ok by (auto simp: cache_ok_def lru_ok_def nodes_ok_def)
  define x where "x = (case find ?P (take 8 (rev xs)) of Some p \<Rightarrow> p | None \<Rightarrow> last xs)"
  have "x \<in> set xs"
    using ne by (auto simp: x_def split: option.split dest!: find_mem in_set_takeD)
  then obtain us vs where uv: "xs = us @ x # vs" by (meson split_list)
  from node_destroy_ok [of s us x vs] ok uv obtain s1 where
    s1: "node_destroy x s = Ok s1" "cache_ok s1 (us @ vs)"
      "entries (c_heap s1) (us @ vs) = entries (c_heap s) (us @ vs)" by auto
  have vict: "spec_victim now (entries (c_heap s) xs) = Some (entry_of (the (c_heap s x)))"
    using ne by (auto simp: spec_victim_def entries_def rev_map take_map find_map x_def entry_of_def last_map
        split: option.splits)
  have "spec_evict now (entries (c_heap s) xs) = entries (c_heap s) (us @ vs)"
    unfolding spec_evict_def vict using keys by (simp add: uv keys_remove1)
  moreover have "evict_one now s = Ok (s1\<lparr>c_evictions := c_evictions s1 + 1\<rparr>)"
    unfolding evict_one_def lru(2) scan_tail_ok [OF lru(1)] using s1(1) ne
    by (auto simp: x_def final_snoc_cases split: option.split)
  moreover have "cache_ok (s1\<lparr>c_evictions := c_evictions s1 + 1\<rparr>) (us @ vs)"
    using s1(2) by (simp add: cache_ok_def lru_ok_def)
  ultimately show ?thesis using s1(3) uv by auto
qed

subsection \<open>Nodes outside the LRU list\<close>

text \<open>
  Between \<open>lru_unlink\<close>, or the allocation of a node, and \<open>lru_push_front\<close> the node \<open>x\<close> is in its
  bucket and counted, but not in the LRU list \<open>xs\<close>.
\<close>

definition detached :: "cache \<Rightarrow> nat \<Rightarrow> nat list \<Rightarrow> bool" where
  "detached s x xs \<longleftrightarrow> lru_ok s xs \<and> x \<notin> set xs \<and> nodes_ok (c_heap s) (x # xs) \<and>
     (\<forall>b < CACHE_BUCKETS. bucket_ok (c_heap s) (c_buckets s b) (dom (c_heap s)) b) \<and>
     c_entry_count s = Suc (length xs) \<and> Suc (length xs) \<le> CACHE_CAPACITY \<and>
     bloom_counts (c_bloom s) (hashes (c_heap s) (x # xs))"

lemma nodes_ok_move: "nodes_ok h (us @ x # vs) \<longleftrightarrow> nodes_ok h (x # us @ vs)"
  by (auto simp: nodes_ok_def)

lemma hashes_move: "hashes h (us @ x # vs) = hashes h (x # us @ vs)"
  by (simp add: hashes_def)

lemma unlink_detached:
  assumes ok: "cache_ok s (us @ x # vs)"
  shows "\<exists>s'. lru_unlink x s = Ok s' \<and> detached s' x (us @ vs) \<and>
    contents (c_heap s) = contents (c_heap s') \<and> same_stats s s'"
proof -
  have lru: "lru_ok s (us @ x # vs)" using ok by (simp add: cache_ok_def)
  from lru_unlink_ok [OF lru] obtain h where
    run: "lru_unlink x s = Ok (s\<lparr>c_heap := h, c_lru_head := first (us @ vs) None,
        c_lru_tail := final None (us @ vs)\<rparr>)"
    and h: "dseg (links h) None (us @ vs) None" "hnexts (c_heap s) = hnexts h"
      "contents (c_heap s) = contents h" by auto
  have d: "distinct (us @ x # vs)" and dom: "set (us @ x # vs) = dom (c_heap s)"
    using ok by (auto simp: cache_ok_def lru_ok_def nodes_ok_def)
  have "nodes_ok h (x # us @ vs)"
    using ok nodes_contents [OF h(3)] nodes_ok_move by (auto simp: cache_ok_def)
  moreover have "hashes h (x # us @ vs) = hashes (c_heap s) (us @ x # vs)"
    using hashes_contents [OF h(3) equalityD1 [OF dom]] by (simp add: hashes_move)
  moreover have "bucket_ok h (c_buckets s b) (dom h) b" if "b < CACHE_BUCKETS" for b
    using ok that bucket_ok_contents [OF h(3,2)] contents_dom [OF h(3)] by (simp add: cache_ok_def)
  ultimately show ?thesis
    using ok d h by (auto simp: run detached_def lru_ok_def cache_ok_def same_stats_def)
qed

lemma push_detached:
  assumes det: "detached s x xs"
  shows "\<exists>s'. lru_push_front x s = Ok s' \<and> cache_ok s' (x # xs) \<and>
    contents (c_heap s) = contents (c_heap s') \<and> same_stats s s'"
proof -
  have lru: "lru_ok s xs" and x: "x \<notin> set xs" and dom: "set (x # xs) = dom (c_heap s)"
    using det by (auto simp: detached_def nodes_ok_def)
  then have "c_heap s x \<noteq> None" by auto
  from lru_push_front_ok [OF lru x this] obtain h where
    run: "lru_push_front x s = Ok (s\<lparr>c_heap := h, c_lru_head := Some x, c_lru_tail := final None (x # xs)\<rparr>)"
    and h: "dseg (links h) None (x # xs) None" "hnexts (c_heap s) = hnexts h"
      "contents (c_heap s) = contents h" by auto
  have "nodes_ok h (x # xs)" using det nodes_contents [OF h(3)] by (auto simp: detached_def)
  moreover have "hashes h (x # xs) = hashes (c_heap s) (x # xs)"
    by (rule hashes_contents [OF h(3) equalityD1 [OF dom]])
  moreover have "bucket_ok h (c_buckets s b) (dom h) b" if "b < CACHE_BUCKETS" for b
    using det that bucket_ok_contents [OF h(3,2)] contents_dom [OF h(3)] by (simp add: detached_def)
  ultimately show ?thesis
    using det x h by (auto simp: run detached_def lru_ok_def cache_ok_def same_stats_def)
qed

lemma update_detached:
  assumes det: "detached s x xs" and n: "c_heap s x = Some n" and ok: "node_ok (f n)"
    and keep: "cn_name (f n) = cn_name n" "cn_qtype (f n) = cn_qtype n" "cn_hnext (f n) = cn_hnext n"
      "cn_prev (f n) = cn_prev n" "cn_next (f n) = cn_next n"
  shows "upd_node x f s = Ok (s\<lparr>c_heap := (c_heap s)(x \<mapsto> f n)\<rparr>)"
    and "detached (s\<lparr>c_heap := (c_heap s)(x \<mapsto> f n)\<rparr>) x xs"
    and "entries ((c_heap s)(x \<mapsto> f n)) xs = entries (c_heap s) xs"
proof -
  let ?h = "(c_heap s)(x \<mapsto> f n)"
  show "upd_node x f s = Ok (s\<lparr>c_heap := ?h\<rparr>)" by (simp add: upd_node_def n)
  have x: "x \<notin> set xs" using det by (simp add: detached_def)
  have views: "links ?h = links (c_heap s)" "hnexts ?h = hnexts (c_heap s)" "\<And>p. home ?h p = home (c_heap s) p"
      "dom ?h = dom (c_heap s)"
    using n keep by (auto simp: links_def hnexts_def home_def node_hash_def fun_eq_iff)
  show ent: "entries ?h xs = entries (c_heap s) xs" using x by (auto simp: entries_def)
  have key: "e_key (entry_of (f n)) = e_key (entry_of n)" by (simp add: e_key_def entry_of_def keep)
  have "nodes_ok ?h (x # xs)"
    using det x n ok key ent views(4) by (auto simp: detached_def nodes_ok_def)
  moreover have "hashes ?h (x # xs) = hashes (c_heap s) (x # xs)"
  proof -
    have "map (\<lambda>y. node_hash (the (?h y))) (x # xs) = map (\<lambda>y. node_hash (the (c_heap s y))) (x # xs)"
      using x n keep by (auto simp: node_hash_def)
    then show ?thesis unfolding hashes_def by (rule arg_cong)
  qed
  ultimately show "detached (s\<lparr>c_heap := ?h\<rparr>) x xs"
    using det views by (auto simp: detached_def lru_ok_def bucket_ok_def)
qed

lemma insert_detached:
  assumes ok: "cache_ok s xs" and room: "length xs < CACHE_CAPACITY" and fresh: "c_heap s p = None"
    and n: "node_ok n" "cn_prev n = None" "cn_next n = None"
    and new: "e_key (entry_of n) \<notin> set (map e_key (entries (c_heap s) xs))"
    and b: "b = bucket_of (node_hash n)"
  shows "detached (s\<lparr>c_heap := (c_heap s)(p \<mapsto> n\<lparr>cn_hnext := c_buckets s b\<rparr>),
      c_buckets := (c_buckets s)(b := Some p), c_entry_count := c_entry_count s + 1,
      c_bloom := dns_bloom_add t (node_hash n) (c_bloom s)\<rparr>) p xs"
    and "entries ((c_heap s)(p \<mapsto> n\<lparr>cn_hnext := c_buckets s b\<rparr>)) xs = entries (c_heap s) xs"
proof -
  let ?n = "n\<lparr>cn_hnext := c_buckets s b\<rparr>" and ?g = "c_heap s"
  let ?h = "?g(p \<mapsto> ?n)"
  have dom: "set xs = dom ?g" using ok by (simp add: cache_ok_def nodes_ok_def)
  then have p: "p \<notin> set xs" using fresh by auto
  show ent: "entries ?h xs = entries ?g xs" using p by (auto simp: entries_def)
  have same: "\<And>v. entry_of (n\<lparr>cn_hnext := v\<rparr>) = entry_of n" "\<And>v. node_hash (n\<lparr>cn_hnext := v\<rparr>) = node_hash n"
      "\<And>v. node_ok (n\<lparr>cn_hnext := v\<rparr>) = node_ok n"
    by (simp_all add: entry_of_def node_hash_def node_ok_def)
  have "nodes_ok ?h (p # xs)"
    using ok p new n(1) ent by (auto simp: nodes_ok_def cache_ok_def same)
  moreover have "hashes ?h (p # xs) = add_mset (node_hash n) (hashes ?g xs)"
  proof -
    have "map (\<lambda>x. node_hash (the (?h x))) xs = map (\<lambda>x. node_hash (the (?g x))) xs" using p by auto
    then have "hashes ?h xs = hashes ?g xs" unfolding hashes_def by (rule arg_cong)
    then show ?thesis by (simp add: hashes_def same)
  qed
  moreover have "lru_ok (s\<lparr>c_heap := ?h\<rparr>) xs"
  proof -
    have "dseg (links ?h) None xs None = dseg (links ?g) None xs None"
      using p by (intro dseg_frame) (auto simp: links_def)
    then show ?thesis using ok by (simp add: cache_ok_def lru_ok_def)
  qed
  moreover have "bucket_ok ?h (((c_buckets s)(b := Some p)) k) (dom ?h) k" if k: "k < CACHE_BUCKETS" for k
  proof -
    obtain ys where ys: "chain (hnexts ?g) (c_buckets s k) ys" "distinct ys" "set ys = {q \<in> dom ?g. home ?g q = k}"
      using ok k by (auto simp: cache_ok_def bucket_ok_def)
    have py: "p \<notin> set ys" using ys(3) fresh by auto
    have ch: "chain (hnexts ?h) (c_buckets s k) ys"
      using ys(1) py by (subst chain_frame [of ys _ "hnexts ?g"]) (auto simp: hnexts_def)
    have hp: "hnexts ?h p = Some (c_buckets s b)" "home ?h p = b" using b by (simp_all add: hnexts_def home_def same)
    have hq: "home ?h q = home ?g q" if "q \<noteq> p" for q using that by (simp add: home_def)
    have sets: "{q \<in> dom ?h. home ?h q = k} = (if k = b then insert p (set ys) else set ys)"
    proof -
      have "q \<in> dom ?h \<and> home ?h q = k \<longleftrightarrow> (if q = p then k = b else q \<in> set ys)" for q
        using hp(2) hq [of q] ys(3) by (cases "q = p") auto
      then show ?thesis using py by auto
    qed
    show ?thesis
    proof (cases "k = b")
      case True
      then show ?thesis using ys(2) py ch hp unfolding bucket_ok_def sets
        by (intro exI [of _ "p # ys"]) simp
    next
      case False
      then show ?thesis using ys(2) ch unfolding bucket_ok_def sets
        by (intro exI [of _ ys]) simp
    qed
  qed
  ultimately show "detached (s\<lparr>c_heap := ?h,
      c_buckets := (c_buckets s)(b := Some p), c_entry_count := c_entry_count s + 1,
      c_bloom := dns_bloom_add t (node_hash n) (c_bloom s)\<rparr>) p xs"
    using ok p room counting.add_tracks [of "c_bloom s" "hashes ?g xs" t "node_hash n"]
    by (simp add: detached_def cache_ok_def lru_ok_def del: fun_upd_apply)
qed

lemma evict_loop_ok:
  assumes ok: "cache_ok s xs"
  shows "\<exists>s' xs'. evict_loop (CACHE_CAPACITY + 1) now s = Ok s' \<and> cache_ok s' xs' \<and>
    length xs' < CACHE_CAPACITY \<and> entries (c_heap s') xs' = spec_room now (entries (c_heap s) xs)"
proof (cases "length xs < CACHE_CAPACITY")
  case True
  then have "evict_loop (Suc k) now s = Ok s" for k using ok by (simp add: cache_ok_def)
  then show ?thesis using ok True by (auto simp: spec_room_def entries_def)
next
  case False
  then have len: "length xs = CACHE_CAPACITY" and cnt: "c_entry_count s = CACHE_CAPACITY"
    using ok by (auto simp: cache_ok_def)
  then have "xs \<noteq> []" by (auto simp: CACHE_CAPACITY_def)
  from evict_one_ok [OF ok this, of now] obtain s' xs' where
    s': "evict_one now s = Ok s'" "cache_ok s' xs'"
      "entries (c_heap s') xs' = spec_evict now (entries (c_heap s) xs)" "Suc (length xs') = length xs" by blast
  have "evict_loop (Suc (Suc k)) now s = Ok s'" for k
    using s' cnt len by (simp add: cache_ok_def)
  from this [of 4095] show ?thesis using s' len by (auto simp: spec_room_def entries_def CACHE_CAPACITY_def)
qed

lemma spec_room_subset: "set (spec_room now es) \<subseteq> set es"
  by (auto simp: spec_room_def spec_evict_def split: option.splits dest: set_remove1_subset [THEN subsetD])

lemma find_key_None: "find_key name qtype es = None \<longleftrightarrow> (lower name, qtype) \<notin> set (map e_key es)"
  by (force simp: find_key_def find_None_iff)

lemma get_locked_ok:
  assumes ok: "cache_ok s xs" and sp: "spec_get now name qtype cap (entries (c_heap s) xs) = (r, es)"
  shows "\<exists>s'. get_locked now (dns_key_hash name qtype) name qtype cap s = Ok (r, s') \<and> cache_rel s' es \<and>
    c_hits s' = c_hits s + (if r = None then 0 else 1) \<and> c_misses s' = c_misses s + (if r = None then 1 else 0)"
  using ok
proof (cases rule: bucket_find_ok [where name = name and qtype = qtype])
  case miss
  then have "r = None" "es = entries (c_heap s) xs" using sp by (auto simp: spec_get_def)
  moreover have "cache_ok (s\<lparr>c_misses := c_misses s + 1\<rparr>) xs" using ok by (simp add: cache_ok_def lru_ok_def)
  ultimately show ?thesis using miss by (auto simp: get_locked_def cache_rel_def)
next
  case (hit us x vs n)
  have ok': "cache_ok s (us @ x # vs)" using ok hit by simp
  show ?thesis
  proof (cases "cn_expires n \<le> now")
    case True
    from node_destroy_ok [OF ok'] obtain s1 where
      s1: "node_destroy x s = Ok s1" "cache_ok s1 (us @ vs)" "same_stats s s1"
        "entries (c_heap s1) (us @ vs) = entries (c_heap s) (us @ vs)" by blast
    let ?s' = "s1\<lparr>c_expirations := c_expirations s1 + 1, c_misses := c_misses s1 + 1\<rparr>"
    have "cache_ok ?s' (us @ vs)" using s1(2) by (simp add: cache_ok_def lru_ok_def)
    moreover have "r = None" "es = entries (c_heap s) (us @ vs)"
      using sp True hit by (auto simp: spec_get_def entry_of_def)
    ultimately show ?thesis
      using s1 hit True by (auto simp: get_locked_def deref_def cache_rel_def same_stats_def)
  next
    case False
    from unlink_detached [OF ok'] obtain s1 where
      s1: "lru_unlink x s = Ok s1" "detached s1 x (us @ vs)" "contents (c_heap s) = contents (c_heap s1)"
        "same_stats s s1" by blast
    from push_detached [OF s1(2)] obtain s2 where
      s2: "lru_push_front x s1 = Ok s2" "cache_ok s2 (x # us @ vs)" "contents (c_heap s1) = contents (c_heap s2)"
        "same_stats s1 s2" by blast
    have c: "contents (c_heap s) = contents (c_heap s2)" using s1 s2 by simp
    have nok: "node_ok n" "set (x # us @ vs) \<subseteq> dom (c_heap s)"
      using ok' hit by (auto simp: cache_ok_def nodes_ok_def)
    have "entries (c_heap s2) (x # us @ vs) = entry_of n # entries (c_heap s) (us @ vs)"
      using entries_contents [OF c nok(2)] hit by simp
    moreover have "es = entry_of n # entries (c_heap s) (us @ vs)"
      and r: "r = Some (map (\<lambda>a. a\<lparr>an_ttl := word_of_int (cn_expires n - now)\<rparr>) (take cap (take (cn_nans n) (cn_ans n))),
        cn_rcode n)"
      using sp False hit by (auto simp: spec_get_def entry_of_def)
    moreover have "cache_ok (s2\<lparr>c_hits := c_hits s2 + 1\<rparr>) (x # us @ vs)"
      using s2(2) by (simp add: cache_ok_def lru_ok_def)
    ultimately show ?thesis
      using s1 s2 hit False nok
      by (intro exI [of _ "s2\<lparr>c_hits := c_hits s2 + 1\<rparr>"])
        (auto simp: get_locked_def deref_def cache_rel_def same_stats_def Let_def node_ok_def min_def)
  qed
qed

lemma cache_ok_bloom:
  assumes ok: "cache_ok s xs" and k: "find_key name qtype (entries (c_heap s) xs) \<noteq> None"
  shows "fst (dns_bloom_maybe t (dns_key_hash name qtype) (c_bloom s))"
proof -
  obtain e where "e \<in> set (entries (c_heap s) xs)" "e_key e = (lower name, qtype)"
    using k by (auto simp: find_key_def dest: find_mem)
  then obtain x where x: "x \<in> set xs" "e_key (entry_of (the (c_heap s x))) = (lower name, qtype)"
    by (auto simp: entries_def)
  then have "node_hash (the (c_heap s x)) = dns_key_hash name qtype"
    by (auto simp: key_match node_hash_def dest: dns_key_hash_equal)
  then have "dns_key_hash name qtype \<in># hashes (c_heap s) xs" using x(1) by (force simp: hashes_def)
  then show ?thesis using ok counting.member_maybe by (auto simp: cache_ok_def)
qed

lemma dns_cache_get_ok:
  assumes rel: "cache_rel s es" and sp: "spec_get now name qtype cap es = (r, es')"
  shows "\<exists>s'. dns_cache_get t now name qtype cap s = Ok (r, s') \<and> cache_rel s' es' \<and>
    c_hits s' = c_hits s + (if r = None then 0 else 1) \<and> c_misses s' = c_misses s + (if r = None then 1 else 0)"
proof -
  let ?h = "dns_key_hash name qtype"
  obtain xs where ok: "cache_ok s xs" and es: "es = entries (c_heap s) xs" using rel by (auto simp: cache_rel_def)
  obtain m b where mb: "dns_bloom_maybe t ?h (c_bloom s) = (m, b)" by force
  define s1 where "s1 = s\<lparr>c_bloom := b\<rparr>"
  have ok1: "cache_ok s1 xs" and h1: "c_heap s1 = c_heap s"
    using ok counting.maybe_tracks [of "c_bloom s" "hashes (c_heap s) xs" t ?h]
    by (auto simp: s1_def cache_ok_def lru_ok_def mb)
  show ?thesis
  proof (cases m)
    case True
    then have "dns_cache_get t now name qtype cap s = get_locked now ?h name qtype cap s1"
      by (simp add: dns_cache_get_def mb s1_def)
    then show ?thesis using get_locked_ok [OF ok1, of now name qtype cap r es'] sp es h1 by (simp add: s1_def)
  next
    case False
    then have "find_key name qtype es = None" using cache_ok_bloom [OF ok, of name qtype t] mb es by force
    then have "r = None" "es' = es" using sp by (simp_all add: spec_get_def)
    moreover have "cache_ok (s1\<lparr>c_misses := c_misses s1 + 1\<rparr>) xs"
      using ok1 by (simp add: cache_ok_def lru_ok_def)
    ultimately show ?thesis
      using False es by (auto simp: dns_cache_get_def mb s1_def cache_rel_def)
  qed
qed

definition put_args_ok :: "(node_heap \<Rightarrow> nat option) \<Rightarrow> cstring \<Rightarrow> dns_answer list option \<Rightarrow> nat \<Rightarrow> bool" where
  "put_args_ok calloc name ans n \<longleftrightarrow> (\<forall>h p. calloc h = Some p \<longrightarrow> h p = None) \<and>
     length name \<le> DNS_MAX_NAME \<and> (n = 0 \<or> (\<exists>as. ans = Some as \<and> min n DNS_MAX_ANSWERS \<le> length as))"

definition put_answers :: "dns_answer list option \<Rightarrow> nat \<Rightarrow> dns_answer list" where
  "put_answers ans n = (case ans of None \<Rightarrow> [] | Some as \<Rightarrow> take (min n DNS_MAX_ANSWERS) as)"

lemma put_ttl_ok: "put_args_ok calloc name ans n \<Longrightarrow> \<exists>ttl. put_ttl (min n DNS_MAX_ANSWERS) ans = Ok ttl"
  by (auto simp: put_args_ok_def put_ttl_def)

lemma fill_node_ok:
  assumes "put_args_ok calloc name ans n" "node_ok m"
    and f: "f = (\<lambda>m. (fill_node (min n DNS_MAX_ANSWERS) ans rcode m)\<lparr>cn_expires := x\<rparr>)"
  shows "node_ok (f m)"
    "entry_of (f m) = \<lparr>e_name = lower (cn_name m), e_qtype = cn_qtype m, e_ans = put_answers ans n,
       e_rcode = rcode, e_expires = x\<rparr>"
  using assms(1,2)
  by (auto simp: f fill_node_def node_ok_def entry_of_def put_answers_def put_args_ok_def
      split: option.split)

lemma insert_new_ok:
  assumes ok: "cache_ok s xs" and miss: "find_key name qtype (entries (c_heap s) xs) = None"
    and args: "put_args_ok calloc name ans n"
  obtains (full) s' xs' where "insert_new calloc t now (dns_key_hash name qtype) name qtype s = Ok (None, s')"
      "cache_ok s' xs'" "entries (c_heap s') xs' = spec_room now (entries (c_heap s) xs)"
      "calloc (c_heap s') = None"
  | (new) s' xs' p m where "insert_new calloc t now (dns_key_hash name qtype) name qtype s = Ok (Some p, s')"
      "detached s' p xs'" "entries (c_heap s') xs' = spec_room now (entries (c_heap s) xs)"
      "c_heap s' p = Some m" "node_ok m" "cn_name m = name" "cn_qtype m = qtype"
proof -
  obtain s1 xs1 where s1: "evict_loop (CACHE_CAPACITY + 1) now s = Ok s1" "cache_ok s1 xs1"
      "length xs1 < CACHE_CAPACITY" "entries (c_heap s1) xs1 = spec_room now (entries (c_heap s) xs)"
    using evict_loop_ok [OF ok] by blast
  let ?n = "zero_node\<lparr>cn_name := take DNS_MAX_NAME name, cn_qtype := qtype\<rparr>" and ?b = "bucket_of (dns_key_hash name qtype)"
  have nm: "take DNS_MAX_NAME name = name" "take 255 name = name" using args by (simp_all add: put_args_ok_def)
  have n: "node_ok ?n" "cn_prev ?n = None" "cn_next ?n = None" "node_hash ?n = dns_key_hash name qtype"
    by (simp_all add: node_ok_def zero_node_def node_hash_def nm)
  have newkey: "e_key (entry_of ?n) \<notin> set (map e_key (entries (c_heap s1) xs1))"
    using miss spec_room_subset [of now "entries (c_heap s) xs"]
    by (auto simp: s1(4) find_key_None e_key_def entry_of_def nm)
  show thesis
  proof (cases "calloc (c_heap s1)")
    case None
    then show thesis using full [of s1 xs1] s1 by (simp add: insert_new_def del: evict_loop.simps)
  next
    case (Some p)
    then have fresh: "c_heap s1 p = None" using args by (auto simp: put_args_ok_def)
    let ?h = "(c_heap s1)(p \<mapsto> ?n\<lparr>cn_hnext := c_buckets s1 ?b\<rparr>)"
    let ?s' = "s1\<lparr>c_heap := ?h, c_buckets := (c_buckets s1)(?b := Some p),
      c_entry_count := c_entry_count s1 + 1, c_bloom := dns_bloom_add t (dns_key_hash name qtype) (c_bloom s1)\<rparr>"
    have "insert_new calloc t now (dns_key_hash name qtype) name qtype s = Ok (Some p, ?s')"
      using s1(1) Some bucket_of_less
      by (simp add: insert_new_def Let_def upd_node_def del: evict_loop.simps)
    moreover have "detached ?s' p xs1" "entries (c_heap ?s') xs1 = entries (c_heap s1) xs1"
      using insert_detached(1) [OF s1(2,3) fresh n(1,2,3) newkey refl, of t]
        insert_detached(2) [OF s1(2,3) fresh n(1,2,3) newkey refl] n(4) by simp_all
    moreover have "node_ok (?n\<lparr>cn_hnext := c_buckets s1 ?b\<rparr>)" using n(1) by (simp add: node_ok_def)
    ultimately show thesis
      using new [of p ?s' xs1 "?n\<lparr>cn_hnext := c_buckets s1 ?b\<rparr>"] s1(4) nm by simp
  qed
qed

lemma dns_cache_put_ok:
  assumes rel: "cache_rel s es" and args: "put_args_ok calloc name ans n"
    and ttl: "put_ttl (min n DNS_MAX_ANSWERS) ans = Ok ttl"
  shows "\<exists>s'. dns_cache_put calloc t now name qtype ans n rcode s = Ok s' \<and>
    (cache_rel s' (spec_put now ttl name qtype (put_answers ans n) rcode es) \<or>
     find_key name qtype es = None \<and> calloc (c_heap s') = None \<and> cache_rel s' (spec_room now es))"
proof -
  obtain xs where ok: "cache_ok s xs" and es: "es = entries (c_heap s) xs" using rel by (auto simp: cache_rel_def)
  define f where "f = (\<lambda>m. (fill_node (min n DNS_MAX_ANSWERS) ans rcode m)\<lparr>cn_expires := now + int (unat ttl)\<rparr>)"
  have keep: "cn_name (f m) = cn_name m" "cn_qtype (f m) = cn_qtype m" "cn_hnext (f m) = cn_hnext m"
      "cn_prev (f m) = cn_prev m" "cn_next (f m) = cn_next m" for m by (simp_all add: f_def fill_node_def)
  have put: "dns_cache_put calloc t now name qtype ans n rcode s =
     res_bind (bucket_find (dns_key_hash name qtype) name qtype s) (\<lambda>g.
      res_bind (case g of
          None \<Rightarrow> insert_new calloc t now (dns_key_hash name qtype) name qtype s
        | Some p \<Rightarrow> res_bind (lru_unlink p s) (\<lambda>s1. Ok (Some p, s1))) (\<lambda>(r, s1).
      case r of
        None \<Rightarrow> Ok s1
      | Some p \<Rightarrow> res_bind (upd_node p f s1) (lru_push_front p)))"
  proof -
    have "(if n > DNS_MAX_ANSWERS then DNS_MAX_ANSWERS else n) = min n DNS_MAX_ANSWERS" by simp
    then show ?thesis unfolding dns_cache_put_def Let_def by (simp only: ttl res_bind.simps f_def)
  qed
  have finish: "\<exists>s2. res_bind (upd_node p f s1) (lru_push_front p) = Ok s2 \<and>
      cache_rel s2 (\<lparr>e_name = lower name, e_qtype = qtype, e_ans = put_answers ans n, e_rcode = rcode,
         e_expires = now + int (unat ttl)\<rparr> # entries (c_heap s1) ys)"
    if det: "detached s1 p ys" "c_heap s1 p = Some m" "node_ok m" "lower (cn_name m) = lower name" "cn_qtype m = qtype"
    for s1 p ys m
  proof -
    note fm = fill_node_ok [OF args det(3) f_def]
    note upd = update_detached [where f = f, OF det(1,2) fm(1) keep]
    from push_detached [OF upd(2)] obtain s2 where
      s2: "lru_push_front p (s1\<lparr>c_heap := (c_heap s1)(p \<mapsto> f m)\<rparr>) = Ok s2" "cache_ok s2 (p # ys)"
        "contents ((c_heap s1)(p \<mapsto> f m)) = contents (c_heap s2)" by auto
    have "set (p # ys) \<subseteq> dom ((c_heap s1)(p \<mapsto> f m))" using upd(2) by (auto simp: detached_def nodes_ok_def)
    from entries_contents [OF s2(3) this] have "entries (c_heap s2) (p # ys) = entry_of (f m) # entries (c_heap s1) ys"
      using upd(3) by simp
    then show ?thesis using s2 upd(1) fm(2) det(4,5) by (auto simp: cache_rel_def)
  qed
  from ok show ?thesis
  proof (cases rule: bucket_find_ok [where name = name and qtype = qtype])
    case miss
    from ok miss(2) args show ?thesis
    proof (cases rule: insert_new_ok [where t = t and now = now])
      case (full s' xs')
      then show ?thesis using miss by (auto simp: put cache_rel_def es)
    next
      case (new s' xs' p m)
      from finish [OF new(2,4,5)] new(6,7) obtain s2 where
        "res_bind (upd_node p f s') (lru_push_front p) = Ok s2"
        "cache_rel s2 (spec_put now ttl name qtype (put_answers ans n) rcode es)"
        by (auto simp: spec_put_def miss es new(3))
      then show ?thesis using miss new(1) by (auto simp: put)
    qed
  next
    case (hit us x vs m)
    from unlink_detached [of s us x vs] ok hit(1) obtain s1 where
      s1: "lru_unlink x s = Ok s1" "detached s1 x (us @ vs)" "contents (c_heap s) = contents (c_heap s1)" by blast
    from contents_SomeD [OF s1(3) hit(3)] obtain m' where
      m': "c_heap s1 x = Some m'" "cn_name m' = cn_name m" "cn_qtype m' = cn_qtype m" by metis
    have "set xs = dom (c_heap s)" using ok by (simp add: cache_ok_def nodes_ok_def)
    then have "entries (c_heap s1) (us @ vs) = entries (c_heap s) (us @ vs)"
      by (intro entries_contents [OF s1(3)]) (auto simp: hit(1))
    moreover have "node_ok m'" using s1(2) m'(1) by (auto simp: detached_def nodes_ok_def)
    moreover have "lower (cn_name m') = lower name" "cn_qtype m' = qtype"
      using hit(6) m' by (auto simp: e_key_def entry_of_def)
    ultimately obtain s2 where "res_bind (upd_node x f s1) (lru_push_front x) = Ok s2"
        "cache_rel s2 (spec_put now ttl name qtype (put_answers ans n) rcode es)"
      using finish [OF s1(2) m'(1)] hit by (auto simp: spec_put_def es)
    then show ?thesis using hit s1(1) by (auto simp: put)
  qed
qed

section \<open>Start and end\<close>

lemma bucket_ok_empty: "bucket_ok Map.empty None {} b"
  by (simp add: bucket_ok_def)

lemma cache_ok_empty:
  assumes "c_heap s = Map.empty" "c_lru_head s = None" "c_lru_tail s = None" "c_entry_count s = 0"
    and "\<And>b. c_buckets s b = None" and "bloom_counts (c_bloom s) {#}"
  shows "cache_ok s []"
  using assms bucket_ok_empty
  by (simp add: cache_ok_def lru_ok_def nodes_ok_def entries_def hashes_def)

lemma dns_cache_init_ok: "c_heap s = Map.empty \<Longrightarrow> cache_rel (dns_cache_init s) []"
  unfolding cache_rel_def
  by (intro exI [of _ "[]"]) (simp add: cache_ok_empty dns_cache_init_def bloom_counts_reset entries_def)

lemma fini_loop_ok:
  "dseg (links (c_heap s)) p xs None \<Longrightarrow> distinct xs \<Longrightarrow> length xs \<le> fuel \<Longrightarrow>
   fini_loop fuel (first xs None) s = Ok (s\<lparr>c_heap := (c_heap s) |` (- set xs)\<rparr>)"
proof (induction xs arbitrary: p fuel s)
  case Nil
  then show ?case by (cases fuel) auto
next
  case (Cons x xs)
  then obtain k where k: "fuel = Suc k" "length xs \<le> k" by (cases fuel) auto
  obtain n where n: "c_heap s x = Some n" "cn_next n = first xs None"
    using Cons.prems(1) deref_links [of s x p "first xs None"] by auto
  define s1 where "s1 = s\<lparr>c_heap := (c_heap s)(x := None)\<rparr>"
  have "dseg (links (c_heap s1)) (Some x) xs None" "distinct xs"
    using Cons.prems links_free [of x xs "c_heap s"] by (simp_all add: s1_def)
  then have "fini_loop k (first xs None) s1 = Ok (s1\<lparr>c_heap := (c_heap s1) |` (- set xs)\<rparr>)"
    using Cons.IH k(2) by blast
  moreover have "(c_heap s1) |` (- set xs) = (c_heap s) |` (- set (x # xs))"
    by (auto simp: restrict_map_def fun_eq_iff s1_def)
  moreover have "s1\<lparr>c_heap := h\<rparr> = s\<lparr>c_heap := h\<rparr>" for h by (simp add: s1_def)
  ultimately have "fini_loop k (first xs None) s1 = Ok (s\<lparr>c_heap := (c_heap s) |` (- set (x # xs))\<rparr>)"
    by metis
  then show ?case using n k by (simp add: deref_def free_node_def s1_def)
qed

lemma dns_cache_fini_ok:
  assumes "cache_rel s es"
  shows "\<exists>s'. dns_cache_fini s = Ok s' \<and> c_heap s' = Map.empty \<and> cache_rel s' []"
proof -
  obtain xs where ok: "cache_ok s xs" using assms by (auto simp: cache_rel_def)
  have dom: "set xs = dom (c_heap s)" and hd: "c_lru_head s = first xs None"
    using ok by (auto simp: cache_ok_def lru_ok_def nodes_ok_def)
  have run: "fini_loop (CACHE_CAPACITY + 1) (c_lru_head s) s = Ok (s\<lparr>c_heap := (c_heap s) |` (- set xs)\<rparr>)"
    using fini_loop_ok [of s None xs "CACHE_CAPACITY + 1"] ok by (simp add: hd cache_ok_def lru_ok_def)
  have emp: "(c_heap s) |` (- dom (c_heap s)) = Map.empty"
    by (auto simp: restrict_map_def fun_eq_iff dom_def)
  let ?s = "s\<lparr>c_heap := Map.empty, c_buckets := \<lambda>_. None, c_lru_head := None, c_lru_tail := None,
    c_entry_count := 0, c_bloom := dns_bloom_reset (c_bloom s)\<rparr>"
  have "dns_cache_fini s = Ok ?s"
    unfolding dns_cache_fini_def run dom emp by simp
  moreover have "cache_ok ?s []" by (rule cache_ok_empty) (simp_all add: bloom_counts_reset)
  ultimately show ?thesis by (auto simp: cache_rel_def entries_def)
qed

section \<open>Time to live\<close>

lemma min_ttl_le:
  fixes m :: u32
  shows "foldl (\<lambda>t a. if an_ttl a < t then an_ttl a else t) m as \<le> m"
  and "a \<in> set as \<Longrightarrow> foldl (\<lambda>t a. if an_ttl a < t then an_ttl a else t) m as \<le> an_ttl a"
proof (induction as arbitrary: m)
  case (Cons b as)
  { case 1 show ?case using Cons.IH(1) [of "if an_ttl b < m then an_ttl b else m"] by (auto split: if_splits) }
  { case 2 then show ?case
      using Cons.IH(1) [of "if an_ttl b < m then an_ttl b else m"]
        Cons.IH(2) [of "if an_ttl b < m then an_ttl b else m"] by (auto split: if_splits) }
qed simp_all

lemma put_ttl_bounds:
  assumes "put_ttl n ans = Ok ttl"
  shows "CACHE_MIN_TTL \<le> ttl" "ttl \<le> CACHE_MAX_TTL"
    and "n \<noteq> 0 \<Longrightarrow> ans = Some as \<Longrightarrow> a \<in> set (take n as) \<Longrightarrow> ttl \<le> max CACHE_MIN_TTL (an_ttl a)"
  using assms min_ttl_le(1) [of CACHE_MAX_TTL "take n as"] min_ttl_le(2) [of a "take n as" CACHE_MAX_TTL]
  by (auto simp: put_ttl_def clamp_ttl_def CACHE_MIN_TTL_def CACHE_MAX_TTL_def CACHE_NEG_TTL_def max_def
      split: if_splits option.splits)

lemma cache_rel_facts:
  assumes "cache_rel s es"
  shows "length es = c_entry_count s" "length es \<le> CACHE_CAPACITY" "distinct (map e_key es)"
    "finite (dom (c_heap s))" "card (dom (c_heap s)) = length es"
  using assms cache_ok_card
  by (auto simp: cache_rel_def cache_ok_def nodes_ok_def entries_def)

section \<open>The cache interface\<close>

text \<open>
  What the resolver relies on: a lookup and a store that never fault and act on the abstract
  list as \<open>spec_get\<close> and \<open>spec_put\<close> do. A store may only decline a new key when \<^verbatim>\<open>calloc\<close> fails.
\<close>

locale answer_cache =
  fixes look :: "nat \<Rightarrow> int \<Rightarrow> cstring \<Rightarrow> u16 \<Rightarrow> nat \<Rightarrow> 's \<Rightarrow> ((dns_answer list \<times> u16) option \<times> 's) res"
    and stash :: "(node_heap \<Rightarrow> nat option) \<Rightarrow> nat \<Rightarrow> int \<Rightarrow> cstring \<Rightarrow> u16 \<Rightarrow> dns_answer list option \<Rightarrow>
      nat \<Rightarrow> u16 \<Rightarrow> 's \<Rightarrow> 's res"
    and rel :: "'s \<Rightarrow> entry list \<Rightarrow> bool"
  assumes look_refines: "rel s es \<Longrightarrow> spec_get now name qtype cap es = (r, es') \<Longrightarrow>
      \<exists>s'. look t now name qtype cap s = Ok (r, s') \<and> rel s' es'"
    and stash_refines: "rel s es \<Longrightarrow> put_args_ok calloc name ans n \<Longrightarrow>
      put_ttl (min n DNS_MAX_ANSWERS) ans = Ok ttl \<Longrightarrow>
      \<exists>s'. stash calloc t now name qtype ans n rcode s = Ok s' \<and>
        (rel s' (spec_put now ttl name qtype (put_answers ans n) rcode es) \<or>
         (\<exists>h. finite (dom h) \<and> calloc h = None) \<and> find_key name qtype es = None \<and> rel s' (spec_room now es))"
begin

lemma look_total:
  assumes "rel s es"
  shows "\<exists>r s' es'. look t now name qtype cap s = Ok (r, s') \<and> rel s' es'"
  using look_refines [OF assms, of now name qtype cap] by (metis surj_pair)

lemma stash_total:
  assumes "rel s es" "put_args_ok calloc name ans n"
  shows "\<exists>s' es'. stash calloc t now name qtype ans n rcode s = Ok s' \<and> rel s' es'"
  using stash_refines [OF assms] put_ttl_ok [OF assms(2)] by metis

text \<open>A stored set is served to any spelling of its name until its time is up, and not after.\<close>

lemma stash_then_look:
  assumes "rel s es" "put_args_ok calloc name ans n" "\<And>h. finite (dom h) \<Longrightarrow> calloc h \<noteq> None"
    and "put_ttl (min n DNS_MAX_ANSWERS) ans = Ok ttl" "dns_name_equal name' name"
  shows "\<exists>s1 s2. stash calloc t now name qtype ans n rcode s = Ok s1 \<and>
    look t' now' name' qtype cap s1 =
      Ok (if now + int (unat ttl) \<le> now' then None
          else Some (map (\<lambda>a. a\<lparr>an_ttl := word_of_int (now + int (unat ttl) - now')\<rparr>)
                 (take cap (put_answers ans n)), rcode), s2)"
proof -
  let ?es = "spec_put now ttl name qtype (put_answers ans n) rcode es"
  obtain s1 where s1: "stash calloc t now name qtype ans n rcode s = Ok s1" "rel s1 ?es"
    using stash_refines [OF assms(1,2,4)] assms(3) by metis
  have "find_key name' qtype ?es = Some (hd ?es)"
    using assms(5) by (simp add: spec_put_def find_key_def e_key_def dns_name_equal_iff)
  then have "fst (spec_get now' name' qtype cap ?es) =
      (if now + int (unat ttl) \<le> now' then None
          else Some (map (\<lambda>a. a\<lparr>an_ttl := word_of_int (now + int (unat ttl) - now')\<rparr>)
                 (take cap (put_answers ans n)), rcode))"
    by (simp add: spec_get_def) (simp add: spec_put_def)
  moreover obtain r es' where r: "spec_get now' name' qtype cap ?es = (r, es')" by force
  moreover obtain s2 where "look t' now' name' qtype cap s1 = Ok (r, s2)"
    using look_refines [OF s1(2) r] by blast
  ultimately show ?thesis using s1(1) by auto
qed

end

interpretation lru: answer_cache dns_cache_get dns_cache_put cache_rel
proof
  fix s es calloc name ans n ttl t now qtype rcode
  assume "cache_rel s es" "put_args_ok calloc name ans n" "put_ttl (min n DNS_MAX_ANSWERS) ans = Ok ttl"
  from dns_cache_put_ok [OF this, of t now qtype rcode]
  show "\<exists>s'. dns_cache_put calloc t now name qtype ans n rcode s = Ok s' \<and>
        (cache_rel s' (spec_put now ttl name qtype (put_answers ans n) rcode es) \<or>
         (\<exists>h. finite (dom h) \<and> calloc h = None) \<and> find_key name qtype es = None \<and> cache_rel s' (spec_room now es))"
    using cache_rel_facts(4) by blast
qed (use dns_cache_get_ok in blast)

section \<open>Histories\<close>

text \<open>A history of lookups and stores, each at its own time and by its own thread.\<close>

datatype cache_op =
  CGet nat int cstring u16 nat
| CPut "node_heap \<Rightarrow> nat option" nat int cstring u16 "dns_answer list option" nat u16

fun cache_step :: "cache_op \<Rightarrow> cache \<Rightarrow> cache res" where
  "cache_step (CGet t now name qtype cap) s =
     res_bind (dns_cache_get t now name qtype cap s) (\<lambda>(_, s'). Ok s')"
| "cache_step (CPut calloc t now name qtype ans n rcode) s =
     dns_cache_put calloc t now name qtype ans n rcode s"

fun cache_run :: "cache_op list \<Rightarrow> cache \<Rightarrow> cache res" where
  "cache_run [] s = Ok s"
| "cache_run (c # cs) s = res_bind (cache_step c s) (cache_run cs)"

fun cache_op_ok :: "cache_op \<Rightarrow> bool" where
  "cache_op_ok (CGet t now name qtype cap) = True"
| "cache_op_ok (CPut calloc t now name qtype ans n rcode) = put_args_ok calloc name ans n"

lemma cache_step_ok:
  assumes "cache_rel s es" "cache_op_ok c"
  shows "\<exists>s' es'. cache_step c s = Ok s' \<and> cache_rel s' es'"
proof (cases c)
  case (CGet t now name qtype cap)
  obtain r s' es' where "dns_cache_get t now name qtype cap s = Ok (r, s')" "cache_rel s' es'"
    using lru.look_total [OF assms(1)] by blast
  then show ?thesis using CGet by auto
next
  case (CPut calloc t now name qtype ans n rcode)
  then show ?thesis using lru.stash_total [OF assms(1)] assms(2) by simp
qed

lemma cache_run_ok:
  "cache_rel s es \<Longrightarrow> list_all cache_op_ok cs \<Longrightarrow> \<exists>s' es'. cache_run cs s = Ok s' \<and> cache_rel s' es'"
proof (induction cs arbitrary: s es)
  case (Cons c cs)
  then obtain s1 es1 where "cache_step c s = Ok s1" "cache_rel s1 es1" using cache_step_ok by force
  then show ?case using Cons by fastforce
qed auto

subsection \<open>A full cache\<close>

lemma spec_room_full:
  assumes "length es = CACHE_CAPACITY" "distinct (map e_key es)" "\<forall>e\<in>set es. now < e_expires e"
  shows "spec_room now es = butlast es"
proof -
  have ne: "es \<noteq> []" using assms(1) by (auto simp: CACHE_CAPACITY_def)
  have "find (\<lambda>e. e_expires e \<le> now) (take 8 (rev es)) = None"
    using assms(3) by (fastforce simp: find_None_iff dest: in_set_takeD)
  then have "spec_victim now es = Some (last es)" using ne by (simp add: spec_victim_def)
  moreover have "remove1 (last es) (butlast es @ [last es]) = butlast es"
    using keys_remove1 [of "butlast es" "last es" "[]"] assms(2) ne by simp
  ultimately show ?thesis using ne assms(1) by (simp add: spec_room_def spec_evict_def)
qed

text \<open>An allocator that finds a free address whenever there is one.\<close>

definition any_free :: "node_heap \<Rightarrow> nat option" where
  "any_free h = (if \<exists>p. h p = None then Some (SOME p. h p = None) else None)"

lemma any_free_args: "length name \<le> DNS_MAX_NAME \<Longrightarrow> put_args_ok any_free name None 0"
  by (auto simp: put_args_ok_def any_free_def intro: someI split: if_splits)

lemma any_free_finite:
  assumes "finite (dom h)"
  shows "any_free h \<noteq> None"
proof -
  have "dom h \<noteq> UNIV" using assms infinite_UNIV_nat by metis
  then have "\<exists>p. h p = None" by auto
  then show ?thesis by (simp add: any_free_def)
qed

lemma fill_cache:
  "k \<le> CACHE_CAPACITY \<Longrightarrow> \<exists>s es. cache_rel s es \<and> length es = k \<and>
     (\<forall>e\<in>set es. e_name e = [] \<and> unat (e_qtype e) < k \<and> e_expires e = 60)"
proof (induction k)
  case 0
  show ?case using dns_cache_init_ok [of cache_static] by (auto simp: cache_static_def)
next
  case (Suc k)
  then obtain s es where s: "cache_rel s es" "length es = k"
    "\<forall>e\<in>set es. e_name e = [] \<and> unat (e_qtype e) < k \<and> e_expires e = 60" by auto
  let ?q = "of_nat k :: u16"
  have uq: "unat ?q = k" using Suc.prems by (simp add: unat_of_nat CACHE_CAPACITY_def)
  have nokey: "find_key [] ?q es = None"
    using s(3) uq by (auto simp: find_key_def find_None_iff e_key_def)
  have ttl: "put_ttl (min 0 DNS_MAX_ANSWERS) None = Ok CACHE_NEG_TTL" by (simp add: put_ttl_def)
  have args: "put_args_ok any_free [] None 0" by (rule any_free_args) simp
  obtain s' where "cache_rel s' (spec_put 0 CACHE_NEG_TTL [] ?q (put_answers None 0) 3 es)"
    using lru.stash_refines [OF s(1) args ttl, of 0 0 ?q 3] any_free_finite by blast
  moreover have "spec_room 0 es = es" using s(2) Suc.prems by (simp add: spec_room_def)
  ultimately show ?case
    using s nokey uq
    by (intro exI [of _ s'] exI [of _ "spec_put 0 CACHE_NEG_TTL [] ?q (put_answers None 0) 3 es"])
      (auto simp: spec_put_def lower_def CACHE_NEG_TTL_def)
qed

section \<open>Properties\<close>

text \<open>C11: \<open>dns_cache_get\<close> refines the abstract lookup. From any state that represents the list
  \<open>es\<close> it returns normally: no freed or null pointer is followed, no array is left and the
  chain walk ends, whether the filter answers without the lock or not. The answer is that of
  \<open>spec_get\<close>, with the remaining lifetime as TTL, the new state represents the new list, and
  exactly one of the hit and miss counters goes up.\<close>

theorem cache_get_refines:
  assumes "cache_rel s es"
  shows "\<exists>r s' es'. spec_get now name qtype cap es = (r, es') \<and>
    dns_cache_get t now name qtype cap s = Ok (r, s') \<and> cache_rel s' es' \<and>
    c_hits s' = c_hits s + (if r = None then 0 else 1) \<and> c_misses s' = c_misses s + (if r = None then 1 else 0)"
  using dns_cache_get_ok [OF assms] by (cases "spec_get now name qtype cap es") blast

theorem cache_get_refines_witness:
  "\<exists>s'. dns_cache_get 0 100 (ascii ''a.io'') 1 8 (dns_cache_init cache_static) = Ok (None, s') \<and> c_misses s' = 1"
proof -
  have rel: "cache_rel (dns_cache_init cache_static) []"
    by (rule dns_cache_init_ok) (simp add: cache_static_def)
  show ?thesis
    using cache_get_refines [OF rel, of 100 "ascii ''a.io''" 1 8 0]
    by (auto simp: spec_get_def find_key_def dns_cache_init_def)
qed

text \<open>C12: \<open>dns_cache_put\<close> refines the abstract store. For a name that fits its buffer, an
  allocator that returns unused addresses and an answer array as long as its count, it returns
  normally with the whole structure intact, its eviction loop included. The set becomes the
  most recently used entry; a new key in a full cache costs one victim. Only when
  \<^verbatim>\<open>calloc\<close> fails for a new key is nothing stored.\<close>

theorem cache_put_refines:
  assumes "cache_rel s es" "put_args_ok calloc name ans n"
  shows "\<exists>ttl s'. put_ttl (min n DNS_MAX_ANSWERS) ans = Ok ttl \<and>
    dns_cache_put calloc t now name qtype ans n rcode s = Ok s' \<and>
    (cache_rel s' (spec_put now ttl name qtype (put_answers ans n) rcode es) \<or>
     find_key name qtype es = None \<and> calloc (c_heap s') = None \<and> cache_rel s' (spec_room now es))"
  using dns_cache_put_ok [OF assms] put_ttl_ok [OF assms(2)] by metis

theorem cache_put_refines_witness:
  "\<exists>s'. dns_cache_put (\<lambda>h. if h 1 = None then Some 1 else None) 0 100 (ascii ''a.io'') 1 None 0 3
     (dns_cache_init cache_static) = Ok s'"
proof -
  have rel: "cache_rel (dns_cache_init cache_static) []"
    by (rule dns_cache_init_ok) (simp add: cache_static_def)
  have "put_args_ok (\<lambda>h. if h 1 = None then Some 1 else None) (ascii ''a.io'') None 0"
    by (auto simp: put_args_ok_def ascii_def split: if_splits)
  from cache_put_refines [OF rel this, of 0 100 1 3] show ?thesis by blast
qed

text \<open>C13: Store then look up. A stored set is served under any spelling of its name, cut to the
  caller's capacity, with the stored rcode and with TTLs counting down from the clamped minimum
  of the set; from the second it expires it is a miss. The lifetime lies in the clamp range and
  never exceeds that of a member above the lower clamp.\<close>

theorem cache_put_get:
  assumes "cache_rel s es" "put_args_ok calloc name ans n" "\<And>h. finite (dom h) \<Longrightarrow> calloc h \<noteq> None"
    and "dns_name_equal name' name"
  shows "\<exists>ttl s1 s2. put_ttl (min n DNS_MAX_ANSWERS) ans = Ok ttl \<and>
    CACHE_MIN_TTL \<le> ttl \<and> ttl \<le> CACHE_MAX_TTL \<and>
    list_all (\<lambda>a. ttl \<le> max CACHE_MIN_TTL (an_ttl a)) (put_answers ans n) \<and>
    dns_cache_put calloc t now name qtype ans n rcode s = Ok s1 \<and>
    dns_cache_get t' now' name' qtype cap s1 =
      Ok (if now + int (unat ttl) \<le> now' then None
          else Some (map (\<lambda>a. a\<lparr>an_ttl := word_of_int (now + int (unat ttl) - now')\<rparr>)
                 (take cap (put_answers ans n)), rcode), s2)"
proof -
  obtain ttl where ttl: "put_ttl (min n DNS_MAX_ANSWERS) ans = Ok ttl" using put_ttl_ok [OF assms(2)] by blast
  have "list_all (\<lambda>a. ttl \<le> max CACHE_MIN_TTL (an_ttl a)) (put_answers ans n)"
    using put_ttl_bounds(3) [OF ttl]
    by (cases "n = 0") (auto simp: list_all_iff put_answers_def DNS_MAX_ANSWERS_def split: option.splits)
  then show ?thesis
    using lru.stash_then_look [OF assms(1,2,3) ttl assms(4)] put_ttl_bounds(1,2) [OF ttl] ttl by blast
qed

theorem cache_put_get_witness:
  "\<exists>ttl s1 s2. dns_cache_put any_free 0 100 (ascii ''a.io'') 1 None 0 3 (dns_cache_init cache_static) = Ok s1 \<and>
     dns_cache_get 1 150 (ascii ''A.IO'') 1 8 s1 =
       Ok (if 100 + int (unat ttl) \<le> 150 then None else Some ([], 3), s2) \<and> ttl = CACHE_NEG_TTL"
proof -
  have rel: "cache_rel (dns_cache_init cache_static) []"
    by (rule dns_cache_init_ok) (simp add: cache_static_def)
  have args: "put_args_ok any_free (ascii ''a.io'') None 0" by (rule any_free_args) (simp add: ascii_def)
  have eq: "dns_name_equal (ascii ''A.IO'') (ascii ''a.io'')" by code_simp
  show ?thesis
    using cache_put_get [OF rel args any_free_finite eq, of 0 100 1 3 1 150 8]
    by (auto simp: put_answers_def put_ttl_def)
qed

text \<open>C14: A full cache evicts in LRU order. When all 4096 entries are live, storing a new key
  drops exactly the least recently used entry and keeps every other, in order.\<close>

theorem cache_lru_eviction:
  assumes "cache_rel s es" "put_args_ok calloc name ans n" "\<And>h. finite (dom h) \<Longrightarrow> calloc h \<noteq> None"
    and "length es = CACHE_CAPACITY" "\<forall>e\<in>set es. now < e_expires e" "find_key name qtype es = None"
  shows "\<exists>s' e. dns_cache_put calloc t now name qtype ans n rcode s = Ok s' \<and>
    cache_rel s' (e # butlast es) \<and> e_key e = (lower name, qtype) \<and> e_ans e = put_answers ans n"
proof -
  obtain ttl where ttl: "put_ttl (min n DNS_MAX_ANSWERS) ans = Ok ttl" using put_ttl_ok [OF assms(2)] by blast
  obtain s' where s': "dns_cache_put calloc t now name qtype ans n rcode s = Ok s'"
      "cache_rel s' (spec_put now ttl name qtype (put_answers ans n) rcode es)"
    using lru.stash_refines [OF assms(1,2) ttl, of t now qtype rcode] assms(3) by blast
  have "spec_room now es = butlast es"
    by (rule spec_room_full [OF assms(4) cache_rel_facts(3) [OF assms(1)] assms(5)])
  then show ?thesis using s' assms(6) by (auto simp: spec_put_def e_key_def)
qed

theorem cache_lru_eviction_witness:
  "\<exists>s es s' e. length es = CACHE_CAPACITY \<and> cache_rel s es \<and>
     dns_cache_put any_free 0 0 (ascii ''a.io'') 1 None 0 3 s = Ok s' \<and> cache_rel s' (e # butlast es)"
proof -
  obtain s es where s: "cache_rel s es" "length es = CACHE_CAPACITY"
      "\<forall>e\<in>set es. e_name e = [] \<and> unat (e_qtype e) < CACHE_CAPACITY \<and> e_expires e = 60"
    using fill_cache [OF order_refl] by blast
  have args: "put_args_ok any_free (ascii ''a.io'') None 0" by (rule any_free_args) (simp add: ascii_def)
  have "find_key (ascii ''a.io'') 1 es = None"
    using s(3) by (auto simp: find_key_def find_None_iff e_key_def ascii_def lower_def)
  then show ?thesis
    using cache_lru_eviction [OF s(1) args any_free_finite s(2), of 0 1 0 3] s by auto
qed

text \<open>C15: The life of the cache. From \<open>dns_cache_init\<close> with no node allocated, any sequence of
  lookups and stores by any threads, with any clock readings, runs without a fault; the entry
  count never exceeds \<open>CACHE_CAPACITY\<close>, equals the number of nodes allocated, and no key is stored
  twice; and \<open>dns_cache_fini\<close> then frees every node exactly once.\<close>

theorem cache_lifecycle:
  assumes "list_all cache_op_ok cs" "c_heap s = Map.empty"
  shows "\<exists>s' es s''. cache_run cs (dns_cache_init s) = Ok s' \<and> cache_rel s' es \<and>
    c_entry_count s' \<le> CACHE_CAPACITY \<and> card (dom (c_heap s')) = c_entry_count s' \<and>
    distinct (map e_key es) \<and>
    dns_cache_fini s' = Ok s'' \<and> c_heap s'' = Map.empty \<and> cache_rel s'' []"
proof -
  obtain s' es where run: "cache_run cs (dns_cache_init s) = Ok s'" and rel: "cache_rel s' es"
    using cache_run_ok [OF dns_cache_init_ok [OF assms(2)] assms(1)] by blast
  obtain s'' where "dns_cache_fini s' = Ok s''" "c_heap s'' = Map.empty" "cache_rel s'' []"
    using dns_cache_fini_ok [OF rel] by blast
  with run rel show ?thesis
    using cache_rel_facts [OF rel] by (intro exI [of _ s'] exI [of _ es] exI [of _ s'']) auto
qed

theorem cache_lifecycle_witness:
  "\<exists>s' s''. cache_run [CPut any_free 0 0 (ascii ''a.io'') 1 None 0 3, CGet 1 90 (ascii ''A.io'') 1 8]
     (dns_cache_init cache_static) = Ok s' \<and> dns_cache_fini s' = Ok s''"
proof -
  have "put_args_ok any_free (ascii ''a.io'') None 0" by (rule any_free_args) (simp add: ascii_def)
  then show ?thesis
    using cache_lifecycle [of "[CPut any_free 0 0 (ascii ''a.io'') 1 None 0 3, CGet 1 90 (ascii ''A.io'') 1 8]" cache_static]
    by (auto simp: cache_static_def simp del: cache_run.simps)
qed

end
