(* ===== verification/Inet.thy ===== *)
theory Inet
  imports Prelude
begin

text \<open>
  Textual IPv4 addresses, as the C library prints and parses them: \<^verbatim>\<open>inet_ntop(AF_INET, ...)\<close> and
  \<^verbatim>\<open>inet_pton(AF_INET, ...)\<close>. The resolver keeps server addresses as strings in buffers of
  \<^verbatim>\<open>INET_ADDRSTRLEN\<close> bytes. The parser is the one of the C library: at most four octets, no
  leading zeros, no octet above 255, nothing else in the string. At the end, numbers as
  \<^verbatim>\<open>snprintf\<close> prints them.
\<close>

section \<open>Definitions\<close>

definition INET_ADDRSTRLEN :: nat where "INET_ADDRSTRLEN = 16"

definition digit :: "nat \<Rightarrow> byte" where
  "digit d = of_nat (48 + d)"

definition print_octet :: "byte \<Rightarrow> cstring" where
  "print_octet b = (let n = unat b in
     if n < 10 then [digit n]
     else if n < 100 then [digit (n div 10), digit (n mod 10)]
     else [digit (n div 100), digit (n div 10 mod 10), digit (n mod 10)])"

fun inet_ntop :: "bytes \<Rightarrow> cstring" where
  "inet_ntop [] = []"
| "inet_ntop [b] = print_octet b"
| "inet_ntop (b # bs) = print_octet b @ 46 # inet_ntop bs"

fun pton_loop :: "bool \<Rightarrow> nat \<Rightarrow> bytes \<Rightarrow> nat \<Rightarrow> cstring \<Rightarrow> bytes option" where
  "pton_loop saw_digit octets tp cur [] = (if octets < 4 then None else Some (tp @ [of_nat cur]))"
| "pton_loop saw_digit octets tp cur (ch # src) =
     (if 48 \<le> ch \<and> ch \<le> 57 then
        (let new = cur * 10 + (unat ch - 48) in
         if saw_digit \<and> cur = 0 then None
         else if new > 255 then None
         else if \<not> saw_digit then
           (if octets + 1 > 4 then None else pton_loop True (octets + 1) tp new src)
         else pton_loop True octets tp new src)
      else if ch = 46 \<and> saw_digit then
        (if octets = 4 then None else pton_loop False octets (tp @ [of_nat cur]) 0 src)
      else None)"

definition inet_pton :: "cstring \<Rightarrow> bytes option" where
  "inet_pton src = pton_loop False 0 [] 0 src"

section \<open>Round trip\<close>

lemma digit_simps:
  assumes "d < 10"
  shows "48 \<le> digit d" "digit d \<le> 57" "unat (digit d) = 48 + d" "digit d \<noteq> 46" "digit d \<noteq> 0"
proof -
  show u: "unat (digit d) = 48 + d" using assms by (simp add: digit_def unat_of_nat del: of_nat_add)
  show "48 \<le> digit d" "digit d \<le> 57" "digit d \<noteq> 46" "digit d \<noteq> 0"
    using assms u by (auto simp: word_le_nat_alt word_unat_eq_iff)
qed

lemma pton_octet:
  assumes "octets < 4"
  shows "pton_loop False octets tp 0 (print_octet b @ rest) = pton_loop True (Suc octets) tp (unat b) rest"
proof -
  define n where "n = unat b"
  have n: "n < 256" by (simp add: n_def unat_byte_less)
  have eq: "10 * (n div 10) + n mod 10 = n" "10 * (n div 100) + n div 10 mod 10 = n div 10"
    using div_mult2_eq [of n 10 10] by simp_all
  consider "n < 10" | "10 \<le> n" "n < 100" | "100 \<le> n" by linarith
  then show ?thesis
  proof cases
    case 1
    then show ?thesis using assms by (simp add: print_octet_def digit_simps flip: n_def)
  next
    case 2
    then have d: "n div 10 < 10" "n mod 10 < 10" "n div 10 \<noteq> 0" by auto
    then have "n div 10 * 10 + n mod 10 = n" by simp
    then show ?thesis using 2 assms d n by (simp add: print_octet_def digit_simps Let_def flip: n_def)
  next
    case 3
    define x y z where "x = n div 100" and "y = n div 10 mod 10" and "z = n mod 10"
    have po: "print_octet b = [digit x, digit y, digit z]"
      using 3 by (simp add: print_octet_def Let_def x_def y_def z_def flip: n_def)
    have xy: "x * 10 + y = n div 10" using eq(2) by (simp add: x_def y_def)
    have d: "x < 10" "y < 10" "z < 10" "x \<noteq> 0" "(x * 10 + y) * 10 + z = n" "x * 10 + y \<le> 255"
      unfolding xy using 3 n by (auto simp: x_def y_def z_def)
    show ?thesis using assms d n by (simp add: po digit_simps Let_def flip: n_def)
  qed
qed

lemma pton_dot: "octets \<noteq> 4 \<Longrightarrow> pton_loop True octets tp cur (46 # src) = pton_loop False octets (tp @ [of_nat cur]) 0 src"
  by simp

lemma inet_pton_ntop:
  assumes "length bs = 4"
  shows "inet_pton (inet_ntop bs) = Some bs"
proof -
  obtain a b c d where bs: "bs = [a, b, c, d]"
    using assms by (auto simp: length_Suc_conv numeral_eq_Suc)
  have last: "octets < 4 \<Longrightarrow> pton_loop False octets tp 0 (print_octet b) = pton_loop True (Suc octets) tp (unat b) []"
    for octets tp b using pton_octet [of octets tp b "[]"] by simp
  show ?thesis
    unfolding inet_pton_def bs
    by (simp add: pton_octet pton_dot last del: pton_loop.simps(2))
qed

lemma length_print_octet: "length (print_octet b) \<le> 3" "0 < length (print_octet b)"
  by (simp_all add: print_octet_def Let_def)

lemma inet_ntop_fits:
  assumes "length bs = 4"
  shows "length (inet_ntop bs) < INET_ADDRSTRLEN"
proof -
  obtain a b c d where bs: "bs = [a, b, c, d]"
    using assms by (auto simp: length_Suc_conv numeral_eq_Suc)
  show ?thesis
    using length_print_octet(1) [of a] length_print_octet(1) [of b] length_print_octet(1) [of c]
      length_print_octet(1) [of d]
    by (simp add: bs INET_ADDRSTRLEN_def)
qed

lemma is_cstr_inet_ntop: "is_cstr (inet_ntop bs)"
proof -
  have "is_cstr (print_octet b)" for b
    using unat_byte_less [of b] by (auto simp: print_octet_def Let_def is_cstr_def digit_simps)
  then show ?thesis
    by (induction bs rule: inet_ntop.induct) (auto simp: is_cstr_def)
qed

text \<open>
  The copies of an address through \<open>INET_ADDRSTRLEN\<close> buffers lose nothing: what is parsed is what
  was printed.
\<close>

lemma inet_pton_copied: "length bs = 4 \<Longrightarrow> inet_pton (take (INET_ADDRSTRLEN - 1) (inet_ntop bs)) = Some bs"
  using inet_pton_ntop [of bs] inet_ntop_fits [of bs] by simp

section \<open>Decimal numbers\<close>

text \<open>A number as the \<^verbatim>\<open>%d\<close> and \<^verbatim>\<open>%u\<close> conversions of \<^verbatim>\<open>snprintf\<close> print it.\<close>

function decimal :: "nat \<Rightarrow> cstring" where
  "decimal n = (if n < 10 then [digit n] else decimal (n div 10) @ [digit (n mod 10)])"
  by pat_completeness auto
termination
  by (relation "measure id") auto

declare decimal.simps [simp del]

lemma decimal_digits: "decimal n \<noteq> [] \<and> (\<forall>c \<in> set (decimal n). 48 \<le> c \<and> c \<le> 57 \<and> c \<noteq> 46 \<and> c \<noteq> 0)"
proof (induction n rule: decimal.induct)
  case (1 n)
  then show ?case using digit_simps [of n] digit_simps [of "n mod 10"] by (cases "n < 10") (auto simp: decimal.simps [of n])
qed

lemma decimal_length: "n < 10 ^ k \<Longrightarrow> 0 < k \<Longrightarrow> length (decimal n) \<le> k"
proof (induction n arbitrary: k rule: decimal.induct)
  case (1 n)
  show ?case
  proof (cases "n < 10")
    case True
    then show ?thesis using 1(3) by (simp add: decimal.simps [of n])
  next
    case False
    obtain j where j: "k = Suc j" using 1(3) by (cases k) auto
    have "0 < j" using False 1(2) j by (cases j) auto
    moreover have "n div 10 < 10 ^ j" using 1(2) j by (simp add: less_mult_imp_div_less mult.commute)
    ultimately have "length (decimal (n div 10)) \<le> j" using 1(1) [OF False] by blast
    then show ?thesis using False j by (simp add: decimal.simps [of n])
  qed
qed

definition decimal_value :: "cstring \<Rightarrow> nat" where
  "decimal_value cs = foldl (\<lambda>v c. v * 10 + (unat c - 48)) 0 cs"

lemma decimal_value: "decimal_value (decimal n) = n"
proof (induction n rule: decimal.induct)
  case (1 n)
  then show ?case
    using digit_simps(3) [of n] digit_simps(3) [of "n mod 10"]
    by (cases "n < 10") (auto simp: decimal.simps [of n] decimal_value_def)
qed

lemma decimal_inj [simp]: "decimal m = decimal n \<longleftrightarrow> m = n"
  using decimal_value by metis

end
