(* ===== verification/Dissect.thy ===== *)
theory Dissect
  imports DnsMsg Inet
begin

text \<open>
  Taking an upstream response apart (\<^verbatim>\<open>dissect\<close> of \<^verbatim>\<open>resolver.c\<close>): which records of the answer,
  authority and additional sections the resolver accepts, as functions of the message, the name
  asked for and the zone the server speaks for.
\<close>

section \<open>Definitions\<close>

definition MAX_CNAME_HOPS :: nat where "MAX_CNAME_HOPS = 8"
definition MAX_NS_CANDIDATES :: nat where "MAX_NS_CANDIDATES = 8"

text \<open>\<^verbatim>\<open>snprintf(dst, cap, "%s", s)\<close>: the copy is cut to the buffer.\<close>

definition snprintf :: "nat \<Rightarrow> cstring \<Rightarrow> cstring" where
  "snprintf cap s = take (cap - 1) s"

text \<open>A referral: the delegated zone, and the name of each server with its address once known.\<close>

record referral =
  ref_zone :: cstring
  ref_ns :: "(cstring \<times> cstring option) list"

fun skip_questions :: "bytes \<Rightarrow> nat \<Rightarrow> nat \<Rightarrow> nat res" where
  "skip_questions msg off 0 = Ok off"
| "skip_questions msg off (Suc k) =
     res_bind (dns_skip_question msg off) (\<lambda>off'. skip_questions msg off' k)"

text \<open>The mutable state of a pass over the answer section.\<close>

record pass_state =
  p_chain :: "cstring list"
  p_ans :: "dns_answer list"
  p_cname :: cstring

definition push_answer :: "nat \<Rightarrow> dns_answer \<Rightarrow> dns_answer list \<Rightarrow> dns_answer list" where
  "push_answer cap a ans = (if length ans < cap then ans @ [a] else ans)"

definition accept_cname :: "cstring \<Rightarrow> nat \<Rightarrow> dns_rr \<Rightarrow> cstring \<Rightarrow> pass_state \<Rightarrow> pass_state" where
  "accept_cname qname cap rr target p =
     p\<lparr>p_ans := push_answer cap
          \<lparr>an_type = DNS_TYPE_CNAME, an_ttl = rr_ttl rr,
           an_rdata = RD_CNAME (snprintf (DNS_MAX_NAME + 1) target),
           an_owner = snprintf (DNS_MAX_NAME + 1) (rr_name rr)\<rparr> (p_ans p),
       p_cname := (if dns_name_equal (rr_name rr) qname then snprintf (DNS_MAX_NAME + 1) target
                   else p_cname p),
       p_chain := (if \<not> list_ex (dns_name_equal target) (p_chain p) \<and>
                      length (p_chain p) \<le> MAX_CNAME_HOPS
                   then p_chain p @ [snprintf (DNS_MAX_NAME + 1) target] else p_chain p)\<rparr>"

definition accept_rr :: "bytes \<Rightarrow> cstring \<Rightarrow> cstring \<Rightarrow> nat \<Rightarrow> dns_rr \<Rightarrow> pass_state \<Rightarrow> pass_state res" where
  "accept_rr msg qname zone cap rr p =
     (if rr_rclass rr \<noteq> DNS_CLASS_IN then Ok p
      else if \<not> dns_name_in_bailiwick (rr_name rr) zone then Ok p
      else if \<not> list_ex (dns_name_equal (rr_name rr)) (p_chain p) then Ok p
      else if rr_type rr = DNS_TYPE_A \<and> rr_rdlength rr = 4 then
        (if length (p_ans p) < cap then
           res_bind (rd_bytes msg (rr_rdata rr) 4) (\<lambda>bs.
             Ok (p\<lparr>p_ans := p_ans p @
               [\<lparr>an_type = DNS_TYPE_A, an_ttl = rr_ttl rr, an_rdata = RD_A bs,
                 an_owner = snprintf (DNS_MAX_NAME + 1) (rr_name rr)\<rparr>]\<rparr>))
         else Ok p)
      else if rr_type rr = DNS_TYPE_AAAA \<and> rr_rdlength rr = 16 then
        (if length (p_ans p) < cap then
           res_bind (rd_bytes msg (rr_rdata rr) 16) (\<lambda>bs.
             Ok (p\<lparr>p_ans := p_ans p @
               [\<lparr>an_type = DNS_TYPE_AAAA, an_ttl = rr_ttl rr, an_rdata = RD_AAAA bs,
                 an_owner = snprintf (DNS_MAX_NAME + 1) (rr_name rr)\<rparr>]\<rparr>))
         else Ok p)
      else if rr_type rr = DNS_TYPE_CNAME then
        (case dns_name_decode msg (rr_rdata rr) (DNS_MAX_NAME + 1) of
           Fault \<Rightarrow> Fault
         | Err \<Rightarrow> Ok p
         | Ok (target, _) \<Rightarrow> Ok (accept_cname qname cap rr target p))
      else Ok p)"

fun answer_pass :: "bytes \<Rightarrow> cstring \<Rightarrow> cstring \<Rightarrow> nat \<Rightarrow> nat \<Rightarrow> nat \<Rightarrow> pass_state \<Rightarrow> pass_state res" where
  "answer_pass msg qname zone cap off 0 p = Ok p"
| "answer_pass msg qname zone cap off (Suc k) p =
     res_bind (dns_parse_rr msg off) (\<lambda>(rr, off').
     res_bind (accept_rr msg qname zone cap rr p) (\<lambda>p'.
     answer_pass msg qname zone cap off' k p'))"

text \<open>At most \<open>n\<close> passes, each with the answers rebuilt, until the chain stops growing.\<close>

fun answer_passes :: "nat \<Rightarrow> bytes \<Rightarrow> cstring \<Rightarrow> cstring \<Rightarrow> nat \<Rightarrow> nat \<Rightarrow> nat \<Rightarrow> pass_state \<Rightarrow> pass_state res" where
  "answer_passes 0 msg qname zone cap start ancount p = Ok p"
| "answer_passes (Suc n) msg qname zone cap start ancount p =
     res_bind (answer_pass msg qname zone cap start ancount (p\<lparr>p_ans := [], p_cname := []\<rparr>)) (\<lambda>p'.
     if length (p_chain p') = length (p_chain p) then Ok p'
     else answer_passes n msg qname zone cap start ancount p')"

fun skip_rrs :: "bytes \<Rightarrow> nat \<Rightarrow> nat \<Rightarrow> nat res" where
  "skip_rrs msg off 0 = Ok off"
| "skip_rrs msg off (Suc k) = res_bind (dns_parse_rr msg off) (\<lambda>(_, off'). skip_rrs msg off' k)"

definition ns_record :: "bytes \<Rightarrow> cstring \<Rightarrow> cstring \<Rightarrow> dns_rr \<Rightarrow> referral \<Rightarrow> referral res" where
  "ns_record msg qname zone rr ref =
     (if rr_type rr \<noteq> DNS_TYPE_NS \<or> MAX_NS_CANDIDATES \<le> length (ref_ns ref) then Ok ref
      else if \<not> dns_name_in_bailiwick (rr_name rr) zone then Ok ref
      else if zone \<noteq> [] \<and> dns_name_equal (rr_name rr) zone then Ok ref
      else if \<not> dns_name_in_bailiwick qname (rr_name rr) then Ok ref
      else if ref_zone ref \<noteq> [] \<and> \<not> dns_name_equal (rr_name rr) (ref_zone ref) then Ok ref
      else let ref1 = (if ref_zone ref \<noteq> [] then ref
                       else ref\<lparr>ref_zone := snprintf (DNS_MAX_NAME + 1) (rr_name rr)\<rparr>)
           in case dns_name_decode msg (rr_rdata rr) (DNS_MAX_NAME + 1) of
                Fault \<Rightarrow> Fault
              | Err \<Rightarrow> Ok ref1
              | Ok (nsname, _) \<Rightarrow>
                  Ok (ref1\<lparr>ref_ns := ref_ns ref1 @ [(snprintf (DNS_MAX_NAME + 1) nsname, None)]\<rparr>))"

fun authority :: "bytes \<Rightarrow> cstring \<Rightarrow> cstring \<Rightarrow> nat \<Rightarrow> nat \<Rightarrow> referral \<Rightarrow> (referral \<times> nat) res" where
  "authority msg qname zone off 0 ref = Ok (ref, off)"
| "authority msg qname zone off (Suc k) ref =
     res_bind (dns_parse_rr msg off) (\<lambda>(rr, off').
     res_bind (ns_record msg qname zone rr ref) (\<lambda>ref'.
     authority msg qname zone off' k ref'))"

text \<open>The first server of that name that has no address yet gets this one.\<close>

fun set_glue :: "cstring \<Rightarrow> cstring \<Rightarrow> (cstring \<times> cstring option) list \<Rightarrow> (cstring \<times> cstring option) list" where
  "set_glue name addr [] = []"
| "set_glue name addr ((n, a) # ns) =
     (if a = None \<and> dns_name_equal n name then (n, Some addr) # ns else (n, a) # set_glue name addr ns)"

definition glue_record :: "bytes \<Rightarrow> cstring \<Rightarrow> dns_rr \<Rightarrow> referral \<Rightarrow> referral res" where
  "glue_record msg zone rr ref =
     (if rr_type rr \<noteq> DNS_TYPE_A \<or> rr_rdlength rr \<noteq> 4 then Ok ref
      else if \<not> dns_name_in_bailiwick (rr_name rr) zone then Ok ref
      else res_bind (rd_bytes msg (rr_rdata rr) 4) (\<lambda>bs.
           Ok (ref\<lparr>ref_ns := set_glue (rr_name rr) (inet_ntop bs) (ref_ns ref)\<rparr>)))"

fun additional :: "bytes \<Rightarrow> cstring \<Rightarrow> nat \<Rightarrow> nat \<Rightarrow> referral \<Rightarrow> referral res" where
  "additional msg zone off 0 ref = Ok ref"
| "additional msg zone off (Suc k) ref =
     (case dns_parse_rr msg off of
        Fault \<Rightarrow> Fault
      | Err \<Rightarrow> Ok ref
      | Ok (rr, off') \<Rightarrow> res_bind (glue_record msg zone rr ref) (\<lambda>ref'.
                        additional msg zone off' k ref'))"

record dissected =
  d_ans :: "dns_answer list"
  d_cname :: cstring
  d_ref :: referral
  d_rcode :: u16

definition dissect :: "bytes \<Rightarrow> cstring \<Rightarrow> cstring \<Rightarrow> nat \<Rightarrow> dissected res" where
  "dissect msg qname zone cap =
     res_bind (dns_parse_header msg) (\<lambda>h.
     if h_flags h AND DNS_FLAG_TC \<noteq> 0 then Err
     else
     res_bind (skip_questions msg DNS_HDR_LEN (unat (h_qdcount h))) (\<lambda>ans_start.
     res_bind (answer_passes (MAX_CNAME_HOPS + 1) msg qname zone cap ans_start (unat (h_ancount h))
       \<lparr>p_chain = [snprintf (DNS_MAX_NAME + 1) qname], p_ans = [], p_cname = []\<rparr>) (\<lambda>p.
     res_bind (skip_rrs msg ans_start (unat (h_ancount h))) (\<lambda>auth_start.
     res_bind (authority msg qname zone auth_start (unat (h_nscount h))
       \<lparr>ref_zone = [], ref_ns = []\<rparr>) (\<lambda>(ref, add_start).
     res_bind (additional msg zone add_start (unat (h_arcount h)) ref) (\<lambda>ref'.
     Ok \<lparr>d_ans = p_ans p, d_cname = p_cname p, d_ref = ref',
         d_rcode = h_flags h AND DNS_RCODE_MASK\<rparr>))))))"

section \<open>Sections as record lists\<close>

lemma snprintf_id: "length s < cap \<Longrightarrow> snprintf cap s = s"
  by (simp add: snprintf_def)

text \<open>A record whose data lies inside the message and whose name fits the buffers.\<close>

definition rr_in :: "bytes \<Rightarrow> dns_rr \<Rightarrow> bool" where
  "rr_in msg rr \<longleftrightarrow> rr_rdata rr + unat (rr_rdlength rr) \<le> length msg \<and>
     length (rr_name rr) \<le> 255 \<and> is_cstr (rr_name rr)"

lemma dns_parse_rr_in: "dns_parse_rr msg off = Ok (rr, nx) \<Longrightarrow> rr_in msg rr"
  using dns_parse_rr_bounds [of msg off rr nx] by (simp add: rr_in_def)

lemma parse_rrs_nofault [nofault]: "parse_rrs msg off n \<noteq> Fault"
  by (induction n arbitrary: off) (auto simp: res_bind_eq_Fault dns_parse_rr_nofault)

lemma parse_rrs_in: "parse_rrs msg off n = Ok (rrs, e) \<Longrightarrow> list_all (rr_in msg) rrs"
  by (induction n arbitrary: off rrs) (auto simp: dns_parse_rr_in)

lemma skip_questions_nofault [nofault]: "skip_questions msg off n \<noteq> Fault"
  by (induction n arbitrary: off) (auto simp: res_bind_eq_Fault dns_skip_question_nofault)

lemma skip_rrs_parse: "skip_rrs msg off n = res_bind (parse_rrs msg off n) (\<lambda>(_, e). Ok e)"
proof (induction n arbitrary: off)
  case (Suc n)
  show ?case
  proof (cases "dns_parse_rr msg off")
    case (Ok r)
    obtain rr nx where r: "r = (rr, nx)" by force
    show ?thesis using Suc [of nx] Ok by (cases "parse_rrs msg nx n") (auto simp: r)
  qed auto
qed simp

section \<open>The answer section\<close>

definition accept :: "bytes \<Rightarrow> cstring \<Rightarrow> cstring \<Rightarrow> nat \<Rightarrow> dns_rr \<Rightarrow> pass_state \<Rightarrow> pass_state" where
  "accept msg qname zone cap rr p = (case accept_rr msg qname zone cap rr p of Ok p' \<Rightarrow> p' | _ \<Rightarrow> p)"

lemma accept_rr_Ok:
  assumes "rr_in msg rr"
  shows "accept_rr msg qname zone cap rr p = Ok (accept msg qname zone cap rr p)"
proof -
  have "accept_rr msg qname zone cap rr p \<noteq> Err \<and> accept_rr msg qname zone cap rr p \<noteq> Fault"
    using assms dns_name_decode_nofault [of msg "rr_rdata rr" "DNS_MAX_NAME + 1"]
    by (auto simp: accept_rr_def rr_in_def res_bind_eq_Err res_bind_eq_Fault split: res.splits)
  then show ?thesis by (cases "accept_rr msg qname zone cap rr p") (auto simp: accept_def)
qed

lemma answer_pass_fold:
  assumes "parse_rrs msg off n = Ok (rrs, e)"
  shows "answer_pass msg qname zone cap off n p = Ok (fold (accept msg qname zone cap) rrs p)"
  using assms
proof (induction n arbitrary: off p rrs)
  case (Suc n)
  then obtain rr nx rrs' where
    *: "dns_parse_rr msg off = Ok (rr, nx)" "parse_rrs msg nx n = Ok (rrs', e)" "rrs = rr # rrs'" by auto
  then show ?case
    using Suc.IH [OF *(2)] accept_rr_Ok [OF dns_parse_rr_in [OF *(1)]]
    by (simp del: res_bind_eq_Ok Ok_eq_res_bind)
qed simp

lemma answer_pass_Err:
  assumes "parse_rrs msg off n = Err"
  shows "answer_pass msg qname zone cap off n p = Err"
  using assms
proof (induction n arbitrary: off p)
  case (Suc n)
  show ?case
  proof (cases "dns_parse_rr msg off")
    case (Ok r)
    obtain rr nx where r: "r = (rr, nx)" by force
    have "parse_rrs msg nx n = Err" using Suc.prems Ok by (auto simp: r res_bind_eq_Err)
    then show ?thesis
      using Suc.IH Ok accept_rr_Ok [OF dns_parse_rr_in, of msg off rr nx]
      by (simp add: r del: res_bind_eq_Ok Ok_eq_res_bind)
  qed (use Suc.prems dns_parse_rr_nofault in auto)
qed simp

lemma answer_pass_nofault [nofault]: "answer_pass msg qname zone cap off n p \<noteq> Fault"
proof (cases "parse_rrs msg off n")
  case (Ok r)
  then show ?thesis using answer_pass_fold [of msg off n "fst r" "snd r"] by simp
qed (auto simp: answer_pass_Err parse_rrs_nofault)

lemma answer_passes_nofault [nofault]: "answer_passes k msg qname zone cap off n p \<noteq> Fault"
  by (induction k arbitrary: p) (auto simp: res_bind_eq_Fault answer_pass_nofault)

text \<open>The chain is only appended to, never beyond nine names, and holds no name twice.\<close>

definition chain_ok :: "pass_state \<Rightarrow> bool" where
  "chain_ok p \<longleftrightarrow> length (p_chain p) \<le> MAX_CNAME_HOPS + 1 \<and> distinct (map lower (p_chain p))"

definition extends :: "pass_state \<Rightarrow> pass_state \<Rightarrow> bool" where
  "extends p p' \<longleftrightarrow> (\<exists>more. p_chain p' = p_chain p @ more)"

lemma list_ex_equal: "list_ex (dns_name_equal t) cs \<longleftrightarrow> lower t \<in> set (map lower cs)"
  by (auto simp: list_ex_iff dns_name_equal_iff)

lemma accept_chain:
  assumes "rr_in msg rr"
  shows "extends p (accept msg qname zone cap rr p)" "chain_ok p \<Longrightarrow> chain_ok (accept msg qname zone cap rr p)"
proof -
  have *: "\<exists>more. p_chain p' = p_chain p @ more \<and> (chain_ok p \<longrightarrow> chain_ok p')"
    if "accept_rr msg qname zone cap rr p = Ok p'" for p'
  proof -
    have sn: "snprintf 256 t = t" if "dns_name_decode msg (rr_rdata rr) 256 = Ok (t, nx)" for t nx
      using dns_name_decode_bounds(3) [OF that] by (simp add: snprintf_id)
    show ?thesis
      using that sn
      by (auto simp: accept_rr_def accept_cname_def chain_ok_def list_ex_equal
          split: if_splits res.splits)
  qed
  from * [OF accept_rr_Ok [OF assms]]
  show "extends p (accept msg qname zone cap rr p)" "chain_ok p \<Longrightarrow> chain_ok (accept msg qname zone cap rr p)"
    by (auto simp: extends_def)
qed

lemma extends_trans: "extends p q \<Longrightarrow> extends q r \<Longrightarrow> extends p r"
  by (auto simp: extends_def)

lemma fold_accept_chain:
  "list_all (rr_in msg) rrs \<Longrightarrow> extends p (fold (accept msg qname zone cap) rrs p) \<and>
     (chain_ok p \<longrightarrow> chain_ok (fold (accept msg qname zone cap) rrs p))"
proof (induction rrs arbitrary: p)
  case Nil
  then show ?case by (simp add: extends_def)
next
  case (Cons rr rrs)
  then have rr: "rr_in msg rr" and rrs: "list_all (rr_in msg) rrs" by simp_all
  let ?p1 = "accept msg qname zone cap rr p"
  have "extends p (fold (accept msg qname zone cap) rrs ?p1)"
    using Cons.IH [OF rrs, of ?p1] accept_chain(1) [OF rr] extends_trans by blast
  then show ?case using Cons.IH [OF rrs, of ?p1] accept_chain(2) [OF rr] by simp
qed

text \<open>
  Nine passes always suffice: every pass but the last adds a name to a chain of at most nine, so
  the loop leaves through the convergence test and its result is a fixed point of a pass.
\<close>

lemma pass_restart:
  fixes a b :: pass_state
  shows "p_chain a = p_chain b \<Longrightarrow> a\<lparr>p_ans := x, p_cname := y\<rparr> = b\<lparr>p_ans := x, p_cname := y\<rparr>"
  by (cases a; cases b) simp

lemma answer_passes_fixpoint:
  assumes rrs: "parse_rrs msg start n = Ok (rrs, e)" and ok: "chain_ok p"
    and enough: "MAX_CNAME_HOPS + 2 \<le> k + length (p_chain p)"
  shows "\<exists>q. answer_passes k msg qname zone cap start n p = Ok q \<and> chain_ok q \<and> extends p q \<and>
    fold (accept msg qname zone cap) rrs (q\<lparr>p_ans := [], p_cname := []\<rparr>) = q"
  using ok enough
proof (induction k arbitrary: p)
  case 0
  then show ?case by (simp add: chain_ok_def)
next
  case (Suc k)
  let ?start = "p\<lparr>p_ans := [], p_cname := []\<rparr>"
  let ?q = "fold (accept msg qname zone cap) rrs ?start"
  note pass = answer_pass_fold [OF rrs, of qname zone cap ?start]
  have q: "chain_ok ?q" "extends p ?q"
    using fold_accept_chain [OF parse_rrs_in [OF rrs], of ?start qname zone cap] Suc.prems(1)
    by (auto simp: chain_ok_def extends_def)
  show ?case
  proof (cases "length (p_chain ?q) = length (p_chain p)")
    case True
    then have "p_chain ?q = p_chain p" using q(2) by (auto simp: extends_def)
    then have "?q\<lparr>p_ans := [], p_cname := []\<rparr> = ?start"
      by (rule pass_restart)
    then show ?thesis using q pass True by (simp del: res_bind_eq_Ok Ok_eq_res_bind)
  next
    case False
    then have "length (p_chain p) < length (p_chain ?q)" using q(2) by (auto simp: extends_def)
    then obtain r where r: "answer_passes k msg qname zone cap start n ?q = Ok r" "chain_ok r" "extends ?q r"
        "fold (accept msg qname zone cap) rrs (r\<lparr>p_ans := [], p_cname := []\<rparr>) = r"
      using Suc.IH [OF q(1)] Suc.prems(2) by auto
    then show ?thesis using pass False extends_trans [OF q(2)] by (simp del: res_bind_eq_Ok Ok_eq_res_bind)
  qed
qed

lemma answer_passes_Err:
  "parse_rrs msg start n = Err \<Longrightarrow> answer_passes (Suc k) msg qname zone cap start n p = Err"
  by (simp add: answer_pass_Err)

text \<open>The names the answer section leads to from the name asked for.\<close>

inductive on_chain :: "bytes \<Rightarrow> cstring \<Rightarrow> dns_rr set \<Rightarrow> cstring \<Rightarrow> cstring \<Rightarrow> bool"
  for msg zone R qname where
  on_chain_start: "on_chain msg zone R qname qname"
| on_chain_hop: "on_chain msg zone R qname c \<Longrightarrow> rr \<in> R \<Longrightarrow> rr_rclass rr = DNS_CLASS_IN \<Longrightarrow>
    rr_type rr = DNS_TYPE_CNAME \<Longrightarrow> dns_name_equal (rr_name rr) c \<Longrightarrow>
    dns_name_in_bailiwick (rr_name rr) zone \<Longrightarrow>
    dns_name_decode msg (rr_rdata rr) 256 = Ok (t, nx) \<Longrightarrow> on_chain msg zone R qname t"

text \<open>A record the resolver may believe, and the answer it becomes.\<close>

definition rr_gated :: "bytes \<Rightarrow> cstring \<Rightarrow> dns_rr set \<Rightarrow> cstring \<Rightarrow> dns_rr \<Rightarrow> bool" where
  "rr_gated msg zone R qname rr \<longleftrightarrow> rr \<in> R \<and> rr_rclass rr = DNS_CLASS_IN \<and>
     dns_name_in_bailiwick (rr_name rr) zone \<and>
     (\<exists>c. on_chain msg zone R qname c \<and> dns_name_equal (rr_name rr) c)"

definition answer_for :: "bytes \<Rightarrow> dns_rr \<Rightarrow> dns_answer \<Rightarrow> bool" where
  "answer_for msg rr a \<longleftrightarrow> an_type a = rr_type rr \<and> an_ttl a = rr_ttl rr \<and> an_owner a = rr_name rr \<and>
     (case an_rdata a of
        RD_A bs \<Rightarrow> rr_type rr = DNS_TYPE_A \<and> bs = take 4 (drop (rr_rdata rr) msg) \<and> length bs = 4
      | RD_AAAA bs \<Rightarrow> rr_type rr = DNS_TYPE_AAAA \<and> bs = take 16 (drop (rr_rdata rr) msg) \<and> length bs = 16
      | RD_CNAME t \<Rightarrow> rr_type rr = DNS_TYPE_CNAME \<and> (\<exists>nx. dns_name_decode msg (rr_rdata rr) 256 = Ok (t, nx)))"

definition pass_sound :: "bytes \<Rightarrow> cstring \<Rightarrow> dns_rr set \<Rightarrow> cstring \<Rightarrow> nat \<Rightarrow> pass_state \<Rightarrow> bool" where
  "pass_sound msg zone R qname cap p \<longleftrightarrow> list_all (on_chain msg zone R qname) (p_chain p) \<and>
     length (p_ans p) \<le> cap \<and>
     list_all (\<lambda>a. \<exists>rr. rr_gated msg zone R qname rr \<and> answer_for msg rr a) (p_ans p) \<and>
     (p_cname p \<noteq> [] \<longrightarrow> length (p_cname p) \<le> 255 \<and> is_cstr (p_cname p))"

lemma accept_rr_elim:
  assumes "accept_rr msg qname zone cap rr p = Ok p'"
  obtains (same) "p' = p"
  | (addr) n rd where "rr_rclass rr = DNS_CLASS_IN" "dns_name_in_bailiwick (rr_name rr) zone"
      "list_ex (dns_name_equal (rr_name rr)) (p_chain p)" "length (p_ans p) < cap"
      "rr_rdlength rr = of_nat n" "n = 4 \<and> rr_type rr = DNS_TYPE_A \<and> rd = RD_A (take n (drop (rr_rdata rr) msg)) \<or>
       n = 16 \<and> rr_type rr = DNS_TYPE_AAAA \<and> rd = RD_AAAA (take n (drop (rr_rdata rr) msg))"
      "p' = p\<lparr>p_ans := p_ans p @ [\<lparr>an_type = rr_type rr, an_ttl = rr_ttl rr, an_rdata = rd,
        an_owner = snprintf 256 (rr_name rr)\<rparr>]\<rparr>"
  | (cname) t nx where "rr_rclass rr = DNS_CLASS_IN" "dns_name_in_bailiwick (rr_name rr) zone"
      "list_ex (dns_name_equal (rr_name rr)) (p_chain p)" "rr_type rr = DNS_TYPE_CNAME"
      "dns_name_decode msg (rr_rdata rr) 256 = Ok (t, nx)" "p' = accept_cname qname cap rr t p"
proof (cases "rr_rclass rr = DNS_CLASS_IN \<and> dns_name_in_bailiwick (rr_name rr) zone \<and>
    list_ex (dns_name_equal (rr_name rr)) (p_chain p)")
  case False
  then have "accept_rr msg qname zone cap rr p = Ok p" unfolding accept_rr_def by (simp split: if_split) 
  then show thesis using assms same by simp
next
  case True
  then have acc: "accept_rr msg qname zone cap rr p =
      (if rr_type rr = DNS_TYPE_A \<and> rr_rdlength rr = 4 then
        (if length (p_ans p) < cap then
           res_bind (rd_bytes msg (rr_rdata rr) 4) (\<lambda>bs.
             Ok (p\<lparr>p_ans := p_ans p @
               [\<lparr>an_type = DNS_TYPE_A, an_ttl = rr_ttl rr, an_rdata = RD_A bs,
                 an_owner = snprintf 256 (rr_name rr)\<rparr>]\<rparr>))
         else Ok p)
      else if rr_type rr = DNS_TYPE_AAAA \<and> rr_rdlength rr = 16 then
        (if length (p_ans p) < cap then
           res_bind (rd_bytes msg (rr_rdata rr) 16) (\<lambda>bs.
             Ok (p\<lparr>p_ans := p_ans p @
               [\<lparr>an_type = DNS_TYPE_AAAA, an_ttl = rr_ttl rr, an_rdata = RD_AAAA bs,
                 an_owner = snprintf 256 (rr_name rr)\<rparr>]\<rparr>))
         else Ok p)
      else if rr_type rr = DNS_TYPE_CNAME then
        (case dns_name_decode msg (rr_rdata rr) 256 of
           Fault \<Rightarrow> Fault
         | Err \<Rightarrow> Ok p
         | Ok (target, _) \<Rightarrow> Ok (accept_cname qname cap rr target p))
      else Ok p)"
    by (simp add: accept_rr_def)
  consider (A) "rr_type rr = DNS_TYPE_A \<and> rr_rdlength rr = 4" "length (p_ans p) < cap"
    | (AAAA) "rr_type rr = DNS_TYPE_AAAA \<and> rr_rdlength rr = 16" "length (p_ans p) < cap"
      "\<not> (rr_type rr = DNS_TYPE_A \<and> rr_rdlength rr = 4)"
    | (C) t nx where "rr_type rr = DNS_TYPE_CNAME" "dns_name_decode msg (rr_rdata rr) 256 = Ok (t, nx)"
      "p' = accept_cname qname cap rr t p"
    | (S) "p' = p"
    using assms unfolding acc by (auto split: if_splits res.splits)
  then show thesis
  proof cases
    case A
    then show thesis
      using assms True addr [of 4 "RD_A (take 4 (drop (rr_rdata rr) msg))"] unfolding acc by simp
  next
    case AAAA
    then show thesis
      using assms True addr [of 16 "RD_AAAA (take 16 (drop (rr_rdata rr) msg))"] unfolding acc by simp
  qed (use True cname same in blast)+
qed

lemma accept_sound:
  assumes "rr_in msg rr" "rr \<in> R" "pass_sound msg zone R qname cap p"
  shows "pass_sound msg zone R qname cap (accept msg qname zone cap rr p)"
proof -
  have nm: "snprintf 256 (rr_name rr) = rr_name rr" using assms(1) by (simp add: rr_in_def snprintf_id)
  have "pass_sound msg zone R qname cap p'" if "accept_rr msg qname zone cap rr p = Ok p'" for p'
    using that
  proof (cases rule: accept_rr_elim)
    case same
    then show ?thesis using assms(3) by simp
  next
    case (addr n rd)
    have gate: "rr_gated msg zone R qname rr"
      using addr(1-3) assms(2,3) by (auto simp: rr_gated_def pass_sound_def list_ex_iff list_all_iff)
    have "length (take n (drop (rr_rdata rr) msg)) = n"
      using assms(1) addr(5,6) by (auto simp: rr_in_def)
    then have "answer_for msg rr \<lparr>an_type = rr_type rr, an_ttl = rr_ttl rr, an_rdata = rd,
        an_owner = snprintf 256 (rr_name rr)\<rparr>"
      using addr(6) nm by (auto simp: answer_for_def)
    then show ?thesis using assms(3) gate addr(4) unfolding addr(7) pass_sound_def by auto
  next
    case (cname t nx)
    have gate: "rr_gated msg zone R qname rr"
      using cname(1-3) assms(2,3) by (auto simp: rr_gated_def pass_sound_def list_ex_iff list_all_iff)
    then have hop: "on_chain msg zone R qname t"
      using on_chain_hop cname by (fastforce simp: rr_gated_def)
    have dec: "snprintf 256 t = t" "length t \<le> 255" "is_cstr t"
      using dns_name_decode_bounds(3,4) [OF cname(5)] by (simp_all add: snprintf_id)
    have "answer_for msg rr \<lparr>an_type = DNS_TYPE_CNAME, an_ttl = rr_ttl rr, an_rdata = RD_CNAME t,
        an_owner = rr_name rr\<rparr>"
      using cname(4,5) by (auto simp: answer_for_def)
    then show ?thesis
      using assms(3) gate hop dec nm unfolding cname(6) pass_sound_def accept_cname_def push_answer_def
      by auto
  qed
  then show ?thesis using accept_rr_Ok [OF assms(1)] by blast
qed

lemma fold_accept_sound:
  "list_all (rr_in msg) rrs \<Longrightarrow> set rrs \<subseteq> R \<Longrightarrow> pass_sound msg zone R qname cap p \<Longrightarrow>
   pass_sound msg zone R qname cap (fold (accept msg qname zone cap) rrs p)"
  by (induction rrs arbitrary: p) (auto simp: accept_sound)

lemma answer_passes_sound:
  assumes rrs: "parse_rrs msg start n = Ok (rrs, e)"
  shows "pass_sound msg zone (set rrs) qname cap p \<Longrightarrow> answer_passes k msg qname zone cap start n p = Ok q \<Longrightarrow>
    pass_sound msg zone (set rrs) qname cap q"
proof (induction k arbitrary: p)
  case (Suc k)
  let ?p1 = "fold (accept msg qname zone cap) rrs (p\<lparr>p_ans := [], p_cname := []\<rparr>)"
  have "pass_sound msg zone (set rrs) qname cap (p\<lparr>p_ans := [], p_cname := []\<rparr>)"
    using Suc.prems(1) by (simp add: pass_sound_def)
  then have "pass_sound msg zone (set rrs) qname cap ?p1"
    by (intro fold_accept_sound parse_rrs_in [OF rrs]) auto
  then show ?case using Suc answer_pass_fold [OF rrs] by (auto split: if_splits)
qed simp

text \<open>At a fixed point every record was judged against the final chain.\<close>

lemma accept_ans_grow:
  assumes "rr_in msg rr"
  shows "\<exists>more. p_ans (accept msg qname zone cap rr p) = p_ans p @ more"
  using accept_rr_Ok [OF assms, of qname zone cap p]
  by (cases rule: accept_rr_elim) (auto simp: accept_cname_def push_answer_def)

lemma fold_ans_grow:
  "list_all (rr_in msg) rrs \<Longrightarrow> \<exists>more. p_ans (fold (accept msg qname zone cap) rrs p) = p_ans p @ more"
proof (induction rrs arbitrary: p)
  case (Cons rr rrs)
  then have rr: "rr_in msg rr" and rrs: "list_all (rr_in msg) rrs" by simp_all
  obtain b where b: "p_ans (accept msg qname zone cap rr p) = p_ans p @ b"
    using accept_ans_grow [OF rr] by blast
  obtain a where "p_ans (fold (accept msg qname zone cap) rrs (accept msg qname zone cap rr p)) =
      p_ans (accept msg qname zone cap rr p) @ a"
    using Cons.IH [OF rrs] by blast
  then show ?case using b by simp
qed simp

lemma fixpoint_mid:
  assumes fp: "fold (accept msg qname zone cap) (as @ rr # bs) q0 = q" "p_chain q = p_chain q0"
    and inn: "list_all (rr_in msg) (as @ rr # bs)"
  defines "p1 \<equiv> fold (accept msg qname zone cap) as q0"
  shows "p_chain p1 = p_chain q" "p_chain (accept msg qname zone cap rr p1) = p_chain q"
    "\<exists>more. p_ans q = p_ans (accept msg qname zone cap rr p1) @ more"
proof -
  let ?p2 = "accept msg qname zone cap rr p1"
  have q: "q = fold (accept msg qname zone cap) bs ?p2" using fp(1) by (simp add: p1_def)
  obtain a b c where "p_chain p1 = p_chain q0 @ a" "p_chain ?p2 = p_chain p1 @ b" "p_chain q = p_chain ?p2 @ c"
    using fold_accept_chain [of msg as q0 qname zone cap] accept_chain(1) [of msg rr p1 qname zone cap]
      fold_accept_chain [of msg bs ?p2 qname zone cap] inn
    by (auto simp: extends_def p1_def q)
  then show "p_chain p1 = p_chain q" "p_chain ?p2 = p_chain q" using fp(2) by auto
  show "\<exists>more. p_ans q = p_ans ?p2 @ more" using fold_ans_grow [of msg bs] inn by (simp add: q)
qed

text \<open>The final chain is closed under the aliases of the section, unless it is full.\<close>

lemma fixpoint_closed:
  assumes fp: "fold (accept msg qname zone cap) rrs q0 = q" "p_chain q = p_chain q0" "list_all (rr_in msg) rrs"
    and rr: "rr \<in> set rrs" "rr_rclass rr = DNS_CLASS_IN" "rr_type rr = DNS_TYPE_CNAME"
      "dns_name_in_bailiwick (rr_name rr) zone" "lower (rr_name rr) \<in> set (map lower (p_chain q))"
      "dns_name_decode msg (rr_rdata rr) 256 = Ok (t, nx)"
  shows "lower t \<in> set (map lower (p_chain q)) \<or> MAX_CNAME_HOPS < length (p_chain q)"
proof -
  obtain as bs where sp: "rrs = as @ rr # bs" using rr(1) by (meson split_list)
  define p1 where "p1 = fold (accept msg qname zone cap) as q0"
  have c: "p_chain p1 = p_chain q" "p_chain (accept msg qname zone cap rr p1) = p_chain q"
    using fixpoint_mid(1,2) [of msg qname zone cap as rr bs q0 q] fp sp by (simp_all add: p1_def)
  have "rr_in msg rr" using fp(3) rr(1) by (simp add: list_all_iff)
  from accept_rr_Ok [OF this, of qname zone cap p1]
  have "accept msg qname zone cap rr p1 = accept_cname qname cap rr t p1"
    using rr c(1) by (simp add: accept_rr_def list_ex_equal dns_msg_consts)
  moreover have "snprintf 256 t = t" using dns_name_decode_bounds(3) [OF rr(6)] by (simp add: snprintf_id)
  ultimately show ?thesis
    using c by (auto simp: accept_cname_def list_ex_equal split: if_splits)
qed

lemma fixpoint_accepts:
  assumes fp: "fold (accept msg qname zone cap) rrs q0 = q" "p_chain q = p_chain q0" "list_all (rr_in msg) rrs"
    and rr: "rr \<in> set rrs" "rr_rclass rr = DNS_CLASS_IN" "dns_name_in_bailiwick (rr_name rr) zone"
      "lower (rr_name rr) \<in> set (map lower (p_chain q))"
      "rr_type rr = DNS_TYPE_A \<and> rr_rdlength rr = 4 \<or> rr_type rr = DNS_TYPE_AAAA \<and> rr_rdlength rr = 16"
    and room: "length (p_ans q) < cap"
  shows "\<exists>a\<in>set (p_ans q). answer_for msg rr a"
proof -
  obtain as bs where sp: "rrs = as @ rr # bs" using rr(1) by (meson split_list)
  define p1 where "p1 = fold (accept msg qname zone cap) as q0"
  define p2 where "p2 = accept msg qname zone cap rr p1"
  have c: "p_chain p1 = p_chain q" "\<exists>more. p_ans q = p_ans p2 @ more"
    using fixpoint_mid(1,3) [of msg qname zone cap as rr bs q0 q] fp sp by (simp_all add: p1_def p2_def)
  have inn: "rr_in msg rr" using fp(3) rr(1) by (simp add: list_all_iff)
  have "\<exists>more. p_ans p2 = p_ans p1 @ more" using accept_ans_grow [OF inn] by (simp add: p2_def)
  then have len: "length (p_ans p1) < cap" using c(2) room by auto
  have on: "list_ex (dns_name_equal (rr_name rr)) (p_chain p1)" using rr(4) c(1) by (simp add: list_ex_equal)
  have nm: "snprintf 256 (rr_name rr) = rr_name rr" using inn by (simp add: rr_in_def snprintf_id)
  have dat: "rr_rdlength rr = of_nat k \<Longrightarrow> k < 65536 \<Longrightarrow> rr_rdata rr + k \<le> length msg" for k
    using inn by (auto simp: rr_in_def unat_u16_small)
  have "\<exists>a. p_ans p2 = p_ans p1 @ [a] \<and> answer_for msg rr a"
    using rr(5)
  proof
    assume A: "rr_type rr = DNS_TYPE_A \<and> rr_rdlength rr = 4"
    then have "accept_rr msg qname zone cap rr p1 = Ok (p1\<lparr>p_ans := p_ans p1 @
        [\<lparr>an_type = DNS_TYPE_A, an_ttl = rr_ttl rr, an_rdata = RD_A (take 4 (drop (rr_rdata rr) msg)),
          an_owner = rr_name rr\<rparr>]\<rparr>)"
      using rr(2,3) on len nm dat [of 4] by (simp add: accept_rr_def)
    then show ?thesis using A dat [of 4] by (auto simp: p2_def accept_def answer_for_def)
  next
    assume A: "rr_type rr = DNS_TYPE_AAAA \<and> rr_rdlength rr = 16"
    then have "accept_rr msg qname zone cap rr p1 = Ok (p1\<lparr>p_ans := p_ans p1 @
        [\<lparr>an_type = DNS_TYPE_AAAA, an_ttl = rr_ttl rr, an_rdata = RD_AAAA (take 16 (drop (rr_rdata rr) msg)),
          an_owner = rr_name rr\<rparr>]\<rparr>)"
      using rr(2,3) on len nm dat [of 16] by (simp add: accept_rr_def dns_msg_consts)
    then show ?thesis using A dat [of 16] by (auto simp: p2_def accept_def answer_for_def)
  qed
  then show ?thesis using c(2) by auto
qed

lemma chain_covers:
  assumes fp: "fold (accept msg qname zone cap) rrs q0 = q" "p_chain q = p_chain q0" "list_all (rr_in msg) rrs"
    and ok: "chain_ok q" "list_all (on_chain msg zone (set rrs) qname) (p_chain q)" "lower qname \<in> set (map lower (p_chain q))"
    and few: "\<And>c. on_chain msg zone (set rrs) qname c \<Longrightarrow> lower c \<in> set L" "length L \<le> MAX_CNAME_HOPS + 1"
    and c: "on_chain msg zone (set rrs) qname c"
  shows "lower c \<in> set (map lower (p_chain q))"
proof (cases "length (p_chain q) \<le> MAX_CNAME_HOPS")
  case True
  show ?thesis using c
  proof induction
    case on_chain_start
    then show ?case using ok(3) by simp
  next
    case (on_chain_hop c rr t nx)
    then show ?case
      using fixpoint_closed [OF fp, of rr t nx] True by (auto simp: dns_name_equal_iff)
  qed
next
  case False
  let ?S = "set (map lower (p_chain q))"
  have "card ?S = length (p_chain q)" using ok(1) distinct_card [of "map lower (p_chain q)"] by (simp add: chain_ok_def)
  then have "card (set L) \<le> card ?S" using False few(2) card_length [of L] by simp
  moreover have "?S \<subseteq> set L" using ok(2) few(1) by (auto simp: list_all_iff)
  ultimately have "?S = set L" using card_seteq [of "set L" ?S] by auto
  then show ?thesis using few(1) [OF c] by simp
qed

section \<open>Authority and additional sections\<close>

lemma bailiwick_nonempty: "dns_name_in_bailiwick name zone \<Longrightarrow> zone \<noteq> [] \<Longrightarrow> name \<noteq> []"
  by (auto simp: dns_name_in_bailiwick_def Let_def split: if_splits)

lemma bailiwick_longer:
  "dns_name_in_bailiwick name zone \<Longrightarrow> \<not> dns_name_equal name zone \<Longrightarrow> zone \<noteq> [] \<Longrightarrow> length zone < length name"
  by (auto simp: dns_name_in_bailiwick_def Let_def split: if_splits)

text \<open>An address taken from a record of the message the server was entitled to send.\<close>

definition glue_from :: "bytes \<Rightarrow> cstring \<Rightarrow> cstring \<Rightarrow> cstring \<Rightarrow> bool" where
  "glue_from msg zone name addr \<longleftrightarrow> (\<exists>off rr nx bs. dns_parse_rr msg off = Ok (rr, nx) \<and>
     rr_type rr = DNS_TYPE_A \<and> dns_name_in_bailiwick (rr_name rr) zone \<and> dns_name_equal name (rr_name rr) \<and>
     bs = take 4 (drop (rr_rdata rr) msg) \<and> length bs = 4 \<and> addr = inet_ntop bs)"

definition ns_entry_ok :: "bytes \<Rightarrow> cstring \<Rightarrow> cstring \<times> cstring option \<Rightarrow> bool" where
  "ns_entry_ok msg zone e \<longleftrightarrow> length (fst e) \<le> 255 \<and> is_cstr (fst e) \<and>
     (\<forall>a. snd e = Some a \<longrightarrow> glue_from msg zone (fst e) a)"

text \<open>The delegated zone lies at or below the zone of the server and above the name asked for.\<close>

definition referral_ok :: "bytes \<Rightarrow> cstring \<Rightarrow> cstring \<Rightarrow> referral \<Rightarrow> bool" where
  "referral_ok msg qname zone ref \<longleftrightarrow>
     length (ref_ns ref) \<le> MAX_NS_CANDIDATES \<and> list_all (ns_entry_ok msg zone) (ref_ns ref) \<and>
     length (ref_zone ref) \<le> 255 \<and>
     (ref_zone ref \<noteq> [] \<longrightarrow> dns_name_in_bailiwick (ref_zone ref) zone \<and>
        dns_name_in_bailiwick qname (ref_zone ref)) \<and>
     (zone \<noteq> [] \<and> ref_zone ref \<noteq> [] \<longrightarrow> length zone < length (ref_zone ref)) \<and>
     (zone \<noteq> [] \<and> ref_ns ref \<noteq> [] \<longrightarrow> ref_zone ref \<noteq> [])"

lemma ns_record_ok:
  assumes rr: "rr_in msg rr" and ok: "referral_ok msg qname zone ref"
  shows "\<exists>ref'. ns_record msg qname zone rr ref = Ok ref' \<and> referral_ok msg qname zone ref'"
proof (cases "rr_type rr \<noteq> DNS_TYPE_NS \<or> MAX_NS_CANDIDATES \<le> length (ref_ns ref) \<or>
    \<not> dns_name_in_bailiwick (rr_name rr) zone \<or> zone \<noteq> [] \<and> dns_name_equal (rr_name rr) zone \<or>
    \<not> dns_name_in_bailiwick qname (rr_name rr) \<or>
    ref_zone ref \<noteq> [] \<and> \<not> dns_name_equal (rr_name rr) (ref_zone ref)")
  case True
  then have "ns_record msg qname zone rr ref = Ok ref" by (auto simp: ns_record_def)
  then show ?thesis using ok by blast
next
  case False
  let ?ref1 = "if ref_zone ref \<noteq> [] then ref else ref\<lparr>ref_zone := rr_name rr\<rparr>"
  have nm: "snprintf 256 (rr_name rr) = rr_name rr" "length (rr_name rr) \<le> 255"
    using rr by (simp_all add: rr_in_def snprintf_id)
  have ok1: "referral_ok msg qname zone ?ref1"
    using ok False nm bailiwick_longer [of "rr_name rr" zone] bailiwick_nonempty [of "rr_name rr" zone]
    by (auto simp: referral_ok_def)
  have ne: "zone \<noteq> [] \<longrightarrow> ref_zone ?ref1 \<noteq> []"
    using False bailiwick_nonempty [of "rr_name rr" zone] by auto
  have run: "ns_record msg qname zone rr ref =
      (case dns_name_decode msg (rr_rdata rr) 256 of Fault \<Rightarrow> Fault | Err \<Rightarrow> Ok ?ref1
       | Ok (nsname, _) \<Rightarrow> Ok (?ref1\<lparr>ref_ns := ref_ns ?ref1 @ [(snprintf 256 nsname, None)]\<rparr>))"
  proof -
    have e: "DNS_MAX_NAME + 1 = 256" by simp
    have "rr_type rr = DNS_TYPE_NS" "\<not> MAX_NS_CANDIDATES \<le> length (ref_ns ref)"
      "dns_name_in_bailiwick (rr_name rr) zone" "\<not> (zone \<noteq> [] \<and> dns_name_equal (rr_name rr) zone)"
      "dns_name_in_bailiwick qname (rr_name rr)" "\<not> (ref_zone ref \<noteq> [] \<and> \<not> dns_name_equal (rr_name rr) (ref_zone ref))"
      using False by blast+
    then show ?thesis unfolding ns_record_def Let_def e nm by (simp only: simp_thms if_False)
  qed
  show ?thesis
  proof (cases "dns_name_decode msg (rr_rdata rr) 256")
    case (Ok r)
    obtain t nx where r: "r = (t, nx)" by force
    have t: "snprintf 256 t = t" "length t \<le> 255" "is_cstr t"
      using dns_name_decode_bounds(3,4) [of msg "rr_rdata rr" t nx] Ok by (simp_all add: r snprintf_id)
    have "referral_ok msg qname zone (?ref1\<lparr>ref_ns := ref_ns ?ref1 @ [(t, None)]\<rparr>)"
      using ok1 ne False t by (simp add: referral_ok_def ns_entry_ok_def split: if_splits)
    then show ?thesis using run Ok t by (simp add: r)
  qed (use run ok1 dns_name_decode_nofault in auto)
qed

lemma authority_ok:
  assumes "referral_ok msg qname zone ref"
  shows "authority msg qname zone off n ref = Err \<or>
    (\<exists>ref' off'. authority msg qname zone off n ref = Ok (ref', off') \<and> referral_ok msg qname zone ref')"
  using assms
proof (induction n arbitrary: off ref)
  case (Suc n)
  show ?case
  proof (cases "dns_parse_rr msg off")
    case (Ok r)
    obtain rr nx where r: "r = (rr, nx)" by force
    obtain ref1 where "ns_record msg qname zone rr ref = Ok ref1" "referral_ok msg qname zone ref1"
      using ns_record_ok [OF dns_parse_rr_in Suc.prems] Ok r by blast
    then show ?thesis using Suc.IH [of ref1 nx] Ok by (simp add: r del: res_bind_eq_Ok Ok_eq_res_bind)
  qed (use dns_parse_rr_nofault in auto)
qed simp

lemma set_glue_ok:
  assumes "\<And>n. dns_name_equal n name \<Longrightarrow> glue_from msg zone n addr" "list_all (ns_entry_ok msg zone) ns"
  shows "list_all (ns_entry_ok msg zone) (set_glue name addr ns) \<and> length (set_glue name addr ns) = length ns"
  using assms
  by (induction ns) (auto simp: ns_entry_ok_def)

lemma glue_record_ok:
  assumes rr: "dns_parse_rr msg off = Ok (rr, nx)" and ok: "referral_ok msg qname zone ref"
  shows "\<exists>ref'. glue_record msg zone rr ref = Ok ref' \<and> referral_ok msg qname zone ref'"
proof (cases "rr_type rr = DNS_TYPE_A \<and> rr_rdlength rr = 4 \<and> dns_name_in_bailiwick (rr_name rr) zone")
  case True
  let ?bs = "take 4 (drop (rr_rdata rr) msg)"
  have len: "rr_rdata rr + 4 \<le> length msg" using dns_parse_rr_in [OF rr] True by (simp add: rr_in_def)
  have g: "glue_from msg zone n (inet_ntop ?bs)" if "dns_name_equal n (rr_name rr)" for n
    using rr True len that by (force simp: glue_from_def)
  have "list_all (ns_entry_ok msg zone) (set_glue (rr_name rr) (inet_ntop ?bs) (ref_ns ref)) \<and>
      length (set_glue (rr_name rr) (inet_ntop ?bs) (ref_ns ref)) = length (ref_ns ref)"
    using ok g by (intro set_glue_ok) (simp_all add: referral_ok_def)
  then have "referral_ok msg qname zone (ref\<lparr>ref_ns := set_glue (rr_name rr) (inet_ntop ?bs) (ref_ns ref)\<rparr>)"
    using ok by (auto simp: referral_ok_def)
  moreover have "glue_record msg zone rr ref =
      Ok (ref\<lparr>ref_ns := set_glue (rr_name rr) (inet_ntop ?bs) (ref_ns ref)\<rparr>)"
    using True len by (simp add: glue_record_def)
  ultimately show ?thesis by blast
next
  case False
  then have "glue_record msg zone rr ref = Ok ref" by (auto simp: glue_record_def)
  then show ?thesis using ok by blast
qed

lemma additional_ok:
  "referral_ok msg qname zone ref \<Longrightarrow>
   \<exists>ref'. additional msg zone off n ref = Ok ref' \<and> referral_ok msg qname zone ref'"
proof (induction n arbitrary: off ref)
  case (Suc n)
  show ?case
  proof (cases "dns_parse_rr msg off")
    case (Ok r)
    obtain rr nx where r: "r = (rr, nx)" by force
    obtain ref1 where "glue_record msg zone rr ref = Ok ref1" "referral_ok msg qname zone ref1"
      using glue_record_ok [OF _ Suc.prems] Ok r by blast
    then show ?thesis using Suc.IH [of ref1 nx] Ok by (simp add: r del: res_bind_eq_Ok Ok_eq_res_bind)
  qed (use dns_parse_rr_nofault Suc.prems in auto)
qed simp

section \<open>The whole of \<open>dissect\<close>\<close>

lemma dissect_nofault [nofault]: "dissect msg qname zone cap \<noteq> Fault"
proof -
  have "authority msg qname zone off n \<lparr>ref_zone = [], ref_ns = []\<rparr> \<noteq> Fault" for off n
    using authority_ok [of msg qname zone "\<lparr>ref_zone = [], ref_ns = []\<rparr>" off n] by (auto simp: referral_ok_def)
  moreover have "additional msg zone off n ref \<noteq> Fault"
    if "authority msg qname zone o2 m \<lparr>ref_zone = [], ref_ns = []\<rparr> = Ok (ref, o3)" for off n o2 m ref o3
    using authority_ok [of msg qname zone "\<lparr>ref_zone = [], ref_ns = []\<rparr>" o2 m] that
      additional_ok [of msg qname zone ref off n] by (auto simp: referral_ok_def)
  ultimately show ?thesis
    unfolding dissect_def skip_rrs_parse
    by (auto simp: res_bind_eq_Fault dns_parse_header_nofault skip_questions_nofault answer_passes_nofault answer_pass_nofault
        parse_rrs_nofault split: if_splits)
qed

text \<open>What a successful call has found in the answer section.\<close>

lemma dissect_elim:
  assumes "dissect msg qname zone cap = Ok d"
  obtains h start rrs e q where "dns_parse_header msg = Ok h" "h_flags h AND DNS_FLAG_TC = 0"
    "skip_questions msg DNS_HDR_LEN (unat (h_qdcount h)) = Ok start"
    "parse_rrs msg start (unat (h_ancount h)) = Ok (rrs, e)"
    "d_ans d = p_ans q" "d_cname d = p_cname q" "d_rcode d = h_flags h AND DNS_RCODE_MASK"
    "chain_ok q" "extends \<lparr>p_chain = [snprintf 256 qname], p_ans = [], p_cname = []\<rparr> q"
    "fold (accept msg qname zone cap) rrs (q\<lparr>p_ans := [], p_cname := []\<rparr>) = q"
    "referral_ok msg qname zone (d_ref d)"
    "length qname \<le> 255 \<longrightarrow> pass_sound msg zone (set rrs) qname cap q"
proof -
  let ?p0 = "\<lparr>p_chain = [snprintf 256 qname], p_ans = [], p_cname = []\<rparr>"
  from assms obtain h start q e ref e2 where
    h: "dns_parse_header msg = Ok h" "h_flags h AND DNS_FLAG_TC = 0"
      "skip_questions msg DNS_HDR_LEN (unat (h_qdcount h)) = Ok start"
    and q: "answer_passes (MAX_CNAME_HOPS + 1) msg qname zone cap start (unat (h_ancount h)) ?p0 = Ok q"
    and e: "skip_rrs msg start (unat (h_ancount h)) = Ok e"
    and ref: "authority msg qname zone e (unat (h_nscount h)) \<lparr>ref_zone = [], ref_ns = []\<rparr> = Ok (ref, e2)"
      "additional msg zone e2 (unat (h_arcount h)) ref = Ok (d_ref d)"
    and d: "d_ans d = p_ans q" "d_cname d = p_cname q" "d_rcode d = h_flags h AND DNS_RCODE_MASK"
    unfolding dissect_def by (auto split: if_splits)
  from e obtain rrs where rrs: "parse_rrs msg start (unat (h_ancount h)) = Ok (rrs, e)"
    by (auto simp: skip_rrs_parse)
  have "referral_ok msg qname zone \<lparr>ref_zone = [], ref_ns = []\<rparr>" by (simp add: referral_ok_def)
  from authority_ok [OF this, of e "unat (h_nscount h)"] have "referral_ok msg qname zone ref" using ref(1) by auto
  from additional_ok [OF this, of e2 "unat (h_arcount h)"] have "referral_ok msg qname zone (d_ref d)"
    using ref(2) by auto
  moreover have "length qname \<le> 255 \<longrightarrow> pass_sound msg zone (set rrs) qname cap q"
    using answer_passes_sound [OF rrs _ q] by (auto simp: pass_sound_def snprintf_id on_chain_start)
  moreover have "chain_ok ?p0" by (simp add: chain_ok_def)
  ultimately show thesis
    using answer_passes_fixpoint [OF rrs, of ?p0 "MAX_CNAME_HOPS + 1" qname zone cap] q h rrs d that by auto
qed

lemma dissect_answers:
  assumes d: "dissect msg qname zone cap = Ok d" and q: "length qname \<le> DNS_MAX_NAME"
  shows "\<exists>h start rrs e. dns_parse_header msg = Ok h \<and>
    skip_questions msg DNS_HDR_LEN (unat (h_qdcount h)) = Ok start \<and>
    parse_rrs msg start (unat (h_ancount h)) = Ok (rrs, e) \<and>
    length (d_ans d) \<le> cap \<and>
    list_all (\<lambda>a. \<exists>rr. rr_gated msg zone (set rrs) qname rr \<and> answer_for msg rr a) (d_ans d) \<and>
    length (d_cname d) \<le> 255 \<and> is_cstr (d_cname d)"
proof -
  obtain h start rrs e p where
    "dns_parse_header msg = Ok h" "skip_questions msg DNS_HDR_LEN (unat (h_qdcount h)) = Ok start"
      "parse_rrs msg start (unat (h_ancount h)) = Ok (rrs, e)"
    and p: "d_ans d = p_ans p" "d_cname d = p_cname p" "length qname \<le> 255 \<longrightarrow> pass_sound msg zone (set rrs) qname cap p"
    by (rule dissect_elim [OF d])
  moreover have "is_cstr []" by (simp add: is_cstr_def)
  ultimately show ?thesis using q by (cases "p_cname p = []") (auto simp: pass_sound_def)
qed

lemma dissect_complete_lemma:
  assumes d: "dissect msg qname zone cap = Ok d" and q: "length qname \<le> DNS_MAX_NAME"
    and h: "dns_parse_header msg = Ok h" "skip_questions msg DNS_HDR_LEN (unat (h_qdcount h)) = Ok start"
      "parse_rrs msg start (unat (h_ancount h)) = Ok (rrs, e)"
    and few: "\<And>c. on_chain msg zone (set rrs) qname c \<Longrightarrow> lower c \<in> set L" "length L \<le> MAX_CNAME_HOPS + 1"
    and rr: "rr_gated msg zone (set rrs) qname rr"
      "rr_type rr = DNS_TYPE_A \<and> rr_rdlength rr = 4 \<or> rr_type rr = DNS_TYPE_AAAA \<and> rr_rdlength rr = 16"
    and room: "length (d_ans d) < cap"
  shows "\<exists>a\<in>set (d_ans d). answer_for msg rr a"
proof -
  obtain h' start' rrs' e' p where
    h': "dns_parse_header msg = Ok h'" "skip_questions msg DNS_HDR_LEN (unat (h_qdcount h')) = Ok start'"
      "parse_rrs msg start' (unat (h_ancount h')) = Ok (rrs', e')"
    and p: "d_ans d = p_ans p" "chain_ok p"
      "extends \<lparr>p_chain = [snprintf 256 qname], p_ans = [], p_cname = []\<rparr> p"
      "fold (accept msg qname zone cap) rrs' (p\<lparr>p_ans := [], p_cname := []\<rparr>) = p"
      "length qname \<le> 255 \<longrightarrow> pass_sound msg zone (set rrs') qname cap p"
    by (rule dissect_elim [OF d])
  have [simp]: "rrs' = rrs" using h h' by simp
  have fp: "p_chain p = p_chain (p\<lparr>p_ans := [], p_cname := []\<rparr>)" by simp
  have inn: "list_all (rr_in msg) rrs" by (rule parse_rrs_in [OF h(3)])
  have chain: "list_all (on_chain msg zone (set rrs) qname) (p_chain p)"
    using p(5) q by (simp add: pass_sound_def)
  have qn: "lower qname \<in> set (map lower (p_chain p))" using p(3) q by (auto simp: extends_def snprintf_id)
  obtain c where c: "on_chain msg zone (set rrs) qname c" "dns_name_equal (rr_name rr) c"
    and g: "rr \<in> set rrs" "rr_rclass rr = DNS_CLASS_IN" "dns_name_in_bailiwick (rr_name rr) zone"
    using rr(1) by (auto simp: rr_gated_def)
  have "lower c \<in> set (map lower (p_chain p))"
    by (rule chain_covers [OF p(4) [unfolded \<open>rrs' = rrs\<close>] fp inn p(2) chain qn few c(1)])
  then have "lower (rr_name rr) \<in> set (map lower (p_chain p))" using c(2) by (simp add: dns_name_equal_iff)
  then show ?thesis
    using fixpoint_accepts [OF p(4) [unfolded \<open>rrs' = rrs\<close>] fp inn g _ rr(2)] room by (simp add: p(1))
qed

lemma answer_for_wf:
  assumes "answer_for msg rr a" "rr_in msg rr"
  shows "wf_answer a" "cstr_answer a" "length (an_owner a) \<le> 255"
  using assms dns_name_decode_bounds(4)
  by (auto simp: answer_for_def wf_answer_def cstr_answer_def rr_in_def dns_msg_consts split: dns_rdata.splits)

section \<open>Properties\<close>

text \<open>C17: \<open>dissect\<close> never reads outside the message or writes outside its buffers, and believes
  only what it may: every answer it returns is a record of the answer section, of class IN, owned
  by a name at or below the zone the server speaks for, and that name is reached from the name
  asked for by CNAME records that satisfy the same conditions. Type, TTL, owner and data are
  those of the record, and there are at most \<open>cap\<close> of them.\<close>

theorem dissect_sound:
  assumes "length qname \<le> DNS_MAX_NAME"
  shows "dissect msg qname zone cap \<noteq> Fault \<and>
    (dissect msg qname zone cap = Ok d \<longrightarrow> (\<exists>h start rrs e. dns_parse_header msg = Ok h \<and>
      skip_questions msg DNS_HDR_LEN (unat (h_qdcount h)) = Ok start \<and>
      parse_rrs msg start (unat (h_ancount h)) = Ok (rrs, e) \<and> length (d_ans d) \<le> cap \<and>
      list_all (\<lambda>a. wf_answer a \<and> cstr_answer a \<and>
        (\<exists>rr. rr_gated msg zone (set rrs) qname rr \<and> answer_for msg rr a)) (d_ans d)))"
proof (intro conjI impI)
  show "dissect msg qname zone cap \<noteq> Fault" by (rule dissect_nofault)
  assume d: "dissect msg qname zone cap = Ok d"
  from dissect_answers [OF d assms] obtain h start rrs e where
    h: "dns_parse_header msg = Ok h" "skip_questions msg DNS_HDR_LEN (unat (h_qdcount h)) = Ok start"
    and rrs: "parse_rrs msg start (unat (h_ancount h)) = Ok (rrs, e)" and len: "length (d_ans d) \<le> cap"
    and ans: "list_all (\<lambda>a. \<exists>rr. rr_gated msg zone (set rrs) qname rr \<and> answer_for msg rr a) (d_ans d)"
    by blast
  have "wf_answer a \<and> cstr_answer a" if "rr_gated msg zone (set rrs) qname rr" "answer_for msg rr a" for rr a
    using answer_for_wf [OF that(2)] that(1) parse_rrs_in [OF rrs] by (auto simp: rr_gated_def list_all_iff)
  then show "\<exists>h start rrs e. dns_parse_header msg = Ok h \<and>
      skip_questions msg DNS_HDR_LEN (unat (h_qdcount h)) = Ok start \<and>
      parse_rrs msg start (unat (h_ancount h)) = Ok (rrs, e) \<and> length (d_ans d) \<le> cap \<and>
      list_all (\<lambda>a. wf_answer a \<and> cstr_answer a \<and>
        (\<exists>rr. rr_gated msg zone (set rrs) qname rr \<and> answer_for msg rr a)) (d_ans d)"
    using h rrs len ans by (intro exI [of _ h] exI [of _ start] exI [of _ rrs] exI [of _ e])
      (auto simp: list_all_iff)
qed

subsection \<open>Concrete responses\<close>

text \<open>
  A response for \<open>a\<close> whose alias \<open>a CNAME b\<close> follows the address of \<open>b\<close>, and a root response with
  one NS record for the root and one for \<open>a\<close>.
\<close>

definition sample_reply :: bytes where
  "sample_reply = [0, 7, 0x84, 0, 0, 1, 0, 2, 0, 0, 0, 0, 1, 97, 0, 0, 1, 0, 1,
     1, 98, 0, 0, 1, 0, 1, 0, 0, 0, 60, 0, 4, 192, 0, 2, 1,
     0xC0, 12, 0, 5, 0, 1, 0, 0, 0, 30, 0, 2, 0xC0, 19]"

definition root_reply :: bytes where
  "root_reply = [0, 7, 0x80, 0, 0, 1, 0, 0, 0, 2, 0, 0, 1, 97, 0, 0, 1, 0, 1,
     0, 0, 2, 0, 1, 0, 0, 0, 60, 0, 3, 1, 98, 0,
     1, 97, 0, 0, 2, 0, 1, 0, 0, 0, 60, 0, 3, 1, 99, 0]"

lemma root_reply_dissect:
  "dissect root_reply [97] [] 8 = Ok \<lparr>d_ans = [], d_cname = [],
     d_ref = \<lparr>ref_zone = [97], ref_ns = [([98], None), ([99], None)]\<rparr>, d_rcode = 0\<rparr>"
  by code_simp

lemma sample_reply_dissect:
  "dissect sample_reply [97] [] 8 = Ok \<lparr>
     d_ans = [\<lparr>an_type = 1, an_ttl = 60, an_rdata = RD_A [192, 0, 2, 1], an_owner = [98]\<rparr>,
              \<lparr>an_type = 5, an_ttl = 30, an_rdata = RD_CNAME [98], an_owner = [97]\<rparr>],
     d_cname = [98], d_ref = \<lparr>ref_zone = [], ref_ns = []\<rparr>, d_rcode = 0\<rparr>"
  by code_simp

lemma sample_reply_parts:
  "dns_parse_header sample_reply = Ok \<lparr>h_id = 7, h_flags = 0x8400, h_qdcount = 1, h_ancount = 2, h_nscount = 0, h_arcount = 0\<rparr>"
  "dns_skip_question sample_reply 12 = Ok 19"
  "parse_rrs sample_reply 19 2 = Ok
     ([\<lparr>rr_name = [98], rr_type = 1, rr_rclass = 1, rr_ttl = 60, rr_rdlength = 4, rr_rdata = 32\<rparr>,
       \<lparr>rr_name = [97], rr_type = 5, rr_rclass = 1, rr_ttl = 30, rr_rdlength = 2, rr_rdata = 48\<rparr>], 50)"
  "dns_name_decode sample_reply 48 256 = Ok ([98], 50)"
  by code_simp+

theorem dissect_sound_witness:
  "\<exists>d. dissect sample_reply [97] [] 8 = Ok d \<and> length (d_ans d) = 2 \<and>
     list_all (\<lambda>a. wf_answer a \<and> cstr_answer a) (d_ans d)"
  using dissect_sound [of "[97]" sample_reply "[]" 8] sample_reply_dissect
  by (fastforce simp: list_all_iff)

text \<open>C18: Order does not matter. The passes over the answer section always converge within their
  budget, and the result misses nothing: when the names reachable from \<open>qname\<close> fit the chain and
  the answers fit the array, every address record owned by such a name and inside the zone is
  among the answers, wherever it stands relative to the aliases that lead to it.\<close>

theorem dissect_complete:
  assumes "dissect msg qname zone cap = Ok d" "length qname \<le> DNS_MAX_NAME"
    and "dns_parse_header msg = Ok h" "skip_questions msg DNS_HDR_LEN (unat (h_qdcount h)) = Ok start"
      "parse_rrs msg start (unat (h_ancount h)) = Ok (rrs, e)"
    and "\<And>c. on_chain msg zone (set rrs) qname c \<Longrightarrow> lower c \<in> set L" "length L \<le> MAX_CNAME_HOPS + 1"
    and "rr_gated msg zone (set rrs) qname rr"
      "rr_type rr = DNS_TYPE_A \<and> rr_rdlength rr = 4 \<or> rr_type rr = DNS_TYPE_AAAA \<and> rr_rdlength rr = 16"
    and "length (d_ans d) < cap"
  shows "\<exists>a\<in>set (d_ans d). answer_for msg rr a"
  using assms by (rule dissect_complete_lemma)

theorem dissect_complete_witness:
  "\<exists>d a. dissect sample_reply [97] [] 8 = Ok d \<and> a \<in> set (d_ans d) \<and> an_owner a = [98] \<and> an_type a = DNS_TYPE_A"
proof -
  let ?r1 = "\<lparr>rr_name = [98], rr_type = 1, rr_rclass = 1, rr_ttl = 60, rr_rdlength = 4, rr_rdata = 32\<rparr>"
  let ?r2 = "\<lparr>rr_name = [97], rr_type = 5, rr_rclass = 1, rr_ttl = 30, rr_rdlength = 2, rr_rdata = 48\<rparr>"
  have b: "on_chain sample_reply [] (set [?r1, ?r2]) [97] [98]"
    by (rule on_chain_hop [OF on_chain_start, of ?r2, where nx = 50])
      (simp_all add: dns_msg_consts dns_name_in_bailiwick_def sample_reply_parts)
  have few: "lower c \<in> set [[97], [98]]" if "on_chain sample_reply [] (set [?r1, ?r2]) [97] c" for c
    using that by induction (auto simp: lower_def tolower_def dns_msg_consts sample_reply_parts)
  have g: "rr_gated sample_reply [] (set [?r1, ?r2]) [97] ?r1"
    using b by (auto simp: rr_gated_def dns_msg_consts dns_name_in_bailiwick_def intro!: exI [of _ "[98]"])
  obtain d where d: "dissect sample_reply [97] [] 8 = Ok d" "length (d_ans d) = 2" using sample_reply_dissect by simp
  have "\<exists>a\<in>set (d_ans d). answer_for sample_reply ?r1 a"
    by (rule dissect_complete [OF d(1) _ sample_reply_parts(1) _ _ few _ g, where start = 19 and e = 50])
      (simp_all add: sample_reply_parts dns_msg_consts MAX_CNAME_HOPS_def d(2))
  then obtain a where "a \<in> set (d_ans d)" "answer_for sample_reply ?r1 a" ..
  moreover have "an_owner a = [98]" "an_type a = DNS_TYPE_A"
    using calculation(2) by (simp_all add: answer_for_def DNS_TYPE_A_def)
  ultimately show ?thesis using d(1) by blast
qed

text \<open>C19: A referral stays on the path. When \<open>dissect\<close> hands back name servers for a zone below
  the root, the new zone is inside the old one and strictly longer, and the name asked for is
  inside the new one. There are at most eight servers, and each address among them comes from an
  A record of the message for that very server name, owned inside the zone of the sender.\<close>

theorem referral_on_path:
  assumes "dissect msg qname zone cap = Ok d" "ref_ns (d_ref d) \<noteq> []" "zone \<noteq> []"
  shows "dns_name_in_bailiwick (ref_zone (d_ref d)) zone \<and> length zone < length (ref_zone (d_ref d)) \<and>
    dns_name_in_bailiwick qname (ref_zone (d_ref d)) \<and> length (ref_ns (d_ref d)) \<le> MAX_NS_CANDIDATES \<and>
    list_all (\<lambda>(ns, addr). \<forall>a. addr = Some a \<longrightarrow> glue_from msg zone ns a) (ref_ns (d_ref d))"
proof -
  have "referral_ok msg qname zone (d_ref d)" by (rule dissect_elim [OF assms(1)])
  then show ?thesis using assms(2,3) by (auto simp: referral_ok_def ns_entry_ok_def list_all_iff)
qed

text \<open>A referral from \<open>a\<close> to \<open>b.a\<close> with glue.\<close>

definition glue_reply :: bytes where
  "glue_reply = [0, 7, 0x80, 0, 0, 1, 0, 0, 0, 1, 0, 1, 1, 98, 1, 97, 0, 0, 1, 0, 1,
     0xC0, 12, 0, 2, 0, 1, 0, 0, 0, 60, 0, 4, 1, 99, 0xC0, 12,
     0xC0, 33, 0, 1, 0, 1, 0, 0, 0, 60, 0, 4, 192, 0, 2, 53]"

lemma glue_reply_dissect:
  "dissect glue_reply [98, 46, 97] [97] 8 = Ok \<lparr>d_ans = [], d_cname = [],
     d_ref = \<lparr>ref_zone = [98, 46, 97], ref_ns = [([99, 46, 98, 46, 97], Some (ascii ''192.0.2.53''))]\<rparr>, d_rcode = 0\<rparr>"
  by code_simp

theorem referral_on_path_witness:
  "\<exists>d. dissect glue_reply [98, 46, 97] [97] 8 = Ok d \<and> length [97 :: byte] < length (ref_zone (d_ref d)) \<and>
     glue_from glue_reply [97] [99, 46, 98, 46, 97] (ascii ''192.0.2.53'')"
  using referral_on_path [OF glue_reply_dissect] glue_reply_dissect by simp


end
