(* ===== verification/Resolver.thy ===== *)
theory Resolver
  imports CacheRefinement Dissect
begin

text \<open>
  Iterative resolution from the roots (\<^verbatim>\<open>resolver.c\<close>): transaction ids, one UDP round trip, the walk
  down the delegations with its three budgets, and the entry point with the cache.

  The kernel is an argument, a record \<open>net\<close> of the system calls the code makes, each a function
  of a world state. \<^verbatim>\<open>recv\<close> yields a datagram, an interruption, a timeout or another error. The
  receive loop takes a fuel, the number of \<^verbatim>\<open>recv\<close> calls of one round trip: nothing in the code
  bounds it, so running out is the outer result \<open>None\<close>, and that resolution ends is proved from
  the hypothesis that the world interrupts or floods a socket only finitely often. The inner
  result is \<open>Ok\<close>, \<open>Err\<close> for \<^verbatim>\<open>return -1\<close>, or \<open>Fault\<close>.
\<close>

section \<open>Definitions\<close>

definition MAX_REFERRALS :: nat where "MAX_REFERRALS = 16"
definition MAX_NS_DEPTH :: nat where "MAX_NS_DEPTH = 3"
definition MSG_BUF :: nat where "MSG_BUF = 1500"
definition TXID_POOL :: nat where "TXID_POOL = 64"

datatype rx = RxData bytes | RxIntr | RxAgain | RxErr

text \<open>
  \<^verbatim>\<open>getrandom\<close> yields the 16 bit ids it wrote, fewer than asked for when it fails; \<^verbatim>\<open>connect\<close> is given
  the address of the server, \<^verbatim>\<open>send\<close> the query.
\<close>

record 'w net =
  n_random :: "'w \<Rightarrow> u16 list \<times> 'w"
  n_socket :: "'w \<Rightarrow> bool \<times> 'w"
  n_connect :: "bytes \<Rightarrow> 'w \<Rightarrow> bool \<times> 'w"
  n_send :: "bytes \<Rightarrow> 'w \<Rightarrow> bool \<times> 'w"
  n_recv :: "'w \<Rightarrow> rx \<times> 'w"

text \<open>The statics of the file and the world: \<open>r_pool\<close> is the unused part of the id pool.\<close>

record 'w rstate =
  r_roots :: "cstring list"
  r_queries :: u64
  r_timeouts :: u64
  r_pool :: "u16 list"
  r_world :: 'w

definition root_hints :: "cstring list" where
  "root_hints = map ascii [''198.41.0.4'', ''170.247.170.2'', ''192.33.4.12'', ''199.7.91.13'',
     ''192.203.230.10'', ''192.5.5.241'', ''192.112.36.4'', ''198.97.190.53'', ''192.36.148.17'',
     ''192.58.128.30'', ''193.0.14.129'', ''199.7.83.42'', ''202.12.27.33'']"

definition next_txid :: "'w net \<Rightarrow> 'w rstate \<Rightarrow> u16 option \<times> 'w rstate" where
  "next_txid net s =
     (if r_pool s = [] then
        (let (ids, w) = n_random net (r_world s); s1 = s\<lparr>r_world := w\<rparr>
         in if length ids \<noteq> TXID_POOL then (None, s1)
            else (Some (last ids), s1\<lparr>r_pool := butlast ids\<rparr>))
      else (Some (last (r_pool s)), s\<lparr>r_pool := butlast (r_pool s)\<rparr>))"

text \<open>\<^verbatim>\<open>strtok\<close> on commas: the non-empty runs between them.\<close>

function strtok_all :: "cstring \<Rightarrow> cstring list" where
  "strtok_all s =
     (let s1 = dropWhile (\<lambda>c. c = 44) s
      in if s1 = [] then []
         else takeWhile (\<lambda>c. c \<noteq> 44) s1 # strtok_all (dropWhile (\<lambda>c. c \<noteq> 44) s1))"
  by pat_completeness auto
termination
proof (relation "measure length", goal_cases)
  case (2 s s1)
  then have "hd s1 \<noteq> 44" using hd_dropWhile [of "\<lambda>c. c = 44" s] by auto
  then have "length (dropWhile (\<lambda>c. c \<noteq> 44) s1) < length s1"
    using 2(2) length_dropWhile_le [of "\<lambda>c. c \<noteq> 44" "tl s1"] by (cases s1) auto
  also have "length s1 \<le> length s" using 2(1) by (simp add: length_dropWhile_le)
  finally show ?case by simp
qed simp

declare strtok_all.simps [simp del]

definition dns_resolver_init :: "cstring option \<Rightarrow> 'w rstate \<Rightarrow> 'w rstate" where
  "dns_resolver_init env s = (case env of
       None \<Rightarrow> s
     | Some e \<Rightarrow>
         let toks = map (\<lambda>tok. snprintf INET_ADDRSTRLEN (dropWhile (\<lambda>c. c = 32) tok))
                      (take MAX_NS_CANDIDATES (strtok_all (snprintf 512 e)))
         in if e = [] \<or> toks = [] then s else s\<lparr>r_roots := toks\<rparr>)"

subsection \<open>One round trip\<close>

datatype verdict = Accept | Retry | Give_up

definition check_reply :: "u16 \<Rightarrow> cstring \<Rightarrow> u16 \<Rightarrow> bytes \<Rightarrow> verdict res" where
  "check_reply txid name qtype resp =
     (case dns_parse_header resp of
        Fault \<Rightarrow> Fault
      | Err \<Rightarrow> Ok Give_up
      | Ok h \<Rightarrow>
          if h_id h \<noteq> txid \<or> h_flags h AND DNS_FLAG_QR = 0 then Ok Retry
          else if h_qdcount h \<noteq> 1 then Ok Retry
          else (case dns_name_decode resp DNS_HDR_LEN (DNS_MAX_NAME + 1) of
              Fault \<Rightarrow> Fault
            | Err \<Rightarrow> Ok Retry
            | Ok (rname, qoff) \<Rightarrow>
                if length resp < qoff + 4 then Ok Retry
                else res_bind (rd16 resp qoff) (\<lambda>ty. res_bind (rd16 resp (qoff + 2)) (\<lambda>cl.
                  if ty \<noteq> qtype then Ok Retry
                  else if cl \<noteq> DNS_CLASS_IN then Ok Retry
                  else if \<not> dns_name_equal rname name then Ok Retry
                  else Ok Accept))))"

fun recv_loop ::
  "nat \<Rightarrow> 'w net \<Rightarrow> u16 \<Rightarrow> cstring \<Rightarrow> u16 \<Rightarrow> nat \<Rightarrow> 'w rstate \<Rightarrow> (bytes res \<times> 'w rstate) option" where
  "recv_loop 0 net txid name qtype cap s = None"
| "recv_loop (Suc fuel) net txid name qtype cap s =
     (let (rx, w) = n_recv net (r_world s); s1 = s\<lparr>r_world := w\<rparr>
      in case rx of
           RxIntr \<Rightarrow> recv_loop fuel net txid name qtype cap s1
         | RxAgain \<Rightarrow> Some (Err, s1\<lparr>r_timeouts := r_timeouts s1 + 1\<rparr>)
         | RxErr \<Rightarrow> Some (Err, s1)
         | RxData d \<Rightarrow>
             (let resp = take cap d
              in case check_reply txid name qtype resp of
                   Fault \<Rightarrow> Some (Fault, s1)
                 | Err \<Rightarrow> Some (Err, s1)
                 | Ok Give_up \<Rightarrow> Some (Err, s1)
                 | Ok Retry \<Rightarrow> recv_loop fuel net txid name qtype cap s1
                 | Ok Accept \<Rightarrow> Some (Ok resp, s1)))"

definition query_server ::
  "nat \<Rightarrow> 'w net \<Rightarrow> cstring \<Rightarrow> cstring \<Rightarrow> u16 \<Rightarrow> nat \<Rightarrow> 'w rstate \<Rightarrow> (bytes res \<times> 'w rstate) option" where
  "query_server fuel net server_ip name qtype resp_cap s =
     (case next_txid net s of
        (None, s1) \<Rightarrow> Some (Err, s1)
      | (Some txid, s1) \<Rightarrow>
          (case dns_build_query txid name qtype False DNS_EDNS_OUR_UDP_PAYLOAD MSG_BUF of
             Fault \<Rightarrow> Some (Fault, s1)
           | Err \<Rightarrow> Some (Err, s1)
           | Ok qbuf \<Rightarrow>
               (let (fd_ok, w) = n_socket net (r_world s1); s2 = s1\<lparr>r_world := w\<rparr>
                in if \<not> fd_ok then Some (Err, s2)
                   else (case inet_pton server_ip of
                       None \<Rightarrow> Some (Err, s2)
                     | Some addr \<Rightarrow>
                         (let (conn_ok, w) = n_connect net addr (r_world s2); s3 = s2\<lparr>r_world := w\<rparr>
                          in if \<not> conn_ok then Some (Err, s3)
                             else
                               (let s4 = s3\<lparr>r_queries := r_queries s3 + 1\<rparr>;
                                    (send_ok, w) = n_send net qbuf (r_world s4); s5 = s4\<lparr>r_world := w\<rparr>
                                in if \<not> send_ok then Some (Err, s5)
                                   else recv_loop fuel net txid name qtype resp_cap s5))))))"

subsection \<open>The walk\<close>

text \<open>The servers of one level, tried in turn until one gives a usable response.\<close>

fun ask_servers ::
  "nat \<Rightarrow> 'w net \<Rightarrow> cstring \<Rightarrow> u16 \<Rightarrow> cstring \<Rightarrow> nat \<Rightarrow> cstring list \<Rightarrow> 'w rstate \<Rightarrow>
   (dissected res \<times> 'w rstate) option" where
  "ask_servers fuel net name qtype zone cap [] s = Some (Err, s)"
| "ask_servers fuel net name qtype zone cap (srv # srvs) s =
     (case query_server fuel net srv name qtype MSG_BUF s of
        None \<Rightarrow> None
      | Some (Fault, s1) \<Rightarrow> Some (Fault, s1)
      | Some (Err, s1) \<Rightarrow> ask_servers fuel net name qtype zone cap srvs s1
      | Some (Ok resp, s1) \<Rightarrow>
          (case dissect resp name zone cap of
             Fault \<Rightarrow> Some (Fault, s1)
           | Err \<Rightarrow> ask_servers fuel net name qtype zone cap srvs s1
           | Ok d \<Rightarrow> Some (Ok d, s1)))"

definition glue_addrs :: "referral \<Rightarrow> cstring list" where
  "glue_addrs ref = map (snprintf INET_ADDRSTRLEN)
     (take MAX_NS_CANDIDATES (List.map_filter snd (ref_ns ref)))"

definition has_answer :: "u16 \<Rightarrow> cstring \<Rightarrow> dns_answer list \<Rightarrow> bool" where
  "has_answer qtype name ans =
     list_ex (\<lambda>a. an_type a = qtype \<and> dns_name_equal (an_owner a) name) ans"

text \<open>The address of the first A record, as \<open>resolve_ns_addr\<close> reads it out of the answers.\<close>

definition first_addr :: "dns_answer list \<Rightarrow> cstring option res" where
  "first_addr ans = (case find (\<lambda>a. an_type a = DNS_TYPE_A) ans of
       None \<Rightarrow> Ok None
     | Some a \<Rightarrow> res_bind (rdata_a (an_rdata a)) (\<lambda>bs. Ok (Some (snprintf INET_ADDRSTRLEN (inet_ntop bs)))))"

lemma res_case_cong [fundef_cong]:
  assumes "r = r'" "\<And>a. r' = Ok a \<Longrightarrow> f a = f' a" "r' = Err \<Longrightarrow> g = g'" "r' = Fault \<Longrightarrow> h = h'"
  shows "(case r of Ok a \<Rightarrow> f a | Err \<Rightarrow> g | Fault \<Rightarrow> h) = (case r' of Ok a \<Rightarrow> f' a | Err \<Rightarrow> g' | Fault \<Rightarrow> h')"
  using assms by (cases r') auto

text \<open>
  \<open>resolve_from\<close> copies the servers and starts at the root; \<open>resolve_levels k\<close> is its loop with \<open>k\<close>
  levels left; \<open>resolve_ns\<close> is the loop over the names of a referral without glue, with
  \<open>resolve_ns_addr\<close> as its body. \<open>nd\<close> is the nesting depth and \<open>hops\<close> the number of aliases followed.
\<close>

function
  resolve_from :: "nat \<Rightarrow> 'w net \<Rightarrow> nat \<Rightarrow> nat \<Rightarrow> cstring \<Rightarrow> u16 \<Rightarrow> cstring list \<Rightarrow> nat \<Rightarrow> 'w rstate \<Rightarrow>
    ((dns_answer list \<times> u16) res \<times> 'w rstate) option" and
  resolve_levels :: "nat \<Rightarrow> nat \<Rightarrow> 'w net \<Rightarrow> nat \<Rightarrow> nat \<Rightarrow> cstring \<Rightarrow> u16 \<Rightarrow> cstring list \<Rightarrow> cstring \<Rightarrow> nat \<Rightarrow>
    'w rstate \<Rightarrow> ((dns_answer list \<times> u16) res \<times> 'w rstate) option" and
  resolve_ns :: "nat \<Rightarrow> 'w net \<Rightarrow> nat \<Rightarrow> cstring list \<Rightarrow> 'w rstate \<Rightarrow> (cstring option res \<times> 'w rstate) option"
where
  "resolve_from fuel net nd hops name qtype servers cap s =
     resolve_levels MAX_REFERRALS fuel net nd hops name qtype
       (map (snprintf INET_ADDRSTRLEN) (take MAX_NS_CANDIDATES servers)) [] cap s"
| "resolve_levels 0 fuel net nd hops name qtype current zone cap s = Some (Err, s)"
| "resolve_levels (Suc k) fuel net nd hops name qtype current zone cap s =
     (case ask_servers fuel net name qtype zone cap current s of
        None \<Rightarrow> None
      | Some (Fault, s1) \<Rightarrow> Some (Fault, s1)
      | Some (Err, s1) \<Rightarrow> Some (Err, s1)
      | Some (Ok d, s1) \<Rightarrow>
          if d_rcode d = DNS_RCODE_NXDOMAIN then Some (Ok (d_ans d, d_rcode d), s1)
          else if has_answer qtype name (d_ans d) then Some (Ok (d_ans d, DNS_RCODE_NOERROR), s1)
          else if d_cname d \<noteq> [] \<and> hops < MAX_CNAME_HOPS then
            (case resolve_from fuel net nd (hops + 1) (d_cname d) qtype (r_roots s1) DNS_MAX_ANSWERS s1 of
               None \<Rightarrow> None
             | Some (Fault, s2) \<Rightarrow> Some (Fault, s2)
             | Some (Err, s2) \<Rightarrow> Some (Err, s2)
             | Some (Ok (tail, sub_rcode), s2) \<Rightarrow>
                 Some (Ok (d_ans d @ take (cap - length (d_ans d)) tail, sub_rcode), s2))
          else if ref_ns (d_ref d) = [] then
            (if d_rcode d = DNS_RCODE_NOERROR then Some (Ok (d_ans d, d_rcode d), s1) else Some (Err, s1))
          else if glue_addrs (d_ref d) \<noteq> [] then
            resolve_levels k fuel net nd hops name qtype (glue_addrs (d_ref d)) (ref_zone (d_ref d)) cap s1
          else
            (case resolve_ns fuel net nd (map fst (ref_ns (d_ref d))) s1 of
               None \<Rightarrow> None
             | Some (Fault, s2) \<Rightarrow> Some (Fault, s2)
             | Some (Err, s2) \<Rightarrow> Some (Err, s2)
             | Some (Ok None, s2) \<Rightarrow> Some (Err, s2)
             | Some (Ok (Some addr), s2) \<Rightarrow>
                 resolve_levels k fuel net nd hops name qtype [addr] (ref_zone (d_ref d)) cap s2))"
| "resolve_ns fuel net nd [] s = Some (Ok None, s)"
| "resolve_ns fuel net nd (ns # nss) s =
     (if MAX_NS_DEPTH \<le> nd then resolve_ns fuel net nd nss s
      else case resolve_from fuel net (nd + 1) 0 ns DNS_TYPE_A (r_roots s) DNS_MAX_ANSWERS s of
          None \<Rightarrow> None
        | Some (Fault, s1) \<Rightarrow> Some (Fault, s1)
        | Some (Err, s1) \<Rightarrow> resolve_ns fuel net nd nss s1
        | Some (Ok (ans, _), s1) \<Rightarrow>
            (case first_addr ans of
               Fault \<Rightarrow> Some (Fault, s1)
             | Err \<Rightarrow> Some (Err, s1)
             | Ok (Some addr) \<Rightarrow> Some (Ok (Some addr), s1)
             | Ok None \<Rightarrow> resolve_ns fuel net nd nss s1))"
  by pat_completeness auto
termination
  by (relation "measures [
      \<lambda>x. case x of Inl (fuel, net, nd, hops, _) \<Rightarrow> MAX_NS_DEPTH - nd
        | Inr (Inl (k, fuel, net, nd, hops, _)) \<Rightarrow> MAX_NS_DEPTH - nd
        | Inr (Inr (fuel, net, nd, _)) \<Rightarrow> MAX_NS_DEPTH - nd,
      \<lambda>x. case x of Inl (fuel, net, nd, hops, _) \<Rightarrow> Suc (MAX_CNAME_HOPS - hops)
        | Inr (Inl (k, fuel, net, nd, hops, _)) \<Rightarrow> Suc (MAX_CNAME_HOPS - hops)
        | Inr (Inr _) \<Rightarrow> 0,
      \<lambda>x. case x of Inl _ \<Rightarrow> Suc MAX_REFERRALS
        | Inr (Inl (k, _)) \<Rightarrow> k
        | Inr (Inr (fuel, net, nd, nss, _)) \<Rightarrow> length nss]") auto

declare resolve_from.simps [simp del] resolve_levels.simps [simp del] resolve_ns.simps [simp del]

subsection \<open>Entry point\<close>

record 'w resolver =
  rv_cache :: cache
  rv_state :: "'w rstate"

text \<open>
  \<open>t\<close> is the calling thread, \<open>now\<close> and \<open>now'\<close> the clock readings of the lookup and of the store. The
  result is whether the call returned 0, the answers and the rcode.
\<close>

definition dns_resolve ::
  "(node_heap \<Rightarrow> nat option) \<Rightarrow> nat \<Rightarrow> 'w net \<Rightarrow> nat \<Rightarrow> int \<Rightarrow> int \<Rightarrow> cstring \<Rightarrow> u16 \<Rightarrow> nat \<Rightarrow> 'w resolver \<Rightarrow>
   ((bool \<times> dns_answer list \<times> u16) res \<times> 'w resolver) option" where
  "dns_resolve calloc fuel net t now now' name qtype cap v =
     (if qtype \<noteq> DNS_TYPE_A \<and> qtype \<noteq> DNS_TYPE_AAAA then Some (Ok (True, [], DNS_RCODE_NOTIMP), v)
      else (case dns_cache_get t now name qtype cap (rv_cache v) of
          Fault \<Rightarrow> Some (Fault, v)
        | Err \<Rightarrow> Some (Err, v)
        | Ok (Some (ans, rcode), c) \<Rightarrow> Some (Ok (True, ans, rcode), v\<lparr>rv_cache := c\<rparr>)
        | Ok (None, c) \<Rightarrow>
            (case resolve_from fuel net 0 0 name qtype (r_roots (rv_state v)) cap (rv_state v) of
               None \<Rightarrow> None
             | Some (Fault, s1) \<Rightarrow> Some (Fault, v\<lparr>rv_cache := c, rv_state := s1\<rparr>)
             | Some (Err, s1) \<Rightarrow>
                 Some (Ok (False, [], DNS_RCODE_SERVFAIL), v\<lparr>rv_cache := c, rv_state := s1\<rparr>)
             | Some (Ok (ans, rcode), s1) \<Rightarrow>
                 (case (if rcode = DNS_RCODE_NOERROR \<and> ans \<noteq> [] then
                          dns_cache_put calloc t now' name qtype (Some ans) (length ans) rcode c
                        else if rcode = DNS_RCODE_NXDOMAIN then
                          dns_cache_put calloc t now' name qtype None 0 rcode c
                        else Ok c) of
                    Fault \<Rightarrow> Some (Fault, v\<lparr>rv_cache := c, rv_state := s1\<rparr>)
                  | Err \<Rightarrow> Some (Err, v\<lparr>rv_cache := c, rv_state := s1\<rparr>)
                  | Ok c' \<Rightarrow> Some (Ok (True, ans, rcode), v\<lparr>rv_cache := c', rv_state := s1\<rparr>)))))"

definition dns_resolver_stats :: "'w rstate \<Rightarrow> u64 \<times> u64" where
  "dns_resolver_stats s = (r_queries s, r_timeouts s)"

section \<open>One round trip\<close>

lemma check_reply_nofault [nofault]: "check_reply txid name qtype resp \<noteq> Fault"
  using dns_parse_header_nofault [of resp] dns_name_decode_nofault [of resp DNS_HDR_LEN "DNS_MAX_NAME + 1"]
  by (auto simp: check_reply_def res_bind_eq_Fault rd16_def split: res.splits)

lemma check_reply_noerr: "check_reply txid name qtype resp \<noteq> Err"
  by (auto simp: check_reply_def res_bind_eq_Err rd16_def split: res.splits)

text \<open>A datagram that answers the query with id \<open>txid\<close> for \<open>name\<close> and \<open>qtype\<close>.\<close>

definition answers_query :: "u16 \<Rightarrow> cstring \<Rightarrow> u16 \<Rightarrow> bytes \<Rightarrow> bool" where
  "answers_query txid name qtype resp \<longleftrightarrow>
     (\<exists>h rname qoff. dns_parse_header resp = Ok h \<and> h_id h = txid \<and> h_flags h AND DNS_FLAG_QR \<noteq> 0 \<and>
        h_qdcount h = 1 \<and> dns_name_decode resp DNS_HDR_LEN 256 = Ok (rname, qoff) \<and> dns_name_equal rname name \<and>
        rd16 resp qoff = Ok qtype \<and> rd16 resp (qoff + 2) = Ok DNS_CLASS_IN)"

lemma check_reply_Accept: "check_reply txid name qtype resp = Ok Accept \<longleftrightarrow> answers_query txid name qtype resp"
  unfolding check_reply_def answers_query_def
  by (auto simp: DNS_HDR_LEN_def simp del: dns_parse_header_Err split: res.splits if_splits)

lemma recv_loop_spec:
  assumes "recv_loop fuel net txid name qtype cap s = Some (r, s')"
  shows "r \<noteq> Fault \<and> (\<forall>resp. r = Ok resp \<longrightarrow> answers_query txid name qtype resp \<and> length resp \<le> cap) \<and>
    r_roots s' = r_roots s \<and> r_queries s' = r_queries s \<and> r_pool s' = r_pool s"
  using assms
proof (induction fuel arbitrary: s)
  case (Suc fuel)
  obtain rx w where n: "n_recv net (r_world s) = (rx, w)" by force
  let ?s1 = "s\<lparr>r_world := w\<rparr>"
  show ?case
  proof (cases rx)
    case (RxData d)
    show ?thesis
    proof (cases "check_reply txid name qtype (take cap d)")
      case (Ok v)
      then show ?thesis
        using Suc.IH [of ?s1] Suc.prems n RxData check_reply_Accept [of txid name qtype "take cap d"]
        by (cases v) (auto simp: Let_def)
    qed (use check_reply_nofault check_reply_noerr in auto)
  qed (use Suc.IH [of ?s1] Suc.prems n in \<open>auto simp: Let_def\<close>)
qed simp

text \<open>The world settles when one of the next \<open>k\<close> receives times out or fails.\<close>

fun settles :: "nat \<Rightarrow> 'w net \<Rightarrow> 'w \<Rightarrow> bool" where
  "settles 0 net w = False"
| "settles (Suc k) net w = (case n_recv net w of (rx, w') \<Rightarrow> rx = RxAgain \<or> rx = RxErr \<or> settles k net w')"

lemma recv_loop_returns: "settles fuel net (r_world s) \<Longrightarrow> recv_loop fuel net txid name qtype cap s \<noteq> None"
proof (induction fuel arbitrary: s)
  case (Suc fuel)
  obtain rx w where n: "n_recv net (r_world s) = (rx, w)" by force
  then show ?case
    using Suc.IH [of "s\<lparr>r_world := w\<rparr>"] Suc.prems
    by (auto simp: Let_def split: rx.splits res.splits verdict.splits)
qed simp

lemma next_txid_spec:
  "next_txid net s = (r, s') \<Longrightarrow> r_roots s' = r_roots s \<and> r_queries s' = r_queries s \<and> r_timeouts s' = r_timeouts s"
  by (auto simp: next_txid_def Let_def split: if_splits prod.splits)

lemma query_server_spec:
  assumes "query_server fuel net ip name qtype cap s = Some (r, s')"
  shows "r \<noteq> Fault" and "r_roots s' = r_roots s"
    and "r_queries s' = r_queries s \<or> r_queries s' = r_queries s + 1"
    and "r = Ok resp \<Longrightarrow> \<exists>txid s1. next_txid net s = (Some txid, s1) \<and> answers_query txid name qtype resp \<and>
      length resp \<le> cap \<and> inet_pton ip \<noteq> None"
proof -
  obtain tx s1 where tx: "next_txid net s = (tx, s1)" by force
  note tx' = next_txid_spec [OF tx]
  have "r \<noteq> Fault \<and> r_roots s' = r_roots s \<and> (r_queries s' = r_queries s \<or> r_queries s' = r_queries s + 1) \<and>
    (\<forall>resp. r = Ok resp \<longrightarrow> (\<exists>txid. tx = Some txid \<and> answers_query txid name qtype resp \<and> length resp \<le> cap \<and>
      inet_pton ip \<noteq> None))"
  proof (cases tx)
    case None
    then show ?thesis using assms tx tx' by (simp add: query_server_def)
  next
    case (Some txid)
    show ?thesis
    proof (cases "dns_build_query txid name qtype False DNS_EDNS_OUR_UDP_PAYLOAD MSG_BUF")
      case (Ok q)
      show ?thesis
        using assms tx tx' Some Ok
        by (auto simp: query_server_def Let_def split: prod.splits if_splits option.splits dest!: recv_loop_spec)
    qed (use assms tx tx' Some dns_build_query_nofault in \<open>auto simp: query_server_def\<close>)
  qed
  then show "r \<noteq> Fault" "r_roots s' = r_roots s" "r_queries s' = r_queries s \<or> r_queries s' = r_queries s + 1"
    "r = Ok resp \<Longrightarrow> \<exists>txid s1. next_txid net s = (Some txid, s1) \<and> answers_query txid name qtype resp \<and>
      length resp \<le> cap \<and> inet_pton ip \<noteq> None"
    using tx by auto
qed

lemma query_server_returns:
  assumes "\<And>w. settles fuel net w"
  shows "query_server fuel net ip name qtype cap s \<noteq> None"
  using recv_loop_returns [OF assms]
  by (auto simp: query_server_def Let_def split: prod.splits option.splits res.splits)

section \<open>Outcomes of a resolution step\<close>

text \<open>
  A step that started in \<open>s\<close> is good when it returns if the world settles, never faults, keeps the
  root servers, sends at most \<open>b\<close> queries, and returns only values with \<open>Q\<close>.
\<close>

definition good :: "bool \<Rightarrow> ('a \<Rightarrow> bool) \<Rightarrow> nat \<Rightarrow> 'w rstate \<Rightarrow> ('a res \<times> 'w rstate) option \<Rightarrow> bool" where
  "good settled Q b s out \<longleftrightarrow> (case out of
       None \<Rightarrow> \<not> settled
     | Some (r, s') \<Rightarrow> r \<noteq> Fault \<and> r_roots s' = r_roots s \<and>
         (\<exists>n \<le> b. r_queries s' = r_queries s + of_nat n) \<and> (\<forall>x. r = Ok x \<longrightarrow> Q x))"

lemma good_seq:
  assumes "good st P ca s out"
    and "\<And>x s1. out = Some (Ok x, s1) \<Longrightarrow> P x \<Longrightarrow> good st Q cb s1 (f x s1)"
    and "\<And>s1. out = Some (Err, s1) \<Longrightarrow> good st Q cb s1 (g s1)"
    and "ca + cb \<le> b"
  shows "good st Q b s (case out of None \<Rightarrow> None | Some (Fault, s1) \<Rightarrow> Some (Fault, s1)
    | Some (Err, s1) \<Rightarrow> g s1 | Some (Ok x, s1) \<Rightarrow> f x s1)"
proof -
  have lift: "good st Q b s o2" if g: "good st Q cb s1 o2" and n: "r_roots s1 = r_roots s" "n \<le> ca"
      "r_queries s1 = r_queries s + of_nat n" for s1 o2 n
  proof (cases o2)
    case None
    then show ?thesis using g by (simp add: good_def)
  next
    case (Some p)
    obtain r s2 where p: "p = (r, s2)" by force
    obtain m where "m \<le> cb" "r_queries s2 = r_queries s1 + of_nat m"
      using g Some p by (auto simp: good_def)
    then have "n + m \<le> b" "r_queries s2 = r_queries s + of_nat (n + m)" using n assms(4) by simp_all
    then show ?thesis using g n Some p unfolding good_def by auto
  qed
  show ?thesis
  proof (cases out)
    case None
    then show ?thesis using assms(1) by (simp add: good_def)
  next
    case (Some p)
    obtain r s1 where p: "p = (r, s1)" by force
    obtain n where n: "n \<le> ca" "r_queries s1 = r_queries s + of_nat n" "r_roots s1 = r_roots s" "r \<noteq> Fault"
      using assms(1) Some p by (auto simp: good_def)
    show ?thesis
    proof (cases r)
      case (Ok x)
      then have "good st Q cb s1 (f x s1)" using assms(1,2) Some p by (auto simp: good_def)
      from lift [OF this n(3,1,2)] show ?thesis using Some p Ok by simp
    next
      case Err
      then have "good st Q cb s1 (g s1)" using assms(3) Some p by simp
      from lift [OF this n(3,1,2)] show ?thesis using Some p Err by simp
    qed (use n in simp)
  qed
qed

lemma good_return: "Q x \<Longrightarrow> good st Q b s (Some (Ok x, s))"
  by (auto simp: good_def intro: exI [of _ 0])

lemma good_fail: "good st Q b s (Some (Err, s))"
  by (auto simp: good_def intro: exI [of _ 0])

lemma good_mono: "good st Q b s out \<Longrightarrow> b \<le> b' \<Longrightarrow> good st Q b' s out"
  by (auto simp: good_def split: option.splits prod.splits intro: order_trans)

lemma query_server_good:
  assumes "st \<longleftrightarrow> (\<forall>w. settles fuel net w)"
  shows "good st (\<lambda>resp. \<exists>txid. answers_query txid name qtype resp) 1 s (query_server fuel net ip name qtype cap s)"
proof (cases "query_server fuel net ip name qtype cap s")
  case None
  then show ?thesis
    using query_server_returns [of fuel net ip name qtype cap s] assms by (auto simp: good_def)
next
  case (Some p)
  obtain r s' where p: "p = (r, s')" by force
  note spec = query_server_spec [OF Some [unfolded p]]
  have "\<exists>n \<le> 1. r_queries s' = r_queries s + of_nat n"
    using spec(3) by (auto intro: exI [of _ 0] exI [of _ 1])
  then show ?thesis using spec(1,2,4) Some p unfolding good_def by auto
qed

lemma ask_servers_good:
  assumes st: "st \<longleftrightarrow> (\<forall>w. settles fuel net w)"
  shows "good st (\<lambda>d. \<exists>resp txid. answers_query txid name qtype resp \<and> dissect resp name zone cap = Ok d)
    (length srvs) s (ask_servers fuel net name qtype zone cap srvs s)"
proof (induction srvs arbitrary: s)
  case (Cons srv srvs)
  show ?case
    unfolding ask_servers.simps
  proof (rule good_seq [OF query_server_good [OF st], where cb = "length srvs"])
    fix resp s1 assume r: "\<exists>txid. answers_query txid name qtype resp"
    show "good st (\<lambda>d. \<exists>resp txid. answers_query txid name qtype resp \<and> dissect resp name zone cap = Ok d)
        (length srvs) s1 (case dissect resp name zone cap of Fault \<Rightarrow> Some (Fault, s1)
         | Err \<Rightarrow> ask_servers fuel net name qtype zone cap srvs s1 | Ok d \<Rightarrow> Some (Ok d, s1))"
    proof (cases "dissect resp name zone cap")
      case (Ok d)
      then show ?thesis using r by (auto intro!: good_return)
    qed (use Cons.IH dissect_nofault in auto)
  qed (use Cons.IH in auto)
qed (simp add: good_fail)

section \<open>The whole walk\<close>

text \<open>
  An answer is sound when it has the shape its type promises, and, apart from its TTL, was copied
  from a record of a reply to a query of ours: the record's owner is on the alias chain that
  starts at the queried name, inside the zone the reply's server was asked about, and the queried
  name is inside that zone too.
\<close>

definition answer_ok :: "u16 \<Rightarrow> dns_answer \<Rightarrow> bool" where
  "answer_ok qtype a \<longleftrightarrow> wf_answer a \<and> cstr_answer a \<and> length (an_owner a) \<le> 255 \<and>
     (\<exists>txid name zone resp start n rrs e rr. dns_name_in_bailiwick name zone \<and>
        answers_query txid name qtype resp \<and> parse_rrs resp start n = Ok (rrs, e) \<and>
        rr_gated resp zone (set rrs) name rr \<and> answer_for resp rr (a\<lparr>an_ttl := rr_ttl rr\<rparr>))"

definition result_ok :: "u16 \<Rightarrow> nat \<Rightarrow> dns_answer list \<times> u16 \<Rightarrow> bool" where
  "result_ok qtype cap r \<longleftrightarrow> length (fst r) \<le> cap \<and> list_all (answer_ok qtype) (fst r) \<and>
     (snd r = DNS_RCODE_NOERROR \<or> snd r = DNS_RCODE_NXDOMAIN)"

text \<open>
  The number of queries one call may send, with \<open>d\<close> nested resolutions and \<open>h\<close> aliases left:
  \<open>MAX_REFERRALS\<close> levels of at most eight servers and eight nested resolutions, and one alias.
\<close>

fun query_budget :: "nat \<Rightarrow> nat \<Rightarrow> nat" where
  "query_budget 0 0 = 128"
| "query_budget (Suc d) 0 = 128 + 128 * query_budget d 8"
| "query_budget 0 (Suc h) = 128 + query_budget 0 h"
| "query_budget (Suc d) (Suc h) = 128 + 128 * query_budget d 8 + query_budget (Suc d) h"

definition ns_budget :: "nat \<Rightarrow> nat" where
  "ns_budget nd = (if MAX_NS_DEPTH \<le> nd then 0 else query_budget (MAX_NS_DEPTH - (nd + 1)) MAX_CNAME_HOPS)"

definition alias_budget :: "nat \<Rightarrow> nat \<Rightarrow> nat" where
  "alias_budget nd hops = (if hops < MAX_CNAME_HOPS
     then query_budget (MAX_NS_DEPTH - nd) (MAX_CNAME_HOPS - (hops + 1)) else 0)"

lemma query_budget_eq:
  "query_budget (MAX_NS_DEPTH - nd) (MAX_CNAME_HOPS - hops) = MAX_REFERRALS * (8 + 8 * ns_budget nd) + alias_budget nd hops"
proof -
  have d: "3 - nd = Suc (3 - Suc nd)" if "nd < 3" using that by simp
  have h: "8 - hops = Suc (8 - Suc hops)" if "hops < 8" using that by simp
  show ?thesis
    unfolding ns_budget_def alias_budget_def MAX_NS_DEPTH_def MAX_CNAME_HOPS_def MAX_REFERRALS_def
    by (cases "nd < 3"; cases "hops < 8") (simp_all add: d h not_less)
qed

lemma in_bailiwick_root [simp]: "dns_name_in_bailiwick name []"
  by (simp add: dns_name_in_bailiwick_def)

lemma dissect_facts:
  assumes d: "dissect resp name zone cap = Ok d" and n: "length name \<le> 255"
    and q: "answers_query txid name qtype resp" "dns_name_in_bailiwick name zone"
  shows "length (d_ans d) \<le> cap" "list_all (answer_ok qtype) (d_ans d)" "length (d_cname d) \<le> 255"
    "length (ref_ns (d_ref d)) \<le> 8" "list_all (\<lambda>n. length n \<le> 255) (map fst (ref_ns (d_ref d)))"
    "length (glue_addrs (d_ref d)) \<le> 8" "dns_name_in_bailiwick name (ref_zone (d_ref d))"
proof -
  obtain start n rrs e where
    rrs: "parse_rrs resp start n = Ok (rrs, e)" and len: "length (d_ans d) \<le> cap"
    and ans: "list_all (\<lambda>a. \<exists>rr. rr_gated resp zone (set rrs) name rr \<and> answer_for resp rr a) (d_ans d)"
    and c: "length (d_cname d) \<le> 255"
    using dissect_answers [OF d] n unfolding DNS_MAX_NAME_def by blast
  show "length (d_ans d) \<le> cap" "length (d_cname d) \<le> 255" by fact+
  have "answer_ok qtype a" if r: "rr_gated resp zone (set rrs) name rr" "answer_for resp rr a" for rr a
  proof -
    have "rr_in resp rr" using r(1) parse_rrs_in [OF rrs] by (auto simp: rr_gated_def list_all_iff)
    moreover have "answer_for resp rr (a\<lparr>an_ttl := rr_ttl rr\<rparr>)" using r(2) by (simp add: answer_for_def)
    ultimately show ?thesis using answer_for_wf [OF r(2)] q rrs r(1) unfolding answer_ok_def by blast
  qed
  then show "list_all (answer_ok qtype) (d_ans d)" using ans by (auto simp: list_all_iff)
  have "referral_ok resp name zone (d_ref d)" by (rule dissect_elim [OF d])
  then show "length (ref_ns (d_ref d)) \<le> 8" "list_all (\<lambda>n. length n \<le> 255) (map fst (ref_ns (d_ref d)))"
      "dns_name_in_bailiwick name (ref_zone (d_ref d))"
    by (auto simp: referral_ok_def ns_entry_ok_def MAX_NS_CANDIDATES_def list_all_iff)
  show "length (glue_addrs (d_ref d)) \<le> 8" by (simp add: glue_addrs_def MAX_NS_CANDIDATES_def)
qed

lemma first_addr_ok: "list_all (answer_ok qtype) ans \<Longrightarrow> \<exists>r. first_addr ans = Ok r"
  by (fastforce simp: first_addr_def answer_ok_def wf_answer_def list_all_iff split: option.split
      dest: find_mem)

lemma result_ok_append:
  assumes "length ans \<le> cap" "list_all (answer_ok qtype) ans" "result_ok qtype n (tail, rc)"
  shows "result_ok qtype cap (ans @ take (cap - length ans) tail, rc)"
  using assms set_take_subset [of "cap - length ans" tail]
  by (auto simp: result_ok_def list_all_iff min_def)

text \<open>What one level does with a usable reply, whatever the recursive calls return.\<close>

lemma level_good:
  assumes ans: "length (d_ans d) \<le> cap" "list_all (answer_ok qtype) (d_ans d)"
    and al: "d_cname d \<noteq> [] \<Longrightarrow> hops < MAX_CNAME_HOPS \<Longrightarrow> d_rcode d \<noteq> DNS_RCODE_NXDOMAIN \<Longrightarrow>
      \<not> has_answer qtype name (d_ans d) \<Longrightarrow> good st (result_ok qtype n) R s1 chase"
    and gl: "glue_addrs (d_ref d) \<noteq> [] \<Longrightarrow> ref_ns (d_ref d) \<noteq> [] \<Longrightarrow>
      \<not> (d_cname d \<noteq> [] \<and> hops < MAX_CNAME_HOPS) \<Longrightarrow> d_rcode d \<noteq> DNS_RCODE_NXDOMAIN \<Longrightarrow>
      \<not> has_answer qtype name (d_ans d) \<Longrightarrow> good st (result_ok qtype cap) R s1 glued"
    and ns: "glue_addrs (d_ref d) = [] \<Longrightarrow> ref_ns (d_ref d) \<noteq> [] \<Longrightarrow>
      \<not> (d_cname d \<noteq> [] \<and> hops < MAX_CNAME_HOPS) \<Longrightarrow> d_rcode d \<noteq> DNS_RCODE_NXDOMAIN \<Longrightarrow>
      \<not> has_answer qtype name (d_ans d) \<Longrightarrow> good st (\<lambda>_. True) N s1 glueless \<and>
        (\<forall>addr s2. glueless = Some (Ok (Some addr), s2) \<longrightarrow> good st (result_ok qtype cap) R s2 (down addr s2))"
  shows "good st (result_ok qtype cap) (N + R) s1
    (if d_rcode d = DNS_RCODE_NXDOMAIN then Some (Ok (d_ans d, d_rcode d), s1)
     else if has_answer qtype name (d_ans d) then Some (Ok (d_ans d, DNS_RCODE_NOERROR), s1)
     else if d_cname d \<noteq> [] \<and> hops < MAX_CNAME_HOPS then
       (case chase of None \<Rightarrow> None | Some (Fault, s2) \<Rightarrow> Some (Fault, s2) | Some (Err, s2) \<Rightarrow> Some (Err, s2)
        | Some (Ok (tail, rc), s2) \<Rightarrow> Some (Ok (d_ans d @ take (cap - length (d_ans d)) tail, rc), s2))
     else if ref_ns (d_ref d) = [] then
       (if d_rcode d = DNS_RCODE_NOERROR then Some (Ok (d_ans d, d_rcode d), s1) else Some (Err, s1))
     else if glue_addrs (d_ref d) \<noteq> [] then glued
     else (case glueless of None \<Rightarrow> None | Some (Fault, s2) \<Rightarrow> Some (Fault, s2) | Some (Err, s2) \<Rightarrow> Some (Err, s2)
        | Some (Ok None, s2) \<Rightarrow> Some (Err, s2) | Some (Ok (Some addr), s2) \<Rightarrow> down addr s2))"
proof -
  have "good st (result_ok qtype cap) (N + R) s1 (case chase of None \<Rightarrow> None
      | Some (Fault, s2) \<Rightarrow> Some (Fault, s2) | Some (Err, s2) \<Rightarrow> Some (Err, s2)
      | Some (Ok (tail, rc), s2) \<Rightarrow> Some (Ok (d_ans d @ take (cap - length (d_ans d)) tail, rc), s2))"
    if "good st (result_ok qtype n) R s1 chase"
    by (rule good_seq [OF that, where cb = 0]) (auto simp: good_fail intro!: good_return result_ok_append [OF ans])
  moreover have "good st (result_ok qtype cap) (N + R) s1 (case glueless of None \<Rightarrow> None
      | Some (Fault, s2) \<Rightarrow> Some (Fault, s2) | Some (Err, s2) \<Rightarrow> Some (Err, s2)
      | Some (Ok None, s2) \<Rightarrow> Some (Err, s2) | Some (Ok (Some addr), s2) \<Rightarrow> down addr s2)"
    if "good st (\<lambda>_. True) N s1 glueless"
      and "\<And>addr s2. glueless = Some (Ok (Some addr), s2) \<Longrightarrow> good st (result_ok qtype cap) R s2 (down addr s2)"
    by (rule good_seq [OF that(1), where cb = R]) (use that(2) in \<open>auto simp: good_fail split: option.split\<close>)
  ultimately show ?thesis
    using al ns good_mono [OF gl, of "N + R"] ans by (auto simp: good_return good_fail result_ok_def)
qed

lemma resolve_good:
  "length name \<le> 255 \<Longrightarrow> good (\<forall>w. settles fuel net w) (result_ok qtype cap)
     (query_budget (MAX_NS_DEPTH - nd) (MAX_CNAME_HOPS - hops)) s
     (resolve_from fuel net nd hops name qtype servers cap s)"
  "length name \<le> 255 \<Longrightarrow> length current \<le> 8 \<Longrightarrow> dns_name_in_bailiwick name zone \<Longrightarrow>
   good (\<forall>w. settles fuel net w) (result_ok qtype cap)
     (k * (8 + 8 * ns_budget nd) + alias_budget nd hops) s
     (resolve_levels k fuel net nd hops name qtype current zone cap s)"
  "list_all (\<lambda>n. length n \<le> 255) nss \<Longrightarrow> good (\<forall>w. settles fuel net w) (\<lambda>_. True)
     (length nss * ns_budget nd) s (resolve_ns fuel net nd nss s)"
proof (induction fuel net nd hops name qtype servers cap s
    and k fuel net nd hops name qtype current zone cap s
    and fuel net nd nss s rule: resolve_from_resolve_levels_resolve_ns.induct)
  case (1 fuel net nd hops name qtype servers cap s)
  then show ?case by (simp add: resolve_from.simps query_budget_eq MAX_NS_CANDIDATES_def)
next
  case (2 fuel net nd hops name qtype current zone cap s)
  then show ?case by (simp add: resolve_levels.simps good_fail)
next
  case (3 k fuel net nd hops name qtype current zone cap s)
  let ?N = "8 * ns_budget nd" and ?rest = "k * (8 + 8 * ns_budget nd) + alias_budget nd hops"
  show ?case
    unfolding resolve_levels.simps(2)
  proof (rule good_seq [OF good_mono [OF ask_servers_good [OF refl] 3(6)], where cb = "?N + ?rest"])
    fix d s1
    assume ask: "ask_servers fuel net name qtype zone cap current s = Some (Ok d, s1)"
      and "\<exists>resp txid. answers_query txid name qtype resp \<and> dissect resp name zone cap = Ok d"
    then obtain resp txid where dis: "dissect resp name zone cap = Ok d" "answers_query txid name qtype resp"
      by blast
    note f = dissect_facts [OF dis(1) 3(5) dis(2) 3(7)]
    note ih = 3(1-4) [OF ask refl refl]
    show "good (\<forall>w. settles fuel net w) (result_ok qtype cap) (?N + ?rest) s1
      (if d_rcode d = DNS_RCODE_NXDOMAIN then Some (Ok (d_ans d, d_rcode d), s1)
       else if has_answer qtype name (d_ans d) then Some (Ok (d_ans d, DNS_RCODE_NOERROR), s1)
       else if d_cname d \<noteq> [] \<and> hops < MAX_CNAME_HOPS then
            (case resolve_from fuel net nd (hops + 1) (d_cname d) qtype (r_roots s1) DNS_MAX_ANSWERS s1 of
               None \<Rightarrow> None
             | Some (Fault, s2) \<Rightarrow> Some (Fault, s2)
             | Some (Err, s2) \<Rightarrow> Some (Err, s2)
             | Some (Ok (tail, sub_rcode), s2) \<Rightarrow>
                 Some (Ok (d_ans d @ take (cap - length (d_ans d)) tail, sub_rcode), s2))
       else if ref_ns (d_ref d) = [] then
            (if d_rcode d = DNS_RCODE_NOERROR then Some (Ok (d_ans d, d_rcode d), s1) else Some (Err, s1))
       else if glue_addrs (d_ref d) \<noteq> [] then
            resolve_levels k fuel net nd hops name qtype (glue_addrs (d_ref d)) (ref_zone (d_ref d)) cap s1
       else
            (case resolve_ns fuel net nd (map fst (ref_ns (d_ref d))) s1 of
               None \<Rightarrow> None
             | Some (Fault, s2) \<Rightarrow> Some (Fault, s2)
             | Some (Err, s2) \<Rightarrow> Some (Err, s2)
             | Some (Ok None, s2) \<Rightarrow> Some (Err, s2)
             | Some (Ok (Some addr), s2) \<Rightarrow>
                 resolve_levels k fuel net nd hops name qtype [addr] (ref_zone (d_ref d)) cap s2))"
    proof (rule level_good [OF f(1,2), where n = DNS_MAX_ANSWERS], goal_cases)
      case 1
      then show ?case using ih(1) f(3) by (auto simp: alias_budget_def intro: good_mono)
    next
      case 2
      then show ?case using ih(2) f(6,7) 3(5) by auto
    next
      case 3
      then show ?case using ih(3,4) f(4,5,7) \<open>length name \<le> 255\<close> by (auto intro: good_mono)
    qed
  qed (simp_all add: good_fail)
next
  case (4 fuel net nd s)
  then show ?case by (simp add: resolve_ns.simps good_return)
next
  case (5 fuel net nd ns nss s)
  show ?case
  proof (cases "MAX_NS_DEPTH \<le> nd")
    case True
    then show ?thesis using 5(1) 5(5) by (simp add: resolve_ns.simps ns_budget_def)
  next
    case False
    have "good (\<forall>w. settles fuel net w) (result_ok DNS_TYPE_A DNS_MAX_ANSWERS) (ns_budget nd) s
      (resolve_from fuel net (nd + 1) 0 ns DNS_TYPE_A (r_roots s) DNS_MAX_ANSWERS s)"
      using 5(2) [OF False] 5(5) False by (simp add: ns_budget_def)
    then have "good (\<forall>w. settles fuel net w) (\<lambda>_. True) (length (ns # nss) * ns_budget nd) s
      (case resolve_from fuel net (nd + 1) 0 ns DNS_TYPE_A (r_roots s) DNS_MAX_ANSWERS s of
          None \<Rightarrow> None
        | Some (Fault, s1) \<Rightarrow> Some (Fault, s1)
        | Some (Err, s1) \<Rightarrow> resolve_ns fuel net nd nss s1
        | Some (Ok (ans, _), s1) \<Rightarrow>
            (case first_addr ans of
               Fault \<Rightarrow> Some (Fault, s1)
             | Err \<Rightarrow> Some (Err, s1)
             | Ok (Some addr) \<Rightarrow> Some (Ok (Some addr), s1)
             | Ok None \<Rightarrow> resolve_ns fuel net nd nss s1))"
    proof (rule good_seq [where cb = "length nss * ns_budget nd"], goal_cases)
      case (1 x s1)
      obtain ans rc where x: "x = (ans, rc)" by force
      obtain a where a: "first_addr ans = Ok a" using first_addr_ok 1(2) by (auto simp: result_ok_def x)
      show ?case
        using 5(3) [OF False 1(1) refl refl] a 5(5) by (auto simp: x good_return split: option.split)
    qed (use 5(4) [OF False] 5(5) in auto)
    then show ?thesis using False by (simp add: resolve_ns.simps)
  qed
qed

section \<open>The entry point and the cache\<close>

text \<open>What the resolver may store: sound address sets, and negative answers without records.\<close>

definition cacheable :: "entry \<Rightarrow> bool" where
  "cacheable e \<longleftrightarrow> (e_qtype e = DNS_TYPE_A \<or> e_qtype e = DNS_TYPE_AAAA) \<and> list_all (answer_ok (e_qtype e)) (e_ans e) \<and>
     (if e_rcode e = DNS_RCODE_NOERROR then e_ans e \<noteq> [] else e_rcode e = DNS_RCODE_NXDOMAIN \<and> e_ans e = [])"

definition resolver_inv :: "'w resolver \<Rightarrow> bool" where
  "resolver_inv v \<longleftrightarrow> (\<exists>es. cache_rel (rv_cache v) es \<and> list_all cacheable es)"

lemma answer_ok_ttl [simp]: "answer_ok qtype (a\<lparr>an_ttl := t\<rparr>) = answer_ok qtype a"
  by (simp add: answer_ok_def wf_answer_def cstr_answer_def)

lemma spec_get_cacheable:
  assumes "spec_get now name qtype cap es = (r, es')" "list_all cacheable es"
  shows "list_all cacheable es'" "r = Some (ans, rc) \<Longrightarrow> result_ok qtype cap (ans, rc)"
proof -
  have f: "find_key name qtype es = Some e \<Longrightarrow> e \<in> set es \<and> e_qtype e = qtype" for e
    by (auto simp: find_key_def find_Some_iff e_key_def)
  show "list_all cacheable es'"
    using assms f by (auto simp: spec_get_def drop_key_def list_all_iff split: option.splits if_splits)
  show "result_ok qtype cap (ans, rc)" if r: "r = Some (ans, rc)"
  proof -
    obtain e where e: "find_key name qtype es = Some e" "rc = e_rcode e"
      "ans = map (\<lambda>a. a\<lparr>an_ttl := word_of_int (e_expires e - now)\<rparr>) (take cap (e_ans e))"
      using assms(1) r by (auto simp: spec_get_def split: option.splits if_splits)
    have "cacheable e" "e_qtype e = qtype" using f [OF e(1)] assms(2) by (auto simp: list_all_iff)
    then show ?thesis
      by (auto simp: e result_ok_def cacheable_def list_all_iff split: if_splits dest: in_set_takeD)
  qed
qed

lemma spec_put_cacheable:
  assumes "list_all cacheable es" "result_ok qtype cap (ans, rc)" "qtype = DNS_TYPE_A \<or> qtype = DNS_TYPE_AAAA"
    and "rc = DNS_RCODE_NOERROR \<and> ans \<noteq> [] \<and> store = Some ans \<and> n = length ans \<or>
         rc = DNS_RCODE_NXDOMAIN \<and> store = None \<and> n = 0"
  shows "list_all cacheable (spec_put now ttl name qtype (put_answers store n) rc es)"
proof -
  have "list_all cacheable (if find_key name qtype es = None then spec_room now es else drop_key name qtype es)"
    using assms(1) spec_room_subset [of now es] by (auto simp: list_all_iff drop_key_def)
  moreover have "list_all (answer_ok qtype) (put_answers store n)"
    using assms(2,4) by (auto simp: put_answers_def result_ok_def list_all_iff dest: in_set_takeD)
  moreover have "put_answers store n \<noteq> [] \<longleftrightarrow> rc = DNS_RCODE_NOERROR"
    using assms(4) by (auto simp: put_answers_def DNS_RCODE_NOERROR_def DNS_RCODE_NXDOMAIN_def DNS_MAX_ANSWERS_def min_def split: if_splits)
  ultimately show ?thesis using assms(3,4) by (auto simp: spec_put_def cacheable_def)
qed

lemma store_ok:
  assumes c: "cache_rel c es" "list_all cacheable es" and a: "put_args_ok calloc name None 0"
    and r: "result_ok qtype cap (ans, rc)" "qtype = DNS_TYPE_A \<or> qtype = DNS_TYPE_AAAA"
  shows "\<exists>c' es'. (if rc = DNS_RCODE_NOERROR \<and> ans \<noteq> [] then
         dns_cache_put calloc t now name qtype (Some ans) (length ans) rc c
       else if rc = DNS_RCODE_NXDOMAIN then dns_cache_put calloc t now name qtype None 0 rc c
       else Ok c) = Ok c' \<and> cache_rel c' es' \<and> list_all cacheable es'"
proof -
  have *: "\<exists>c' es'. dns_cache_put calloc t now name qtype store n rc c = Ok c' \<and> cache_rel c' es' \<and> list_all cacheable es'"
    if s: "rc = DNS_RCODE_NOERROR \<and> ans \<noteq> [] \<and> store = Some ans \<and> n = length ans \<or>
           rc = DNS_RCODE_NXDOMAIN \<and> store = None \<and> n = 0" for store n
  proof -
    have args: "put_args_ok calloc name store n" using a s by (auto simp: put_args_ok_def)
    then obtain ttl where ttl: "put_ttl (min n DNS_MAX_ANSWERS) store = Ok ttl" using put_ttl_ok by blast
    show ?thesis
      using lru.stash_refines [OF c(1) args ttl, of t now qtype rc] spec_put_cacheable [OF c(2) r s, of now ttl name]
        spec_room_subset [of now es] c(2) by (fastforce simp: list_all_iff)
  qed
  show ?thesis using * [of "Some ans" "length ans"] * [of None 0] c by auto
qed

text \<open>Every return of \<open>dns_resolve\<close>, and the state it leaves.\<close>

definition resolved :: "u16 \<Rightarrow> nat \<Rightarrow> bool \<times> dns_answer list \<times> u16 \<Rightarrow> bool" where
  "resolved qtype cap r = (case r of (ok, ans, rc) \<Rightarrow>
     if qtype \<noteq> DNS_TYPE_A \<and> qtype \<noteq> DNS_TYPE_AAAA then ok \<and> ans = [] \<and> rc = DNS_RCODE_NOTIMP
     else if ok then result_ok qtype cap (ans, rc)
     else ans = [] \<and> rc = DNS_RCODE_SERVFAIL)"

lemma dns_resolve_outcome:
  assumes inv: "resolver_inv v" and a: "put_args_ok calloc name None 0"
  shows "case dns_resolve calloc fuel net t now now' name qtype cap v of
      None \<Rightarrow> \<not> (\<forall>w. settles fuel net w)
    | Some (r, v') \<Rightarrow> (\<exists>x. r = Ok x \<and> resolved qtype cap x) \<and> resolver_inv v' \<and>
        r_roots (rv_state v') = r_roots (rv_state v) \<and>
        (\<exists>n \<le> query_budget MAX_NS_DEPTH MAX_CNAME_HOPS. r_queries (rv_state v') = r_queries (rv_state v) + of_nat n)"
proof (cases "qtype = DNS_TYPE_A \<or> qtype = DNS_TYPE_AAAA")
  case qt: True
  obtain es where es: "cache_rel (rv_cache v) es" "list_all cacheable es" using inv by (auto simp: resolver_inv_def)
  obtain g es1 where sp: "spec_get now name qtype cap es = (g, es1)" by force
  then obtain c where c: "dns_cache_get t now name qtype cap (rv_cache v) = Ok (g, c)" "cache_rel c es1"
    using lru.look_refines [OF es(1) sp] by blast
  note gc = spec_get_cacheable [OF sp es(2)]
  show ?thesis
  proof (cases g)
    case (Some ar)
    then show ?thesis
      using qt c gc by (cases ar) (auto simp: dns_resolve_def resolved_def resolver_inv_def intro: exI [of _ 0])
  next
    case None
    have "length name \<le> 255" using a by (simp add: put_args_ok_def DNS_MAX_NAME_def)
    then have good: "good (\<forall>w. settles fuel net w) (result_ok qtype cap) (query_budget MAX_NS_DEPTH MAX_CNAME_HOPS)
        (rv_state v) (resolve_from fuel net 0 0 name qtype (r_roots (rv_state v)) cap (rv_state v))"
      using resolve_good(1) [of name fuel net qtype cap 0 0] by simp
    show ?thesis
    proof (cases "resolve_from fuel net 0 0 name qtype (r_roots (rv_state v)) cap (rv_state v)")
      case None
      then show ?thesis using good qt c \<open>g = None\<close> by (auto simp: dns_resolve_def good_def)
    next
      case (Some p)
      obtain r s1 where p: "p = (r, s1)" by force
      show ?thesis
      proof (cases r)
        case (Ok ar)
        obtain ans rc where ar: "ar = (ans, rc)" by force
        have ok: "result_ok qtype cap (ans, rc)" using good Some by (simp add: p Ok ar good_def)
        obtain c' es' where put: "(if rc = DNS_RCODE_NOERROR \<and> ans \<noteq> [] then
            dns_cache_put calloc t now' name qtype (Some ans) (length ans) rc c
          else if rc = DNS_RCODE_NXDOMAIN then dns_cache_put calloc t now' name qtype None 0 rc c
          else Ok c) = Ok c'" "cache_rel c' es'" "list_all cacheable es'"
          using store_ok [OF c(2) gc(1) a ok qt, of t now'] by blast
        have "dns_resolve calloc fuel net t now now' name qtype cap v =
          Some (Ok (True, ans, rc), v\<lparr>rv_cache := c', rv_state := s1\<rparr>)"
          using qt c(1) \<open>g = None\<close> Some put(1) unfolding dns_resolve_def by (elim disjE) (simp_all add: p Ok ar)
        then show ?thesis
          using qt ok put(2,3) good Some by (auto simp: p resolved_def resolver_inv_def good_def)
      qed (use qt c gc good Some \<open>g = None\<close> in \<open>auto simp: p dns_resolve_def resolved_def resolver_inv_def good_def\<close>)
    qed
  qed
qed (use inv in \<open>auto simp: dns_resolve_def resolved_def intro: exI [of _ 0]\<close>)

section \<open>Root servers from the environment\<close>

fun comma_list :: "cstring list \<Rightarrow> cstring" where
  "comma_list [] = []"
| "comma_list [x] = x"
| "comma_list (x # y # xs) = x @ 44 # comma_list (y # xs)"

lemma takeWhile_stop: "\<forall>x\<in>set xs. P x \<Longrightarrow> \<not> P y \<Longrightarrow> takeWhile P (xs @ y # ys) = xs \<and> dropWhile P (xs @ y # ys) = y # ys"
  by (induction xs) auto

lemma strtok_comma: "strtok_all (44 # s) = strtok_all s"
  by (subst (1 2) strtok_all.simps) simp

lemma strtok_comma_list:
  "\<forall>x\<in>set xs. x \<noteq> [] \<and> 44 \<notin> set x \<Longrightarrow> strtok_all (comma_list xs) = xs"
proof (induction xs rule: comma_list.induct)
  case 1
  then show ?case by (simp add: strtok_all.simps)
next
  case (2 x)
  then have "dropWhile (\<lambda>c. c = 44) x = x" by (cases x) auto
  moreover have "takeWhile (\<lambda>c. c \<noteq> 44) x = x" "dropWhile (\<lambda>c. c \<noteq> 44) x = []"
    using 2 by (auto simp: takeWhile_eq_all_conv dropWhile_eq_Nil_conv)
  moreover have "strtok_all [] = []" by (simp add: strtok_all.simps)
  ultimately show ?case using 2 by (subst strtok_all.simps) (simp add: Let_def del: dropWhile_eq_Nil_conv)
next
  case (3 x y xs)
  then have x: "x \<noteq> []" "\<forall>c\<in>set x. c \<noteq> 44" by auto
  then have "dropWhile (\<lambda>c. c = 44) (x @ 44 # comma_list (y # xs)) = x @ 44 # comma_list (y # xs)"
    by (cases x) auto
  then show ?case
    using 3 x takeWhile_stop [of x "\<lambda>c. c \<noteq> 44" 44 "comma_list (y # xs)"]
    by (subst strtok_all.simps) (simp add: Let_def strtok_comma)
qed

lemma length_comma_list: "\<forall>x\<in>set xs. length x \<le> 15 \<Longrightarrow> length (comma_list xs) \<le> 16 * length xs"
  by (induction xs rule: comma_list.induct) auto

lemma inet_ntop_chars:
  assumes "length bs = 4"
  shows "inet_ntop bs \<noteq> []" "44 \<notin> set (inet_ntop bs)" "32 \<notin> set (inet_ntop bs)"
proof -
  have o: "44 \<notin> set (print_octet b) \<and> 32 \<notin> set (print_octet b) \<and> print_octet b \<noteq> []" for b
  proof -
    have d: "digit d \<noteq> 44" "digit d \<noteq> 32" "44 \<noteq> digit d" "32 \<noteq> digit d" if "d < 10" for d
      using digit_simps(1) [OF that] by auto
    show ?thesis using unat_byte_less [of b] by (auto simp: print_octet_def Let_def d)
  qed
  obtain a b c d where "bs = [a, b, c, d]" using assms by (auto simp: length_Suc_conv numeral_eq_Suc)
  then show "inet_ntop bs \<noteq> []" "44 \<notin> set (inet_ntop bs)" "32 \<notin> set (inet_ntop bs)" by (auto simp: o)
qed

lemma root_hints_ok: "list_all (\<lambda>h. inet_pton h \<noteq> None \<and> length h < INET_ADDRSTRLEN) root_hints"
  by code_simp

lemma configured_roots_lemma:
  assumes "addrs \<noteq> []" "length addrs \<le> 8" "\<forall>a\<in>set addrs. length a = 4"
  shows "r_roots (dns_resolver_init (Some (comma_list (map inet_ntop addrs))) s) = map inet_ntop addrs"
proof -
  let ?xs = "map inet_ntop addrs"
  have x: "x \<noteq> [] \<and> 44 \<notin> set x \<and> 32 \<notin> set x \<and> length x \<le> 15" if "x \<in> set ?xs" for x
    using that assms(3) inet_ntop_chars inet_ntop_fits by (fastforce simp: INET_ADDRSTRLEN_def)
  have "length (comma_list ?xs) \<le> 16 * 8" using length_comma_list [of ?xs] x assms(2) by fastforce
  then have cut: "snprintf 512 (comma_list ?xs) = comma_list ?xs" by (simp add: snprintf_id)
  have "strtok_all (comma_list ?xs) = ?xs" using strtok_comma_list [of ?xs] x by blast
  moreover have "snprintf INET_ADDRSTRLEN (dropWhile (\<lambda>c. c = 32) x) = x" if "x \<in> set ?xs" for x
    using x [OF that] by (cases x) (auto simp: snprintf_id INET_ADDRSTRLEN_def)
  then have "map (\<lambda>tok. snprintf INET_ADDRSTRLEN (dropWhile (\<lambda>c. c = 32) tok)) ?xs = ?xs" by (simp add: map_idI)
  moreover have "comma_list ?xs \<noteq> []"
    using assms(1) x by (cases addrs rule: comma_list.cases) auto
  ultimately show ?thesis using assms(1,2) cut by (simp add: dns_resolver_init_def MAX_NS_CANDIDATES_def)
qed

section \<open>Reachable states\<close>

text \<open>The states a resolver goes through, from start-up on, whatever its clients ask and the network answers.\<close>

inductive resolver_reach :: "(node_heap \<Rightarrow> nat option) \<Rightarrow> 'w net \<Rightarrow> 'w resolver \<Rightarrow> bool" for calloc net where
  reach_start: "resolver_reach calloc net \<lparr>rv_cache = dns_cache_init cache_static, rv_state = s\<rparr>"
| reach_query: "resolver_reach calloc net v \<Longrightarrow> length name \<le> DNS_MAX_NAME \<Longrightarrow>
    dns_resolve calloc fuel net t now now' name qtype cap v = Some (r, v') \<Longrightarrow> resolver_reach calloc net v'"

lemma reach_inv:
  assumes "resolver_reach calloc net v" and fresh: "\<forall>h p. calloc h = Some p \<longrightarrow> h p = None"
  shows "resolver_inv v"
  using assms(1)
proof (induction rule: resolver_reach.induct)
  case (reach_start s)
  have "cache_rel (dns_cache_init cache_static) []" by (rule dns_cache_init_ok) (simp add: cache_static_def)
  then show ?case by (auto simp: resolver_inv_def intro: exI [of _ "[]"])
next
  case (reach_query v name fuel t now now' qtype cap r v')
  have "put_args_ok calloc name None 0" using fresh reach_query(2) by (simp add: put_args_ok_def)
  from dns_resolve_outcome [OF reach_query(4) this, where fuel = fuel and net = net and t = t and now = now and now' = now' and qtype = qtype and cap = cap] reach_query(3)
  show ?case by simp
qed

lemma cache_rel_bounds: "cache_rel s es \<Longrightarrow> length es \<le> CACHE_CAPACITY \<and> distinct (map e_key es)"
  by (auto simp: cache_rel_def cache_ok_def nodes_ok_def entries_def)

section \<open>Properties\<close>

text \<open>C21: Resolution ends and is bounded. From every reachable state, when no run of \<open>fuel\<close>
  receives in a row is free of timeouts, \<open>dns_resolve\<close> returns without a memory fault, sends at
  most the queries its three budgets allow and leaves the root servers alone. An unsupported type
  is NOTIMP, a failure is SERVFAIL without answers, and a success is NOERROR or NXDOMAIN with at
  most \<open>cap\<close> answers, each sound.\<close>

theorem resolve_returns:
  assumes "resolver_reach calloc net v" "\<forall>h p. calloc h = Some p \<longrightarrow> h p = None" "length name \<le> DNS_MAX_NAME"
    and "\<forall>w. settles fuel net w"
  shows "\<exists>x v' n. dns_resolve calloc fuel net t now now' name qtype cap v = Some (Ok x, v') \<and> resolved qtype cap x \<and>
    n \<le> query_budget MAX_NS_DEPTH MAX_CNAME_HOPS \<and> r_queries (rv_state v') = r_queries (rv_state v) + of_nat n \<and>
    r_roots (rv_state v') = r_roots (rv_state v)"
proof -
  have "put_args_ok calloc name None 0" using assms(2,3) by (simp add: put_args_ok_def)
  from dns_resolve_outcome [OF reach_inv [OF assms(1,2)] this, where fuel = fuel and net = net and t = t and now = now and now' = now' and qtype = qtype and cap = cap] assms(4)
  show ?thesis by (auto split: option.splits)
qed

text \<open>A network on which every receive times out, and one that floods the socket with datagrams that do not match.\<close>

definition silent_net :: "unit net" where
  "silent_net = \<lparr>n_random = \<lambda>w. (replicate 64 7, w), n_socket = \<lambda>w. (True, w), n_connect = \<lambda>_ w. (True, w),
     n_send = \<lambda>_ w. (True, w), n_recv = \<lambda>w. (RxAgain, w)\<rparr>"

definition flood_net :: "unit net" where
  "flood_net = silent_net\<lparr>n_recv := \<lambda>w. (RxData (replicate 12 0), w)\<rparr>"

definition first_state :: "unit rstate" where
  "first_state = \<lparr>r_roots = root_hints, r_queries = 0, r_timeouts = 0, r_pool = [], r_world = ()\<rparr>"

theorem resolve_returns_witness:
  "\<exists>x v'. dns_resolve any_free 1 silent_net 0 100 101 (ascii ''a.io'') DNS_TYPE_A 8
     \<lparr>rv_cache = dns_cache_init cache_static, rv_state = first_state\<rparr> = Some (Ok x, v') \<and>
   r_roots (rv_state v') = root_hints"
proof -
  have free: "\<forall>h p. any_free h = Some p \<longrightarrow> h p = None"
    by (auto simp: any_free_def intro: someI split: if_splits)
  have "settles 1 silent_net w" for w by (simp add: silent_net_def)
  with resolve_returns [OF reach_start free, of "ascii ''a.io''" 1 silent_net 0 100 101 DNS_TYPE_A 8 first_state]
  show ?thesis by (auto simp: ascii_def DNS_MAX_NAME_def first_state_def)
qed



text \<open>C23: Off-path datagrams are not believed. Whatever arrives on the socket, a round trip returns only
  a datagram that carries the id drawn for this query, the response bit and exactly one question,
  which is the name and type that were asked, in class IN; it fits the buffer, and the server's
  address was valid.\<close>

theorem query_server_matches:
  assumes "query_server fuel net ip name qtype cap s = Some (Ok resp, s')"
  shows "\<exists>txid s1. next_txid net s = (Some txid, s1) \<and> answers_query txid name qtype resp \<and> length resp \<le> cap \<and>
    inet_pton ip \<noteq> None"
  using query_server_spec(4) [OF assms refl] .

definition echo_reply :: bytes where
  "echo_reply = [0, 7, 0x80, 0, 0, 1, 0, 0, 0, 0, 0, 0, 1, 65, 0, 0, 1, 0, 1]"

theorem query_server_matches_witness:
  "\<exists>s'. query_server 2 (silent_net\<lparr>n_recv := \<lambda>w. (RxData echo_reply, w)\<rparr>) (ascii ''192.0.2.1'') (ascii ''a'') DNS_TYPE_A MSG_BUF
     first_state = Some (Ok echo_reply, s') \<and> answers_query 7 (ascii ''a'') DNS_TYPE_A echo_reply"
proof -
  let ?net = "silent_net\<lparr>n_recv := \<lambda>w. (RxData echo_reply, w)\<rparr>"
  have "map_option fst (query_server 2 ?net (ascii ''192.0.2.1'') (ascii ''a'') DNS_TYPE_A MSG_BUF first_state) = Some (Ok echo_reply)"
    by code_simp
  then obtain s' where q: "query_server 2 ?net (ascii ''192.0.2.1'') (ascii ''a'') DNS_TYPE_A MSG_BUF first_state = Some (Ok echo_reply, s')"
    by auto
  then show ?thesis
    using query_server_matches [OF q] by (auto simp: next_txid_def first_state_def silent_net_def TXID_POOL_def)
qed

text \<open>C24: Nothing in the code bounds one round trip. The receive timeout applies to each \<^verbatim>\<open>recv\<close> on its
  own, so a server that keeps sending datagrams that do not match holds the round trip for ever:
  no number of receives is enough.\<close>

theorem query_server_flooded:
  "query_server fuel flood_net (ascii ''192.0.2.1'') (ascii ''a.io'') DNS_TYPE_A MSG_BUF first_state = None"
proof -
  have "dns_parse_header (replicate 12 0) = Ok \<lparr>h_id = 0, h_flags = 0, h_qdcount = 0, h_ancount = 0, h_nscount = 0, h_arcount = 0\<rparr>"
    by code_simp
  then have "check_reply 7 name qtype (replicate 12 0) = Ok Retry" for name qtype
    by (simp add: check_reply_def)
  then have loop: "recv_loop fuel flood_net 7 name qtype MSG_BUF s = None" for name qtype s
    by (induction fuel arbitrary: s) (simp_all add: flood_net_def MSG_BUF_def)
  have "inet_pton (ascii ''192.0.2.1'') = Some [192, 0, 2, 1]" by code_simp
  moreover have "\<exists>q. dns_build_query 7 (ascii ''a.io'') DNS_TYPE_A False DNS_EDNS_OUR_UDP_PAYLOAD MSG_BUF = Ok q"
  proof -
    have "(case dns_build_query 7 (ascii ''a.io'') DNS_TYPE_A False DNS_EDNS_OUR_UDP_PAYLOAD MSG_BUF of Ok _ \<Rightarrow> True | _ \<Rightarrow> False)"
      by code_simp
    then show ?thesis by (auto split: res.splits)
  qed
  moreover have net: "n_random flood_net w = (replicate 64 7, w)" "n_socket flood_net w = (True, w)"
    "n_connect flood_net a w = (True, w)" "n_send flood_net q w = (True, w)" for a q w
    by (simp_all add: flood_net_def silent_net_def)
  ultimately show ?thesis
    by (auto simp: query_server_def next_txid_def first_state_def net TXID_POOL_def loop Let_def)
qed

text \<open>The environment's root servers arrive as written. A comma separated list of one to eight IPv4
  addresses becomes exactly the list of servers, each of which \<^verbatim>\<open>query_server\<close> parses back to its
  address; with the variable unset the built-in list stays.\<close>

lemma configured_roots:
  assumes "addrs \<noteq> []" "length addrs \<le> 8" "list_all (\<lambda>a. length a = 4) addrs"
  shows "r_roots (dns_resolver_init (Some (comma_list (map inet_ntop addrs))) s) = map inet_ntop addrs \<and>
    map inet_pton (map inet_ntop addrs) = map Some addrs \<and> dns_resolver_init None s = s"
proof -
  have "dns_resolver_init None s = s" by (simp add: dns_resolver_init_def)
  moreover have "map inet_pton (map inet_ntop addrs) = map Some addrs"
    using assms(3) inet_pton_ntop by (simp add: list_all_iff)
  ultimately show ?thesis using configured_roots_lemma [OF assms(1,2)] assms(3) by (simp add: list_all_iff)
qed

end
