(* ===== verification/DnsIface.thy ===== *)
theory DnsIface
  imports DnsMsg
begin

text \<open>
  The interface between the transports and a resolver backend (\<^verbatim>\<open>dns_iface.h\<close>).

  A backend turns one query into a response or drops it; the transports are written against this
  contract only, and both backends of the repository provide it. A service is a function of the
  query, the size of the response buffer, the UDP flag and its own state. The outer \<open>None\<close> is a
  call that does not return, \<open>Ok\<close> is \<^verbatim>\<open>DNS_OK\<close> with the response, \<open>Err\<close> is \<^verbatim>\<open>DNS_DROP\<close>.
\<close>

definition DNS_MAX_MSG_LEN :: nat where "DNS_MAX_MSG_LEN = 1500"
definition DNS_MAX_TCP_MSG_LEN :: nat where "DNS_MAX_TCP_MSG_LEN = 65535"

type_synonym 's service = "bytes \<Rightarrow> nat \<Rightarrow> bool \<Rightarrow> 's \<Rightarrow> (bytes res \<times> 's) option"

text \<open>A message that answers \<open>query\<close>: both have a header, the ids agree, and the response bit is set.\<close>

definition reply_to :: "bytes \<Rightarrow> bytes \<Rightarrow> bool" where
  "reply_to query resp \<longleftrightarrow> DNS_HDR_LEN \<le> length query \<and> DNS_HDR_LEN \<le> length resp \<and>
     take 2 resp = take 2 query \<and> bit (resp ! 2) 7"

locale dns_service =
  fixes respond :: "'s service"
    and ready :: "'s \<Rightarrow> bool"
  assumes respond_keeps: "ready s \<Longrightarrow> 512 \<le> cap \<Longrightarrow> respond query cap is_udp s = Some (r, s') \<Longrightarrow> ready s' \<and> r \<noteq> Fault"
    and respond_reply: "ready s \<Longrightarrow> 512 \<le> cap \<Longrightarrow> respond query cap is_udp s = Some (Ok resp, s') \<Longrightarrow>
      reply_to query resp \<and> length resp \<le> cap"

text \<open>A service that also returns from every call.\<close>

locale live_service = dns_service +
  assumes respond_returns: "ready s \<Longrightarrow> 512 \<le> cap \<Longrightarrow> respond query cap is_udp s \<noteq> None"

section \<open>Header fields as bytes\<close>

lemma low_byte [simp]: "(ucast (x AND 0xFF) :: byte) = ucast (x :: u16)"
  unfolding mask8_16 by (rule bit_word_eqI) (auto simp: bit_simps)

lemma parse_header_id:
  assumes "dns_parse_header msg = Ok h"
  shows "12 \<le> length msg" "wr16 (h_id h) = take 2 msg" "h_flags h = be16 (msg ! 2) (msg ! 3)"
    "wr16 (h_qdcount h) = take 2 (drop 4 msg)"
proof -
  show l: "12 \<le> length msg" using assms by (auto simp: dns_parse_header_def DNS_HDR_LEN_def split: if_splits)
  obtain a b c d e f m where "msg = a # b # c # d # e # f # m"
    using l by (auto simp: Suc_le_length_iff numeral_eq_Suc)
  then show "wr16 (h_id h) = take 2 msg" "h_flags h = be16 (msg ! 2) (msg ! 3)"
      "wr16 (h_qdcount h) = take 2 (drop 4 msg)"
    using assms l by (auto simp: dns_parse_header_def DNS_HDR_LEN_def rd16_def)
qed

end
