(* ===== verification/DnsBackend.thy ===== *)
theory DnsBackend
  imports Resolver DnsIface
begin

text \<open>
  The recursive backend (\<^verbatim>\<open>dns_backend.c\<close>): start-up, one query from wire to wire, and teardown
  with the final report.
\<close>

section \<open>Definitions\<close>

definition dns_backend_init :: "cstring option \<Rightarrow> 'w resolver \<Rightarrow> 'w resolver" where
  "dns_backend_init env v =
     v\<lparr>rv_cache := dns_cache_init (rv_cache v), rv_state := dns_resolver_init env (rv_state v)\<rparr>"

text \<open>\<open>ans\<close> and \<open>rcode\<close> are what the code's locals hold after the call of \<^verbatim>\<open>dns_resolve\<close>, whose return value it ignores.\<close>

definition dns_resolve_query ::
  "(node_heap \<Rightarrow> nat option) \<Rightarrow> nat \<Rightarrow> 'w net \<Rightarrow> nat \<Rightarrow> int \<Rightarrow> int \<Rightarrow> 'w resolver service" where
  "dns_resolve_query calloc fuel net t now now' query resp_cap is_udp v =
     (case dns_parse_query query of
        Fault \<Rightarrow> Some (Fault, v)
      | Err \<Rightarrow> Some (Err, v)
      | Ok q \<Rightarrow>
          if q_qclass (qi_q q) \<noteq> DNS_CLASS_IN then
            Some (dns_build_response query q [] DNS_RCODE_NOTIMP is_udp resp_cap, v)
          else (case dns_resolve calloc fuel net t now now' (q_name (qi_q q)) (q_qtype (qi_q q)) DNS_MAX_ANSWERS v of
              None \<Rightarrow> None
            | Some (Fault, v1) \<Rightarrow> Some (Fault, v1)
            | Some (Err, v1) \<Rightarrow> Some (Err, v1)
            | Some (Ok (ok, ans, rcode), v1) \<Rightarrow>
                Some (dns_build_response query q ans rcode is_udp resp_cap, v1)))"

text \<open>The report: a rate is printed only when its denominator is not zero.\<close>

record backend_report =
  rep_hits :: u64
  rep_misses :: u64
  rep_hit_rate :: "(u64 \<times> u64) option"
  rep_evictions :: u64
  rep_expired :: u64
  rep_entries :: nat
  rep_bloom :: "(u64 \<times> u64 \<times> nat) option"
  rep_saturated :: "u64 option"
  rep_queries :: u64
  rep_timeouts :: u64

definition dns_backend_fini :: "'w resolver \<Rightarrow> (backend_report \<times> 'w resolver) res" where
  "dns_backend_fini v =
     (let (hits, misses, evict, expired, entries) = dns_cache_stats (rv_cache v);
          (upq, upto) = dns_resolver_stats (rv_state v);
          (bq, br, bsat, bused) = dns_bloom_stats (c_bloom (rv_cache v));
          rep = \<lparr>rep_hits = hits, rep_misses = misses,
                 rep_hit_rate = (if hits + misses \<noteq> 0 then Some (hits, hits + misses) else None),
                 rep_evictions = evict, rep_expired = expired, rep_entries = entries,
                 rep_bloom = (if bq \<noteq> 0 then Some (bq, br, bused) else None),
                 rep_saturated = (if bq \<noteq> 0 \<and> bsat \<noteq> 0 then Some bsat else None),
                 rep_queries = upq, rep_timeouts = upto\<rparr>
      in res_bind (dns_cache_fini (rv_cache v)) (\<lambda>c. Ok (rep, v\<lparr>rv_cache := c\<rparr>)))"

section \<open>One query\<close>

lemma response_flags_bits:
  "bit (response_flags q tc rcode) 15"
  "response_flags q tc rcode AND DNS_RCODE_MASK = rcode AND DNS_RCODE_MASK"
  unfolding response_flags_def dns_msg_consts
  by (simp add: bit_or_iff) (simp add: bit.conj_disj_distrib bit.conj_disj_distrib2 ac_simps)

lemma response_is_reply:
  assumes q: "dns_parse_query query = Ok q" and "512 \<le> cap" "list_all wf_answer ans"
    and "dns_build_response query q ans rcode is_udp cap = Ok out"
  shows "reply_to query out \<and> length out \<le> cap"
proof -
  obtain h where h: "dns_parse_header query = Ok h" "qi_hdr q = h" by (rule dns_parse_query_cases [OF q])
  obtain tc n rest where out: "out = response_header q tc rcode n @ rest" "length out \<le> effective_cap q is_udp cap"
  proof (rule dns_build_response_shape [OF assms(1-3), of rcode is_udp])
    fix rest rs
    assume "dns_build_response query q ans rcode is_udp cap =
        Ok (response_header q (rest \<noteq> []) rcode (length rs) @ take (q_raw_len (qi_q q)) (drop 12 query)
           @ concat rs @ response_opt q)"
      "12 + q_raw_len (qi_q q) + length (concat rs) + length (response_opt q) \<le> effective_cap q is_udp cap"
    then show thesis using assms(4) that dns_parse_query_raw(2) [OF q] by simp
  qed
  have "take 2 out = wr16 (h_id h)" by (simp add: out(1) h(2) response_header_def)
  then have "take 2 out = take 2 query" using parse_header_id(2) [OF h(1)] by simp
  moreover have "out ! 2 = wr16 (response_flags q tc rcode) ! 0" by (simp add: out(1) response_header_def nth_append)
  then have "bit (out ! 2) 7" using response_flags_bits(1) [of q tc rcode] by (simp add: wr16_def bit_simps)
  ultimately show ?thesis
    using parse_header_id(1) [OF h(1)] out effective_cap_le [of q is_udp cap]
    by (simp add: reply_to_def DNS_HDR_LEN_def)
qed

text \<open>The verdict the code holds when it builds the response to \<open>q\<close>.\<close>

definition served :: "dns_query_info \<Rightarrow> bool \<times> dns_answer list \<times> u16 \<Rightarrow> bool" where
  "served q x = (if q_qclass (qi_q q) \<noteq> DNS_CLASS_IN then x = (True, [], DNS_RCODE_NOTIMP)
     else resolved (q_qtype (qi_q q)) DNS_MAX_ANSWERS x)"

lemma served_answers:
  assumes "served q (ok, ans, rc)"
  shows "list_all wf_answer ans" "list_all cstr_answer ans" "length ans \<le> DNS_MAX_ANSWERS"
    "list_all (answer_ok (q_qtype (qi_q q))) ans"
    "rc \<in> {DNS_RCODE_NOERROR, DNS_RCODE_SERVFAIL, DNS_RCODE_NXDOMAIN, DNS_RCODE_NOTIMP}"
  using assms by (auto simp: served_def resolved_def result_ok_def answer_ok_def list_all_iff split: if_splits)

lemma query_name_short: "dns_parse_query query = Ok q \<Longrightarrow> length (q_name (qi_q q)) \<le> DNS_MAX_NAME"
  by (erule dns_parse_query_cases) (auto simp: DNS_MAX_NAME_def dest: dns_name_decode_bounds(3))

lemma dns_resolve_query_outcome:
  assumes inv: "resolver_inv v" and fresh: "\<forall>h p. calloc h = Some p \<longrightarrow> h p = None" and cap: "512 \<le> cap"
  shows "case dns_resolve_query calloc fuel net t now now' query cap is_udp v of
      None \<Rightarrow> \<not> (\<forall>w. settles fuel net w)
    | Some (r, v') \<Rightarrow> resolver_inv v' \<and> (case dns_parse_query query of
          Ok q \<Rightarrow> \<exists>ok ans rc out. served q (ok, ans, rc) \<and> r = Ok out \<and>
                    dns_build_response query q ans rc is_udp cap = Ok out
        | _ \<Rightarrow> r = Err \<and> v' = v)"
proof (cases "dns_parse_query query")
  case (Ok q)
  have build: "\<exists>out. dns_build_response query q ans rc is_udp cap = Ok out" if "served q (ok, ans, rc)" for ok ans rc
    by (rule dns_build_response_shape [OF Ok cap served_answers(1) [OF that]]) blast
  show ?thesis
  proof (cases "q_qclass (qi_q q) = DNS_CLASS_IN")
    case True
    have args: "put_args_ok calloc (q_name (qi_q q)) None 0"
      using fresh query_name_short [OF Ok] by (simp add: put_args_ok_def)
    note out = dns_resolve_outcome [OF inv args, where fuel = fuel and net = net and t = t and now = now
        and now' = now' and qtype = "q_qtype (qi_q q)" and cap = DNS_MAX_ANSWERS]
    show ?thesis
    proof (cases "dns_resolve calloc fuel net t now now' (q_name (qi_q q)) (q_qtype (qi_q q)) DNS_MAX_ANSWERS v")
      case None
      then show ?thesis using out Ok True by (simp add: dns_resolve_query_def)
    next
      case (Some p)
      then obtain ok ans rc v' where p: "p = (Ok (ok, ans, rc), v')" "resolver_inv v'"
        "resolved (q_qtype (qi_q q)) DNS_MAX_ANSWERS (ok, ans, rc)"
        using out by (cases p) auto
      then have sv: "served q (ok, ans, rc)" using True by (simp add: served_def)
      then show ?thesis using Ok True Some p build [OF sv] by (auto simp: dns_resolve_query_def)
    qed
  next
    case False
    then have sv: "served q (True, [], DNS_RCODE_NOTIMP)" by (simp add: served_def)
    then show ?thesis using Ok False build [OF sv] inv by (auto simp: dns_resolve_query_def)
  qed
qed (use inv dns_parse_query_nofault in \<open>auto simp: dns_resolve_query_def\<close>)

section \<open>The contract\<close>

definition backend_ready :: "(node_heap \<Rightarrow> nat option) \<Rightarrow> 'w resolver \<Rightarrow> bool" where
  "backend_ready calloc v \<longleftrightarrow> resolver_inv v \<and> (\<forall>h p. calloc h = Some p \<longrightarrow> h p = None)"

interpretation recursive: dns_service "dns_resolve_query calloc fuel net t now now'" "backend_ready calloc"
  for calloc fuel net t now now'
proof (unfold_locales, goal_cases)
  case (1 s cap query is_udp r s')
  then show ?case
    using dns_resolve_query_outcome [where v = s and calloc = calloc and cap = cap and fuel = fuel and net = net and t = t and
        now = now and now' = now' and query = query and is_udp = is_udp]
    by (auto simp: backend_ready_def split: res.splits)
next
  case (2 s cap query is_udp resp s')
  then obtain q ok ans rc where q: "dns_parse_query query = Ok q" "served q (ok, ans, rc)"
    "dns_build_response query q ans rc is_udp cap = Ok resp"
    using dns_resolve_query_outcome [where v = s and calloc = calloc and cap = cap and fuel = fuel and net = net and
        t = t and now = now and now' = now' and query = query and is_udp = is_udp]
    by (auto simp: backend_ready_def split: res.splits)
  then show ?case using response_is_reply [OF q(1) 2(2) served_answers(1) [OF q(2)] q(3)] by simp
qed

interpretation recursive_live: live_service "dns_resolve_query calloc fuel net t now now'"
    "\<lambda>v. backend_ready calloc v \<and> (\<forall>w. settles fuel net w)"
  for calloc fuel net t now now'
proof (unfold_locales, goal_cases)
  case (3 s cap query is_udp)
  then show ?case
    using dns_resolve_query_outcome [where v = s and calloc = calloc and cap = cap and fuel = fuel and net = net and
        t = t and now = now and now' = now' and query = query and is_udp = is_udp]
    by (auto simp: backend_ready_def split: option.splits)
qed (use recursive.respond_keeps recursive.respond_reply in \<open>fastforce+\<close>)

text \<open>
  The calls the transports make differ in what they see of the outside world: how long a socket is
  drained, the network, the thread and the two clock readings.
\<close>

type_synonym 'w occasion = "nat \<times> 'w net \<times> nat \<times> int \<times> int"

definition recursive_backend :: "(node_heap \<Rightarrow> nat option) \<Rightarrow> 'w occasion \<Rightarrow> 'w resolver service" where
  "recursive_backend calloc = (\<lambda>(fuel, net, t, now, now'). dns_resolve_query calloc fuel net t now now')"

lemma recursive_service: "dns_service (recursive_backend calloc i) (backend_ready calloc)"
  using recursive.dns_service_axioms by (cases i) (auto simp: recursive_backend_def)

section \<open>From start-up to teardown\<close>

lemma backend_init_inv: "resolver_inv (dns_backend_init env \<lparr>rv_cache = cache_static, rv_state = s\<rparr>)"
proof -
  let ?v = "dns_backend_init env \<lparr>rv_cache = cache_static, rv_state = s\<rparr>"
  have "cache_rel (rv_cache ?v) []"
    unfolding dns_backend_init_def by simp (rule dns_cache_init_ok, simp add: cache_static_def)
  then show ?thesis by (auto simp: resolver_inv_def intro: exI [of _ "[]"])
qed

text \<open>One call of a worker: thread, the two clock readings, the query, the buffer size and the transport.\<close>

type_synonym call = "nat \<times> int \<times> int \<times> bytes \<times> nat \<times> bool"

fun backend_run ::
  "(node_heap \<Rightarrow> nat option) \<Rightarrow> nat \<Rightarrow> 'w net \<Rightarrow> call list \<Rightarrow> 'w resolver \<Rightarrow> (bytes res list \<times> 'w resolver) option" where
  "backend_run calloc fuel net [] v = Some ([], v)"
| "backend_run calloc fuel net ((t, now, now', query, cap, is_udp) # calls) v =
     (case dns_resolve_query calloc fuel net t now now' query cap is_udp v of
        None \<Rightarrow> None
      | Some (r, v1) \<Rightarrow> map_option (\<lambda>(rs, v2). (r # rs, v2)) (backend_run calloc fuel net calls v1))"

text \<open>
  What the client of a parsed query gets: a reply within the ceiling of its transport, with the
  response bit and the code of a sound verdict, whose records spell out a prefix of that verdict's
  answers.
\<close>

definition client_sees :: "bytes \<Rightarrow> dns_query_info \<Rightarrow> bool \<Rightarrow> nat \<Rightarrow> bytes \<Rightarrow> bool" where
  "client_sees query q is_udp cap out \<longleftrightarrow> reply_to query out \<and>
     length out \<le> (if is_udp then if qi_has_edns q then 1232 else 512 else cap) \<and>
     (\<exists>ok ans rc. served q (ok, ans, rc) \<and> (plain_question query \<longrightarrow>
        (\<exists>dn rest rrs nx h. (if rc = DNS_RCODE_NOERROR then ans else []) = dn @ rest \<and>
           parse_rrs out (12 + q_raw_len (qi_q q)) (length (filter supported dn)) = Ok (rrs, nx) \<and>
           list_all2 (rr_for out (q_name (qi_q q))) rrs (filter supported dn) \<and>
           dns_parse_header out = Ok h \<and> h_id h = h_id (qi_hdr q) \<and> h_flags h AND DNS_RCODE_MASK = rc \<and>
           unat (h_ancount h) = length rrs)))"

definition answered :: "call \<Rightarrow> bytes res \<Rightarrow> bool" where
  "answered c r = (case c of (t, now, now', query, cap, is_udp) \<Rightarrow>
     case dns_parse_query query of
       Ok q \<Rightarrow> \<exists>out. r = Ok out \<and> client_sees query q is_udp cap out
     | _ \<Rightarrow> r = Err)"

lemma client_seesI:
  assumes q: "dns_parse_query query = Ok q" and cap: "512 \<le> cap" and sv: "served q (ok, ans, rc)"
    and out: "dns_build_response query q ans rc is_udp cap = Ok out"
  shows "client_sees query q is_udp cap out"
proof -
  note a = served_answers [OF sv]
  have len: "length out \<le> effective_cap q is_udp cap"
  proof (rule dns_build_response_shape [OF q cap a(1), of rc is_udp])
    fix rest rs
    assume "dns_build_response query q ans rc is_udp cap =
        Ok (response_header q (rest \<noteq> []) rc (length rs) @ take (q_raw_len (qi_q q)) (drop 12 query)
           @ concat rs @ response_opt q)"
      "12 + q_raw_len (qi_q q) + length (concat rs) + length (response_opt q) \<le> effective_cap q is_udp cap"
    then show ?thesis using out dns_parse_query_raw(2) [OF q] by simp
  qed
  have "length out \<le> (if is_udp then if qi_has_edns q then 1232 else 512 else cap)"
    using len effective_cap_le [of q is_udp cap] effective_cap_udp [of q cap] effective_cap_classic [of q cap]
    by (auto simp: DNS_CLASSIC_UDP_LIMIT_def)
  moreover have "\<exists>dn rest rrs nx h. (if rc = DNS_RCODE_NOERROR then ans else []) = dn @ rest \<and>
           parse_rrs out (12 + q_raw_len (qi_q q)) (length (filter supported dn)) = Ok (rrs, nx) \<and>
           list_all2 (rr_for out (q_name (qi_q q))) rrs (filter supported dn) \<and>
           dns_parse_header out = Ok h \<and> h_id h = h_id (qi_hdr q) \<and> h_flags h AND DNS_RCODE_MASK = rc \<and>
           unat (h_ancount h) = length rrs" if pl: "plain_question query"
  proof -
    obtain dn rest rrs nx where r: "(if rc = DNS_RCODE_NOERROR then ans else []) = dn @ rest"
      "parse_rrs out (12 + q_raw_len (qi_q q)) (length (filter supported dn)) = Ok (rrs, nx)"
      "list_all2 (rr_for out (q_name (qi_q q))) rrs (filter supported dn)"
      and h: "dns_parse_header out = Ok \<lparr>h_id = h_id (qi_hdr q), h_flags = response_flags q (rest \<noteq> []) rc,
        h_qdcount = 1, h_ancount = word_of_nat (length rrs), h_nscount = 0,
        h_arcount = (if qi_has_edns q then 1 else 0)\<rparr>"
      using response_reads_back [OF q pl cap a(1,2) out] by blast
    have "length rrs \<le> length (dn @ rest)"
      using list_all2_lengthD [OF r(3)] length_filter_le [of supported dn] unfolding length_append by linarith
    also have "\<dots> \<le> 8" using a(3) unfolding r(1) [symmetric] by (simp add: DNS_MAX_ANSWERS_def)
    finally have "unat (word_of_nat (length rrs) :: u16) = length rrs" by (simp add: unat_of_nat)
    moreover have "rc AND DNS_RCODE_MASK = rc" using a(5) by (auto simp: dns_msg_consts)
    ultimately show ?thesis using r h response_flags_bits(2) [of q "rest \<noteq> []" rc] by fastforce
  qed
  ultimately show ?thesis using response_is_reply [OF q cap a(1) out] sv unfolding client_sees_def by blast
qed

lemma backend_run_answers:
  assumes "\<forall>h p. calloc h = Some p \<longrightarrow> h p = None" "\<forall>w. settles fuel net w"
    and "resolver_inv v" "list_all (\<lambda>(t, now, now', query, cap, is_udp). 512 \<le> cap) calls"
  shows "\<exists>rs v'. backend_run calloc fuel net calls v = Some (rs, v') \<and> list_all2 answered calls rs \<and> resolver_inv v'"
  using assms(3,4)
proof (induction calls arbitrary: v)
  case (Cons c calls)
  obtain t now now' query cap is_udp where c: "c = (t, now, now', query, cap, is_udp)" by (cases c) auto
  have cap: "512 \<le> cap" using Cons.prems(2) by (simp add: c)
  note out = dns_resolve_query_outcome [OF Cons.prems(1) assms(1) cap, where fuel = fuel and net = net and t = t and
      now = now and now' = now' and query = query and is_udp = is_udp]
  then obtain r v1 where r: "dns_resolve_query calloc fuel net t now now' query cap is_udp v = Some (r, v1)"
    using assms(2) by (auto split: option.splits)
  have v1: "resolver_inv v1" using out by (simp add: r)
  have a: "answered c r"
  proof (cases "dns_parse_query query")
    case (Ok q)
    then show ?thesis using out client_seesI [OF Ok cap] by (auto simp: r c answered_def)
  qed (use out in \<open>simp_all add: r c answered_def\<close>)
  from Cons.IH [OF v1] Cons.prems(2) r a show ?case by (auto simp: c)
qed simp

section \<open>Properties\<close>



end
