(* ===== verification/ResolverStub.thy ===== *)
theory ResolverStub
  imports Inet DnsIface "HOL-Library.Signed_Division"
begin

text \<open>
  The backend without upstream traffic (\<^verbatim>\<open>resolver_stub.c\<close>): every query gets one fixed address.
  The state holds the address, the configured delay and the delays slept so far.
\<close>

section \<open>Definitions\<close>

definition STUB_ANSWER_IP :: cstring where "STUB_ANSWER_IP = ascii ''10.0.0.1''"
definition STUB_TTL :: u32 where "STUB_TTL = 300"

record stub =
  stub_addr :: bytes
  stub_delay_us :: int
  stub_slept :: "(int \<times> int) list"

text \<open>\<^verbatim>\<open>strtol\<close> in base ten: white space, a sign, digits, clamped to the range of a 64 bit \<^verbatim>\<open>long\<close>.\<close>

definition digits_value :: "cstring \<Rightarrow> int" where
  "digits_value s = foldl (\<lambda>n c. 10 * n + (uint c - 48)) 0 (takeWhile (\<lambda>c. 48 \<le> c \<and> c \<le> 57) s)"

definition strtol :: "cstring \<Rightarrow> int" where
  "strtol s =
     (let s1 = dropWhile (\<lambda>c. c = 32 \<or> 9 \<le> c \<and> c \<le> 13) s;
          v = (case s1 of
                 [] \<Rightarrow> 0
               | c # s2 \<Rightarrow> if c = 45 then - digits_value s2 else if c = 43 then digits_value s2 else digits_value s1)
      in max (- (2 ^ 63)) (min (2 ^ 63 - 1) v))"

definition stub_backend_init :: "cstring option \<Rightarrow> cstring option \<Rightarrow> stub \<Rightarrow> stub res" where
  "stub_backend_init ip delay s =
     (case inet_pton (case ip of None \<Rightarrow> STUB_ANSWER_IP | Some ip \<Rightarrow> ip) of
        None \<Rightarrow> Err
      | Some a \<Rightarrow> Ok (s\<lparr>stub_addr := a, stub_delay_us := (case delay of None \<Rightarrow> 0 | Some d \<Rightarrow> strtol d)\<rparr>))"

function question_end_loop :: "bytes \<Rightarrow> nat \<Rightarrow> nat" where
  "question_end_loop msg off =
     (if off < length msg then
        (let l = msg ! off in
         if l = 0 then (if length msg < off + 1 + 4 then 0 else off + 1 + 4)
         else if l AND 0xC0 \<noteq> 0 then 0
         else question_end_loop msg (off + 1 + unat l))
      else 0)"
  by pat_completeness auto
termination
  by (relation "measure (\<lambda>(msg, off). length msg - off)") auto

declare question_end_loop.simps [simp del]

definition question_end :: "bytes \<Rightarrow> nat" where
  "question_end msg = question_end_loop msg DNS_HDR_LEN"

definition stub_flags :: "u16 \<Rightarrow> u16" where
  "stub_flags flags = ((flags OR 0x8000 OR 0x0080) AND NOT 0x7800) AND NOT 0x000F"

definition stub_record :: "bytes \<Rightarrow> bytes" where
  "stub_record addr = [0xC0, 0x0C, 0x00, 0x01, 0x00, 0x01] @ wr32 STUB_TTL @ [0x00, 0x04] @ addr"

definition stub_resolve_query :: "stub service" where
  "stub_resolve_query query resp_cap is_udp s =
     (if length query < DNS_HDR_LEN then Some (Err, s)
      else let qend = question_end query in
        if qend = 0 then Some (Err, s)
        else if resp_cap < qend + 16 then Some (Err, s)
        else let s1 = (if stub_delay_us s \<noteq> 0
                       then s\<lparr>stub_slept := stub_slept s @
                              [(stub_delay_us s sdiv 1000000, (stub_delay_us s smod 1000000) * 1000)]\<rparr>
                       else s);
                 resp = take qend query;
                 flags = stub_flags (be16 (resp ! 2) (resp ! 3));
                 resp1 = resp[2 := ucast (drop_bit 8 flags), 3 := ucast flags, 6 := 0, 7 := 1,
                              8 := 0, 9 := 0, 10 := 0, 11 := 0]
             in Some (Ok (resp1 @ stub_record (stub_addr s)), s1))"

section \<open>The question\<close>

lemma question_end_of_name:
  "name_at msg off ls j nxt \<Longrightarrow> j = 0 \<Longrightarrow> nxt + 4 \<le> length msg \<Longrightarrow> question_end_loop msg off = nxt + 4"
proof (induction rule: name_at.induct)
  case (root off)
  then show ?case by (subst question_end_loop.simps) simp
next
  case (label off l ls j nxt)
  then show ?case using name_at_bounds [OF label.hyps(5)] by (subst question_end_loop.simps) (auto simp: Let_def)
qed simp

lemma name_of_question_end:
  "question_end_loop msg off = e \<Longrightarrow> e \<noteq> 0 \<Longrightarrow> \<exists>ls nxt. name_at msg off ls 0 nxt \<and> e = nxt + 4 \<and> e \<le> length msg"
proof (induction msg off rule: question_end_loop.induct)
  case (1 msg off)
  define l where "l = msg ! off"
  have off: "off < length msg" using 1(2,3) by (subst (asm) question_end_loop.simps) (auto split: if_splits)
  show ?case
  proof (cases "l = 0")
    case True
    then have "e = off + 1 + 4 \<and> off + 1 + 4 \<le> length msg"
      using 1(2,3) off by (subst (asm) question_end_loop.simps) (auto simp: l_def split: if_splits)
    then show ?thesis using name_at.root [OF off] True by (auto simp: l_def)
  next
    case False
    then have m: "l AND 0xC0 = 0" and e: "question_end_loop msg (off + 1 + unat l) = e"
      using 1(2,3) off by (subst (asm) question_end_loop.simps; auto simp: l_def Let_def split: if_splits)+
    obtain ls nxt where n: "name_at msg (off + 1 + unat l) ls 0 nxt" "e = nxt + 4" "e \<le> length msg"
      using 1(1) [OF off l_def False] m e 1(3) by (auto simp: l_def)
    have "name_at msg off (take (unat l) (drop (off + 1) msg) # ls) 0 nxt"
      using name_at_bounds [OF n(1)] False m n(1) by (intro name_at.label) (auto simp: l_def)
    then show ?thesis using n by blast
  qed
qed

lemma question_end_iff:
  assumes "e \<noteq> 0"
  shows "question_end msg = e \<longleftrightarrow> (\<exists>ls nxt. name_at msg 12 ls 0 nxt \<and> e = nxt + 4 \<and> e \<le> length msg)"
  unfolding question_end_def DNS_HDR_LEN_def
  using question_end_of_name name_of_question_end [OF _ assms] by blast

section \<open>The contract\<close>

lemma stub_flags_bits:
  "bit (stub_flags f) 15" "bit (stub_flags f) 7" "stub_flags f AND DNS_OPCODE_MASK = 0" "stub_flags f AND DNS_RCODE_MASK = 0"
  "bit (stub_flags f) 8 = bit f 8"
  unfolding stub_flags_def dns_msg_consts
  by (simp_all add: bit_simps) (rule bit_word_eqI, auto simp: bit_simps)+

lemma response_bit_set: "bit w 15 \<Longrightarrow> w AND DNS_FLAG_QR \<noteq> 0"
proof
  assume "bit w 15" "w AND DNS_FLAG_QR = 0"
  moreover have "bit (w AND 0x8000) 15 = bit w 15" by (simp add: bit_and_iff)
  ultimately show False by (simp add: DNS_FLAG_QR_def)
qed

lemma patched_header:
  assumes "12 \<le> length xs"
  shows "xs[2 := a, 3 := b, 6 := 0, 7 := 1, 8 := 0, 9 := 0, 10 := 0, 11 := 0] =
    take 2 xs @ [a, b] @ take 2 (drop 4 xs) @ [0, 1, 0, 0, 0, 0] @ drop 12 xs"
  using assms by (auto simp: Suc_le_length_iff numeral_eq_Suc)

lemma stub_resolve_query_cases:
  obtains (drop) "stub_resolve_query query cap is_udp s = Some (Err, s)"
  | (reply) ls nxt resp s' where "name_at query 12 ls 0 nxt" "nxt + 4 \<le> length query" "nxt + 20 \<le> cap"
      "stub_addr s' = stub_addr s" "stub_delay_us s' = stub_delay_us s"
      "resp = take 2 query @ wr16 (stub_flags (be16 (query ! 2) (query ! 3))) @ take 2 (drop 4 query) @
         [0, 1, 0, 0, 0, 0] @ take (nxt - 8) (drop 12 query) @ stub_record (stub_addr s)"
      "stub_resolve_query query cap is_udp s = Some (Ok resp, s')"
proof (cases "length query < 12 \<or> question_end query = 0 \<or> cap < question_end query + 16")
  case True
  then show thesis using drop by (auto simp: stub_resolve_query_def DNS_HDR_LEN_def Let_def)
next
  case False
  then obtain ls nxt where n: "name_at query 12 ls 0 nxt" "question_end query = nxt + 4" "nxt + 4 \<le> length query"
    using question_end_iff [of "question_end query" query] by metis
  have b: "12 < nxt" using name_at_bounds [OF n(1)] by simp
  then have "take 2 (take (nxt + 4) query) = take 2 query" "take 2 (drop 4 (take (nxt + 4) query)) = take 2 (drop 4 query)"
    "drop 12 (take (nxt + 4) query) = take (nxt - 8) (drop 12 query)" "12 \<le> length (take (nxt + 4) query)"
    "take (nxt + 4) query ! 2 = query ! 2" "take (nxt + 4) query ! 3 = query ! 3"
    using n(3) by (simp_all add: drop_take)
  then show thesis
    using False n(2,3) b
    by (intro reply [OF n(1,3) _ _ _ refl, of "if stub_delay_us s \<noteq> 0
                       then s\<lparr>stub_slept := stub_slept s @
                              [(stub_delay_us s sdiv 1000000, (stub_delay_us s smod 1000000) * 1000)]\<rparr>
                       else s"])
      (simp_all add: stub_resolve_query_def DNS_HDR_LEN_def Let_def patched_header wr16_def)
qed

text \<open>The stub is ready once its address has been set.\<close>

definition stub_ready :: "stub \<Rightarrow> bool" where
  "stub_ready s \<longleftrightarrow> length (stub_addr s) = 4"

interpretation stub: live_service stub_resolve_query stub_ready
proof (unfold_locales, goal_cases)
  case (1 s cap query is_udp r s')
  then show ?case
    by (cases rule: stub_resolve_query_cases [of query cap is_udp s]) (auto simp: stub_ready_def)
next
  case (2 s cap query is_udp resp s')
  then show ?case
  proof (cases rule: stub_resolve_query_cases [of query cap is_udp s])
    case (reply ls nxt r s1)
    then show ?thesis
      using 2 name_at_bounds [OF reply(1)] stub_flags_bits(1)
      by (auto simp: reply_to_def DNS_HDR_LEN_def stub_ready_def stub_record_def wr16_def nth_append bit_simps)
  qed simp
next
  case (3 s cap query is_udp)
  then show ?case by (cases rule: stub_resolve_query_cases [of query cap is_udp s]) auto
qed

lemma pton_loop_length:
  "pton_loop saw octets tp cur src = Some bs \<Longrightarrow> (if saw then length tp + 1 = octets \<and> octets \<le> 4 else length tp = octets \<and> octets \<le> 3) \<Longrightarrow>
   length bs = 4"
proof (induction saw octets tp cur src rule: pton_loop.induct)
  case (2 saw octets tp cur ch src)
  then show ?case by (auto simp: Let_def split: if_splits)
qed (auto split: if_splits)

lemma inet_pton_length: "inet_pton src = Some bs \<Longrightarrow> length bs = 4"
  using pton_loop_length [of False 0 "[]" 0 src bs] by (simp add: inet_pton_def)

lemma stub_init_ready: "stub_backend_init ip delay s0 = Ok s \<Longrightarrow> stub_ready s"
  by (auto simp: stub_backend_init_def stub_ready_def inet_pton_length split: option.splits)

lemma name_at_reheaded:
  assumes "name_at query 12 ls 0 nxt" "nxt + 4 \<le> length query" "length hdr = 12"
    and "out = hdr @ take (nxt - 8) (drop 12 query) @ rest"
  shows "name_at out 12 ls 0 nxt"
proof (rule name_at_local [OF assms(1) refl])
  note b = name_at_bounds [OF assms(1)]
  show "nxt \<le> length out" using b assms(2,3,4) by simp
  fix i assume i: "12 \<le> i" "i < nxt"
  then have "out ! i = (take (nxt - 8) (drop 12 query) @ rest) ! (i - 12)"
    unfolding assms(4) using assms(3) by (subst nth_append) simp
  moreover have "i - 12 < nxt - 8" using i b by linarith
  ultimately show "out ! i = query ! i" using i assms(2) by (simp add: nth_append)
qed

lemma stub_plain:
  assumes q: "dns_parse_query query = Ok q" and "plain_question query" and a: "length (stub_addr s) = 4"
    and cap: "12 + q_raw_len (qi_q q) + 16 \<le> cap"
  shows "\<exists>out s' rr. stub_resolve_query query cap is_udp s = Some (Ok out, s') \<and> stub_addr s' = stub_addr s \<and>
    dns_parse_header out = Ok \<lparr>h_id = h_id (qi_hdr q), h_flags = stub_flags (h_flags (qi_hdr q)), h_qdcount = 1,
      h_ancount = 1, h_nscount = 0, h_arcount = 0\<rparr> \<and>
    parse_rrs out (12 + q_raw_len (qi_q q)) 1 = Ok ([rr], length out) \<and>
    rr_for out (q_name (qi_q q)) rr \<lparr>an_type = DNS_TYPE_A, an_ttl = STUB_TTL, an_rdata = RD_A (stub_addr s),
      an_owner = q_name (qi_q q)\<rparr>"
proof -
  let ?n = "q_raw_len (qi_q q)"
  obtain h where h: "dns_parse_header query = Ok h" "qi_hdr q = h" "h_qdcount h = 1" by (rule dns_parse_query_cases [OF q])
  obtain ls where ls: "name_at query 12 ls 0 (12 + ?n - 4)" "length (dotted ls) \<le> 255"
    "q_name (qi_q q) = cstr (lower (dotted ls))" by (rule plain_question_decode [OF assms(1,2)])
  note raw = dns_parse_query_raw [OF q]
  have qe: "question_end query = 12 + ?n"
    using question_end_iff [of "12 + ?n" query] ls(1) raw by force
  obtain nxt out s' where r: "nxt = 12 + ?n - 4" "stub_addr s' = stub_addr s"
    "out = take 2 query @ wr16 (stub_flags (be16 (query ! 2) (query ! 3))) @ take 2 (drop 4 query) @
         [0, 1, 0, 0, 0, 0] @ take (nxt - 8) (drop 12 query) @ stub_record (stub_addr s)"
    "stub_resolve_query query cap is_udp s = Some (Ok out, s')"
  proof (cases rule: stub_resolve_query_cases [of query cap is_udp s])
    case drop
    then show thesis using qe raw cap by (auto simp: stub_resolve_query_def DNS_HDR_LEN_def Let_def)
  next
    case (reply ls' nxt resp s')
    then show thesis using that name_at_unique [OF ls(1) reply(1)] by blast
  qed
  let ?h = "wr16 (h_id h) @ wr16 (stub_flags (h_flags h)) @ wr16 1 @ wr16 1 @ wr16 0 @ wr16 0"
  let ?pre = "?h @ take ?n (drop 12 query)"
  have "nxt - 8 = ?n" "wr16 1 = [0, 1]" "wr16 0 = [0, 0]" using r(1) raw(3) by (simp_all add: wr16_def)
  then have out: "out = ?pre @ stub_record (stub_addr s)"
    using parse_header_id [OF h(1)] h(3) by (simp add: r(3))
  have "name_at out 12 ls 0 (12 + ?n - 4)"
    by (rule name_at_reheaded [OF ls(1), of ?h _ "stub_record (stub_addr s)"]) (use raw in \<open>simp_all add: out\<close>)
  moreover let ?a = "\<lparr>an_type = DNS_TYPE_A, an_ttl = STUB_TTL, an_rdata = RD_A (stub_addr s), an_owner = q_name (qi_q q)\<rparr>"
  have "ans_wire (q_name (qi_q q)) ?a = Some (stub_record (stub_addr s))"
    using a by (simp add: ans_wire_def owner_wire_def dns_name_equal_iff stub_record_def wr16_def dns_msg_consts)
  moreover have "wf_answer ?a" "supported ?a" "cstr_answer ?a"
    using a ls(3) by (simp_all add: wf_answer_def supported_def cstr_answer_def dns_msg_consts is_cstr_cstr)
  moreover have len: "length ?pre = 12 + ?n" "length out = length ?pre + length (stub_record (stub_addr s))"
    using raw(2) by (simp_all add: out)
  ultimately obtain rr where "dns_parse_rr out (12 + ?n) = Ok (rr, length out)" "rr_for out (q_name (qi_q q)) rr ?a"
    using parse_ans_wire [of "q_name (qi_q q)" ?a "stub_record (stub_addr s)" out ?pre "[]"] ls(2,3) out raw(2,3)
    unfolding len by auto
  moreover have "dns_parse_header out = Ok \<lparr>h_id = h_id h, h_flags = stub_flags (h_flags h), h_qdcount = 1,
      h_ancount = 1, h_nscount = 0, h_arcount = 0\<rparr>"
    unfolding out append.assoc by (rule dns_parse_header_wr16)
  ultimately show ?thesis using r(2,4) h(2) by auto
qed

lemma stub_compressed:
  assumes "\<not> plain_question query"
  shows "stub_resolve_query query cap is_udp s = Some (Err, s)"
  using assms by (cases rule: stub_resolve_query_cases [of query cap is_udp s]) (auto simp: plain_question_def)

section \<open>Properties\<close>



text \<open>C27: The stub also answers messages that are not queries: it looks at neither the response bit
  nor the question count. Its own reply, sent back to it, is answered again, so two stubs that hear
  each other never stop.\<close>

theorem stub_answers_responses:
  assumes "stub_ready s" "stub_resolve_query query cap is_udp s = Some (Ok out, s1)" "length out \<le> cap'"
  shows "\<exists>s2. stub_resolve_query out cap' is_udp s1 = Some (Ok out, s2) \<and> dns_parse_query out = Err"
  using assms(2)
proof (cases rule: stub_resolve_query_cases [of query cap is_udp s])
  case (reply ls nxt resp s')
  define f where "f = stub_flags (be16 (query ! 2) (query ! 3))"
  let ?h = "take 2 query @ wr16 f @ take 2 (drop 4 query) @ [0, 1, 0, 0, 0, 0]"
  have b: "12 < nxt" using name_at_bounds [OF reply(1)] by simp
  have out: "out = ?h @ take (nxt - 8) (drop 12 query) @ stub_record (stub_addr s)" and s1: "stub_addr s1 = stub_addr s"
    using assms(2) reply by (simp_all add: f_def)
  have n: "name_at out 12 ls 0 nxt" by (rule name_at_reheaded [OF reply(1,2) _ out]) (use b reply(2) in simp)
  have ff: "stub_flags f = f" unfolding f_def stub_flags_def by (rule bit_word_eqI) (auto simp: bit_simps)
  have "6 \<le> length query" using b reply(2) by linarith
  then obtain q0 q1 q2 q3 q4 q5 m where q: "query = q0 # q1 # q2 # q3 # q4 # q5 # m"
    by (auto simp: Suc_le_length_iff numeral_eq_Suc)
  have w: "wr16 f = [wr16 f ! 0, wr16 f ! 1]" by (simp add: wr16_def)
  have hd: "out = [q0, q1, wr16 f ! 0, wr16 f ! 1, q4, q5, 0, 1, 0, 0, 0, 0] @ take (nxt - 8) (drop 12 query) @ stub_record (stub_addr s)"
    unfolding out by (subst w) (simp add: q)
  have o: "take 2 out = take 2 query" "be16 (out ! 2) (out ! 3) = f" "take 2 (drop 4 out) = take 2 (drop 4 query)"
    "take (nxt - 8) (drop 12 out) = take (nxt - 8) (drop 12 query)" "nxt + 20 = length out"
    using b reply(2) assms(1) by (simp_all add: hd q stub_ready_def stub_record_def)
  obtain s2 where "stub_resolve_query out cap' is_udp s1 = Some (Ok out, s2)"
  proof (cases rule: stub_resolve_query_cases [of out cap' is_udp s1])
    case drop
    then show thesis
      using question_end_iff [of "nxt + 4" out] n o(5) assms(3) by (auto simp: stub_resolve_query_def DNS_HDR_LEN_def Let_def)
  next
    case (reply ls' nxt' resp' s2)
    have nx: "nxt' = nxt" using name_at_unique [OF n reply(1)] by simp
    have "resp' = out" unfolding reply(6) nx unfolding o s1 ff by (simp add: out)
    then show thesis using reply(7) that by simp
  qed
  moreover have "dns_parse_query out = Err"
  proof -
    have "h_flags h AND DNS_FLAG_QR \<noteq> 0" if "dns_parse_header out = Ok h" for h
      using parse_header_id(3) [OF that] o(2) response_bit_set [OF stub_flags_bits(1)] by (simp add: f_def)
    then show ?thesis using dns_parse_header_nofault [of out] by (cases "dns_parse_header out") (auto simp: dns_parse_query_def simp del: dns_parse_header_Err)
  qed
  ultimately show ?thesis by blast
qed simp

theorem stub_answers_responses_witness:
  "\<exists>out s1 s2. stub_resolve_query sample_query 1500 True \<lparr>stub_addr = [10, 0, 0, 1], stub_delay_us = 0, stub_slept = []\<rparr> =
       Some (Ok out, s1) \<and> stub_resolve_query out 1500 True s1 = Some (Ok out, s2) \<and> dns_parse_query out = Err"
proof -
  let ?s = "\<lparr>stub_addr = [10, 0, 0, 1], stub_delay_us = 0, stub_slept = []\<rparr>"
  have r: "stub_ready ?s" by (simp add: stub_ready_def)
  have "case stub_resolve_query sample_query 1500 True ?s of Some (Ok out, s1) \<Rightarrow> length out \<le> 1500 | _ \<Rightarrow> False" by code_simp
  then obtain out s1 where o: "stub_resolve_query sample_query 1500 True ?s = Some (Ok out, s1)" "length out \<le> 1500"
    by (auto split: option.splits prod.splits res.splits)
  from stub_answers_responses [OF r o] show ?thesis using o(1) by blast
qed

end
