(* ===== verification/XdpKern.thy ===== *)
theory XdpKern
  imports DnsName
begin

text \<open>
  The packet filter in the kernel (\<^verbatim>\<open>af_xdp_kern.c\<close>).

  A packet is the byte list between \<^verbatim>\<open>data\<close> and \<^verbatim>\<open>data_end\<close>; a read outside it is a \<open>Fault\<close>, so that
  the pointer checks the code makes before each access are what keeps it safe. The per-CPU counters
  are the values \<^verbatim>\<open>bpf_map_lookup_elem\<close> yields pointers to, \<open>None\<close> where it yields \<^verbatim>\<open>NULL\<close>. The helper
  \<^verbatim>\<open>bpf_redirect_map\<close> is an argument: it is given the queue index and the fallback action.
\<close>

section \<open>Definitions\<close>

datatype xdp_dns_stat = STAT_TOTAL | STAT_NOT_IPV4 | STAT_NOT_UDP | STAT_NOT_DNS_PORT | STAT_MALFORMED
  | STAT_NOT_QUERY | STAT_REDIRECTED

datatype xdp_action = XDP_ABORTED | XDP_DROP | XDP_PASS | XDP_TX | XDP_REDIRECT

type_synonym kern_stats = "xdp_dns_stat \<Rightarrow> u64 option"

definition stat_bump :: "xdp_dns_stat \<Rightarrow> kern_stats \<Rightarrow> kern_stats" where
  "stat_bump slot st = (case st slot of None \<Rightarrow> st | Some v \<Rightarrow> st(slot \<mapsto> v + 1))"

definition stat_verdict :: "xdp_dns_stat \<Rightarrow> xdp_action \<Rightarrow> kern_stats \<Rightarrow> (xdp_action \<times> kern_stats) res" where
  "stat_verdict slot verdict st = Ok (verdict, stat_bump slot st)"

definition ETH_HLEN :: nat where "ETH_HLEN = 14"
definition IP_HLEN :: nat where "IP_HLEN = 20"
definition UDP_HLEN :: nat where "UDP_HLEN = 8"
definition MAX_IHL_BYTES :: nat where "MAX_IHL_BYTES = 60"
definition ETH_P_IP :: u16 where "ETH_P_IP = 0x0800"
definition IPPROTO_UDP :: byte where "IPPROTO_UDP = 17"
definition DNS_PORT :: u16 where "DNS_PORT = 53"

lemmas frame_consts = ETH_HLEN_def IP_HLEN_def UDP_HLEN_def MAX_IHL_BYTES_def ETH_P_IP_def IPPROTO_UDP_def
  DNS_PORT_def

text \<open>The DNS part of the filter, at offset \<open>dns\<close>.\<close>

definition dns_checks ::
  "(u32 \<Rightarrow> xdp_action \<Rightarrow> xdp_action) \<Rightarrow> bytes \<Rightarrow> u32 \<Rightarrow> nat \<Rightarrow> kern_stats \<Rightarrow> (xdp_action \<times> kern_stats) res" where
  "dns_checks redirect_map pkt qidx dns st =
     (if length pkt < dns + DNS_HDR_LEN then stat_verdict STAT_MALFORMED XDP_PASS st
      else res_bind (rd16 pkt (dns + 2)) (\<lambda>flags.
        if flags AND 0x8000 \<noteq> 0 then stat_verdict STAT_NOT_QUERY XDP_PASS st
        else res_bind (rd16 pkt (dns + 4)) (\<lambda>qdcount.
          if qdcount \<noteq> 1 then stat_verdict STAT_NOT_QUERY XDP_PASS st
          else if length pkt < dns + DNS_HDR_LEN + 1 then stat_verdict STAT_MALFORMED XDP_PASS st
          else Ok (redirect_map qidx XDP_PASS, stat_bump STAT_REDIRECTED st))))"

definition xdp_dns_redirect ::
  "(u32 \<Rightarrow> xdp_action \<Rightarrow> xdp_action) \<Rightarrow> bytes \<Rightarrow> u32 \<Rightarrow> kern_stats \<Rightarrow> (xdp_action \<times> kern_stats) res" where
  "xdp_dns_redirect redirect_map pkt qidx st0 =
     (let st = stat_bump STAT_TOTAL st0; ip = ETH_HLEN in
      if length pkt < ETH_HLEN then stat_verdict STAT_MALFORMED XDP_PASS st
      else res_bind (rd16 pkt 12) (\<lambda>h_proto.
        if h_proto \<noteq> ETH_P_IP then stat_verdict STAT_NOT_IPV4 XDP_PASS st
        else if length pkt < ip + IP_HLEN then stat_verdict STAT_MALFORMED XDP_PASS st
        else res_bind (rd8 pkt ip) (\<lambda>vihl.
          let version = drop_bit 4 vihl; ihl = unat (vihl AND 0x0F) in
          if version \<noteq> 4 \<or> ihl < 5 then stat_verdict STAT_MALFORMED XDP_PASS st
          else res_bind (rd8 pkt (ip + 9)) (\<lambda>protocol.
            if protocol \<noteq> IPPROTO_UDP then stat_verdict STAT_NOT_UDP XDP_PASS st
            else res_bind (rd16 pkt (ip + 6)) (\<lambda>frag_off.
              if frag_off AND (0x2000 OR 0x1FFF) \<noteq> 0 then stat_verdict STAT_MALFORMED XDP_PASS st
              else let ihl_bytes = ihl * 4 in
                if ihl_bytes < IP_HLEN \<or> MAX_IHL_BYTES < ihl_bytes then stat_verdict STAT_MALFORMED XDP_PASS st
                else let udp = ip + ihl_bytes in
                  if length pkt < udp + UDP_HLEN then stat_verdict STAT_MALFORMED XDP_PASS st
                  else res_bind (rd16 pkt (udp + 2)) (\<lambda>dest.
                    if dest \<noteq> DNS_PORT then stat_verdict STAT_NOT_DNS_PORT XDP_PASS st
                    else dns_checks redirect_map pkt qidx (udp + UDP_HLEN) st))))))"

section \<open>What the filter lets through\<close>

text \<open>The filter's purpose, on the bytes of the packet.\<close>

definition ip_ihl :: "bytes \<Rightarrow> nat" where
  "ip_ihl pkt = 4 * unat (pkt ! 14 AND 0x0F)"

definition dns_query_packet :: "bytes \<Rightarrow> bool" where
  "dns_query_packet pkt \<longleftrightarrow> (let dns = 22 + ip_ihl pkt in
     34 \<le> length pkt \<and> dns + 13 \<le> length pkt \<and> 20 \<le> ip_ihl pkt \<and>
     be16 (pkt ! 12) (pkt ! 13) = 0x0800 \<and> drop_bit 4 (pkt ! 14) = 4 \<and> pkt ! 23 = 17 \<and>
     be16 (pkt ! 20) (pkt ! 21) AND 0x3FFF = 0 \<and>
     be16 (pkt ! (dns - 6)) (pkt ! (dns - 5)) = 53 \<and>
     be16 (pkt ! (dns + 2)) (pkt ! (dns + 3)) AND 0x8000 = 0 \<and>
     be16 (pkt ! (dns + 4)) (pkt ! (dns + 5)) = 1)"

lemma low_nibble: "unat (b AND 0x0F :: byte) < 16"
proof -
  have m: "(0x0F :: byte) = mask 4" by (simp add: mask_eq_exp_minus_1)
  have "unat (take_bit 4 b) < 2 ^ 4" unfolding unsigned_take_bit_eq by (rule take_bit_nat_less_exp)
  then show ?thesis by (simp add: m take_bit_eq_mask)
qed

lemma rd_in_bounds:
  "p + 1 < length msg \<Longrightarrow> rd16 msg p = Ok (be16 (msg ! p) (msg ! (p + 1)))"
  "p < length msg \<Longrightarrow> rd8 msg p = Ok (msg ! p)"
  by simp_all

text \<open>The counter a packet ends up in.\<close>

definition filter_slot :: "bytes \<Rightarrow> xdp_dns_stat" where
  "filter_slot pkt = (let dns = 22 + ip_ihl pkt in
     if length pkt < 14 then STAT_MALFORMED
     else if be16 (pkt ! 12) (pkt ! 13) \<noteq> 0x0800 then STAT_NOT_IPV4
     else if length pkt < 34 \<or> drop_bit 4 (pkt ! 14) \<noteq> 4 \<or> ip_ihl pkt < 20 then STAT_MALFORMED
     else if pkt ! 23 \<noteq> 17 then STAT_NOT_UDP
     else if be16 (pkt ! 20) (pkt ! 21) AND 0x3FFF \<noteq> 0 \<or> length pkt < dns then STAT_MALFORMED
     else if be16 (pkt ! (dns - 6)) (pkt ! (dns - 5)) \<noteq> 53 then STAT_NOT_DNS_PORT
     else if length pkt < dns + 12 then STAT_MALFORMED
     else if be16 (pkt ! (dns + 2)) (pkt ! (dns + 3)) AND 0x8000 \<noteq> 0 \<or>
             be16 (pkt ! (dns + 4)) (pkt ! (dns + 5)) \<noteq> 1 then STAT_NOT_QUERY
     else if length pkt < dns + 13 then STAT_MALFORMED
     else STAT_REDIRECTED)"

lemma filter_slot_redirected: "filter_slot pkt = STAT_REDIRECTED \<longleftrightarrow> dns_query_packet pkt"
  by (auto simp: filter_slot_def dns_query_packet_def Let_def)

lemma dns_checks_eval:
  "dns_checks redirect_map pkt qidx dns st =
     (if length pkt < dns + 12 then Ok (XDP_PASS, stat_bump STAT_MALFORMED st)
      else if be16 (pkt ! (dns + 2)) (pkt ! (dns + 3)) AND 0x8000 \<noteq> 0 \<or>
              be16 (pkt ! (dns + 4)) (pkt ! (dns + 5)) \<noteq> 1 then Ok (XDP_PASS, stat_bump STAT_NOT_QUERY st)
      else if length pkt < dns + 13 then Ok (XDP_PASS, stat_bump STAT_MALFORMED st)
      else Ok (redirect_map qidx XDP_PASS, stat_bump STAT_REDIRECTED st))"
  by (simp add: dns_checks_def stat_verdict_def rd_in_bounds DNS_HDR_LEN_def eval_nat_numeral)

lemma filter_eval:
  "xdp_dns_redirect redirect_map pkt qidx st =
     Ok (if dns_query_packet pkt then redirect_map qidx XDP_PASS else XDP_PASS,
         stat_bump (filter_slot pkt) (stat_bump STAT_TOTAL st))"
proof (cases "length pkt < 34")
  case True
  then show ?thesis
    unfolding filter_slot_redirected [symmetric]
    by (simp add: xdp_dns_redirect_def filter_slot_def stat_verdict_def rd_in_bounds frame_consts Let_def)
next
  case False
  have "unat (pkt ! 14 AND 0x0F) * 4 \<le> 60" using low_nibble [of "pkt ! 14"] by simp
  then show ?thesis
    unfolding filter_slot_redirected [symmetric]
    using False
    by (auto simp: xdp_dns_redirect_def filter_slot_def stat_verdict_def rd_in_bounds frame_consts Let_def
        dns_checks_eval ip_ihl_def mult.commute [of 4])
qed

section \<open>Properties\<close>

text \<open>C28: The filter selects exactly DNS queries. On any packet it stays within the packet's bytes, and
  hands the packet to \<^verbatim>\<open>bpf_redirect_map\<close> exactly when it is an unfragmented IPv4 UDP packet to port 53
  with room for a DNS header and one more byte, the response bit clear and one question; every
  other packet is passed up the stack. Two counters move by one: the total, and the one that
  says what became of the packet.\<close>

theorem filter_selects_queries:
  "\<exists>slot. xdp_dns_redirect redirect_map pkt qidx st =
      Ok (if dns_query_packet pkt then redirect_map qidx XDP_PASS else XDP_PASS,
          stat_bump slot (stat_bump STAT_TOTAL st)) \<and>
    slot \<noteq> STAT_TOTAL \<and> (slot = STAT_REDIRECTED \<longleftrightarrow> dns_query_packet pkt)"
proof -
  have "filter_slot pkt \<noteq> STAT_TOTAL" by (simp add: filter_slot_def Let_def)
  then show ?thesis using filter_eval filter_slot_redirected by blast
qed

end
