(* ===== verification/XskFrames.thy ===== *)
theory XskFrames
  imports XdpKern DnsIface
begin

text \<open>
  Frames in user space (\<^verbatim>\<open>af_xdp_user.c\<close>): the Internet checksum, the parser that turns a received frame
  into a job, and the builder of the response frame.

  Fields the code copies without interpreting them, addresses and ports, stay byte lists in network
  order. The checksum reads the header as 16 bit words in host order, which is little-endian on the
  platforms the program is built for.
\<close>

section \<open>Definitions\<close>

record dns_job =
  j_loop_idx :: byte
  j_client_mac :: bytes
  j_server_mac :: bytes
  j_client_ip :: bytes
  j_server_ip :: bytes
  j_client_port :: bytes
  j_tos :: byte
  j_ttl :: byte
  j_query :: bytes
  j_resp :: bytes
  j_t_rx_ns :: u64

definition le16 :: "byte \<Rightarrow> byte \<Rightarrow> u32" where
  "le16 a b = ucast a OR push_bit 8 (ucast b)"

fun sum_words :: "bytes \<Rightarrow> u32 \<Rightarrow> u32" where
  "sum_words [] acc = acc"
| "sum_words [a] acc = acc + ucast a"
| "sum_words (a # b # w) acc = sum_words w (acc + le16 a b)"

lemma word_halves:
  fixes acc :: u32
  shows "unat (acc AND 0xFFFF) = unat acc mod 65536" "unat (drop_bit 16 acc) = unat acc div 65536"
proof -
  have m: "(0xFFFF :: u32) = mask 16" by (simp add: mask_eq_exp_minus_1)
  show "unat (acc AND 0xFFFF) = unat acc mod 65536"
    unfolding m take_bit_eq_mask [symmetric] unsigned_take_bit_eq by (simp add: take_bit_eq_mod)
  have "unat acc < 2 ^ 32" using unsigned_less [of acc] by simp
  then show "unat (drop_bit 16 acc) = unat acc div 65536"
    unfolding unsigned_drop_bit_eq by (simp add: drop_bit_eq_div take_bit_nat_eq_self)
qed

lemma fold_step:
  fixes acc :: u32
  shows "unat ((acc AND 0xFFFF) + drop_bit 16 acc) = unat acc mod 65536 + unat acc div 65536"
proof -
  have "unat acc < 65536 * 65536" using unsigned_less [of acc] by simp
  then have "unat acc div 65536 < 65536" by (simp add: less_mult_imp_div_less)
  moreover have "unat acc mod 65536 < 65536" by simp
  ultimately have "unat acc mod 65536 + unat acc div 65536 < 4294967296" by linarith
  then show ?thesis by (simp add: unat_word_ariths word_halves)
qed

lemma fold_less:
  fixes acc :: u32
  assumes "drop_bit 16 acc \<noteq> 0"
  shows "unat ((acc AND 0xFFFF) + drop_bit 16 acc) < unat acc"
proof -
  have "unat (drop_bit 16 acc) \<noteq> 0" using assms by (simp add: unsigned_eq_0_iff)
  then show ?thesis unfolding fold_step word_halves using div_mult_mod_eq [of "unat acc" 65536] by linarith
qed

function fold_carry :: "u32 \<Rightarrow> u32" where
  "fold_carry acc = (if drop_bit 16 acc \<noteq> 0 then fold_carry ((acc AND 0xFFFF) + drop_bit 16 acc) else acc)"
  by pat_completeness auto
termination
  by (relation "measure unat") (use fold_less in auto)

declare fold_carry.simps [simp del]

definition ipv4_checksum :: "bytes \<Rightarrow> u16" where
  "ipv4_checksum buf = ucast (NOT (fold_carry (sum_words buf 0)))"

text \<open>The checks on a received frame: the offset of the UDP header and the length of the query.\<close>

definition locate_query :: "bytes \<Rightarrow> (nat \<times> nat) option res" where
  "locate_query pkt =
     (if length pkt < ETH_HLEN + IP_HLEN + UDP_HLEN then Ok None
      else res_bind (rd16 pkt 12) (\<lambda>h_proto.
        if h_proto \<noteq> ETH_P_IP then Ok None
        else res_bind (rd8 pkt ETH_HLEN) (\<lambda>vihl.
          if drop_bit 4 vihl \<noteq> 4 \<or> unat (vihl AND 0x0F) < 5 then Ok None
          else let ihl = unat (vihl AND 0x0F) * 4 in
            if length pkt < ETH_HLEN + ihl + UDP_HLEN then Ok None
            else res_bind (rd8 pkt (ETH_HLEN + 9)) (\<lambda>protocol.
              if protocol \<noteq> IPPROTO_UDP then Ok None
              else let udp = ETH_HLEN + ihl in
                res_bind (rd16 pkt (udp + 2)) (\<lambda>dest.
                if dest \<noteq> DNS_PORT then Ok None
                else res_bind (rd16 pkt (udp + 4)) (\<lambda>udp_len.
                  if unat udp_len < UDP_HLEN then Ok None
                  else let avail = length pkt - (ETH_HLEN + ihl + UDP_HLEN);
                           dns_len = min avail (unat udp_len - UDP_HLEN) in
                    if dns_len < 12 \<or> DNS_MAX_MSG_LEN < dns_len then Ok None
                    else Ok (Some (udp, dns_len))))))))"

text \<open>\<open>now\<close> is the clock reading, \<open>alloc\<close> whether \<^verbatim>\<open>malloc\<close> succeeds.\<close>

definition parse_frame :: "bool \<Rightarrow> u64 \<Rightarrow> bytes \<Rightarrow> nat \<Rightarrow> dns_job option res" where
  "parse_frame alloc now pkt loop_idx =
     res_bind (locate_query pkt) (\<lambda>loc. case loc of
       None \<Rightarrow> Ok None
     | Some (udp, dns_len) \<Rightarrow>
         if \<not> alloc then Ok None
         else res_bind (rd_bytes pkt 6 6) (\<lambda>h_source.
              res_bind (rd_bytes pkt 0 6) (\<lambda>h_dest.
              res_bind (rd_bytes pkt (ETH_HLEN + 12) 4) (\<lambda>saddr.
              res_bind (rd_bytes pkt (ETH_HLEN + 16) 4) (\<lambda>daddr.
              res_bind (rd_bytes pkt udp 2) (\<lambda>source.
              res_bind (rd8 pkt (ETH_HLEN + 1)) (\<lambda>tos.
              res_bind (rd_bytes pkt (udp + UDP_HLEN) dns_len) (\<lambda>payload.
              res_bind (buf_append DNS_MAX_MSG_LEN [] payload) (\<lambda>query.
              Ok (Some \<lparr>j_loop_idx = of_nat loop_idx, j_client_mac = h_source, j_server_mac = h_dest,
                        j_client_ip = saddr, j_server_ip = daddr, j_client_port = source,
                        j_tos = tos, j_ttl = 64, j_query = query, j_resp = [], j_t_rx_ns = now\<rparr>))))))))))"

text \<open>The three headers, the last with the checksum still zero; the casts to 16 bits are the code's.\<close>

definition ip_header :: "dns_job \<Rightarrow> u16 \<Rightarrow> bytes \<Rightarrow> bytes" where
  "ip_header job ip_total check =
     [0x45, j_tos job] @ wr16 ip_total @ [0, 0] @ wr16 0x4000 @ [j_ttl job, IPPROTO_UDP] @ check @
     j_server_ip job @ j_client_ip job"

definition build_response_frame :: "nat \<Rightarrow> dns_job \<Rightarrow> bytes res" where
  "build_response_frame room job =
     (let udp_total = (of_nat (UDP_HLEN + length (j_resp job)) :: u16);
          ip_total = of_nat IP_HLEN + udp_total;
          eth = j_client_mac job @ j_server_mac job @ wr16 ETH_P_IP;
          check = ipv4_checksum (ip_header job ip_total [0, 0]);
          ip = ip_header job ip_total [ucast check, ucast (drop_bit 8 check)];
          udp = wr16 DNS_PORT @ j_client_port job @ wr16 udp_total @ [0, 0]
      in if DNS_MAX_MSG_LEN < length (j_resp job) then Fault
         else buf_append room [] (eth @ ip @ udp @ j_resp job))"

section \<open>The Internet checksum\<close>

lemma fold_carry_spec:
  "unat (fold_carry acc) < 65536 \<and> unat (fold_carry acc) mod 65535 = unat acc mod 65535 \<and>
   (unat (fold_carry acc) = 0 \<longleftrightarrow> unat acc = 0)"
proof (induction acc rule: fold_carry.induct)
  case (1 acc)
  show ?case
  proof (cases "drop_bit 16 acc = 0")
    case True
    then have "unat acc div 65536 = 0" using word_halves(2) [of acc] by simp
    then show ?thesis using True by (subst (1 2 3) fold_carry.simps) (simp add: div_eq_0_iff)
  next
    case False
    have "unat acc = unat acc mod 65536 + unat acc div 65536 + unat acc div 65536 * 65535"
      using div_mult_mod_eq [of "unat acc" 65536] by linarith
    then have "(unat acc mod 65536 + unat acc div 65536) mod 65535 = unat acc mod 65535"
      using mod_mult_self1 [of "unat acc mod 65536 + unat acc div 65536" "unat acc div 65536" 65535] by simp
    moreover have "unat acc mod 65536 + unat acc div 65536 = 0 \<longleftrightarrow> unat acc = 0"
      using div_mult_mod_eq [of "unat acc" 65536] by linarith
    ultimately show ?thesis
      using 1 [OF False] False fold_step [of acc] by (subst (1 2 3) fold_carry.simps) simp
  qed
qed

fun host_sum :: "bytes \<Rightarrow> nat" where
  "host_sum [] = 0"
| "host_sum [a] = unat a"
| "host_sum (a # b # w) = unat a + 256 * unat b + host_sum w"

text \<open>The sum of the header's 16 bit words as they travel, most significant byte first.\<close>

fun net_sum :: "bytes \<Rightarrow> nat" where
  "net_sum [] = 0"
| "net_sum [a] = 256 * unat a"
| "net_sum (a # b # w) = unat (be16 a b) + net_sum w"

lemma unat_casts:
  "unat (ucast (b :: byte) :: u32) = unat b" "unat (ucast (h :: u16) :: u32) = unat h"
  "unat (f :: u32) < 65536 \<Longrightarrow> unat (ucast f :: u16) = unat f"
proof -
  have "unat b < 2 ^ LENGTH(8)" "unat h < 2 ^ LENGTH(16)" by (rule unsigned_less)+
  then show "unat (ucast b :: u32) = unat b" "unat (ucast h :: u32) = unat h"
    by (simp_all add: unsigned_ucast_eq take_bit_nat_eq_self)
qed (simp add: unsigned_ucast_eq take_bit_nat_eq_self)

lemma unat_le16: "unat (le16 a b) = unat a + 256 * unat b"
proof -
  have "le16 a b = ucast (be16 b a)"
    unfolding le16_def be16_def by (rule bit_word_eqI) (auto simp: bit_simps bit_byte_ge dest: bit_imp_le_length)
  then show ?thesis using unat_byte_less [of a] unat_byte_less [of b] by (simp add: unat_casts unat_be16)
qed

lemma host_sum_le: "host_sum w \<le> 65535 * length w"
proof (induction w rule: host_sum.induct)
  case (2 a)
  then show ?case using unat_byte_less [of a] by simp
next
  case (3 a b w)
  then show ?case using unat_byte_less [of a] unat_byte_less [of b] by simp
qed simp

lemma host_sum_append: "even (length xs) \<Longrightarrow> host_sum (xs @ ys) = host_sum xs + host_sum ys"
  by (induction xs rule: host_sum.induct) auto

lemma unat_sum_words: "unat acc + host_sum w < 2 ^ 32 \<Longrightarrow> unat (sum_words w acc) = unat acc + host_sum w"
proof (induction w acc rule: sum_words.induct)
  case (3 a b w acc)
  have "unat (acc + le16 a b) = unat acc + (unat a + 256 * unat b)"
    using 3(2) by (simp add: unat_word_ariths unat_le16)
  then show ?case using 3 by simp
qed (auto simp: unat_word_ariths unat_casts)

lemma unat_complement:
  assumes "unat (f :: u32) < 65536"
  shows "unat (ucast (NOT f) :: u16) = 65535 - unat f"
proof -
  have "(ucast (NOT f) :: u16) = NOT (ucast f)" by (rule bit_word_eqI) (auto simp: bit_simps)
  moreover have "unat (NOT (ucast f :: u16)) = 65535 - unat (ucast f :: u16)"
  proof -
    have "NOT (ucast f :: u16) = - 1 - ucast f" by (simp add: not_eq_complement)
    moreover have "unat (- 1 - ucast f :: u16) = unat (- 1 :: u16) - unat (ucast f :: u16)"
      by (rule unat_sub) (rule word_order.extremum)
    moreover have "unat (- 1 :: u16) = 65535" by (simp add: unsigned_minus_1_eq_mask mask_eq_exp_minus_1)
    ultimately show ?thesis by simp
  qed
  moreover have "unat (ucast f :: u16) = unat f" using assms by (rule unat_casts)
  ultimately show ?thesis by simp
qed

lemma checksum_value:
  assumes "length w \<le> 65536"
  shows "(unat (ipv4_checksum w) + host_sum w) mod 65535 = 0" "ipv4_checksum w = 0 \<longleftrightarrow> 0 < host_sum w \<and> host_sum w mod 65535 = 0"
proof -
  have "host_sum w < 2 ^ 32" using host_sum_le [of w] assms by simp
  then have s: "unat (sum_words w 0) = host_sum w" using unat_sum_words [of 0 w] by simp
  note f = fold_carry_spec [of "sum_words w 0", unfolded s]
  have c: "unat (ipv4_checksum w) = 65535 - unat (fold_carry (sum_words w 0))"
    unfolding ipv4_checksum_def using f by (intro unat_complement) simp
  let ?f = "unat (fold_carry (sum_words w 0))"
  have "(65535 - ?f + host_sum w) mod 65535 = (65535 - ?f + ?f) mod 65535" using f by (metis mod_add_right_eq)
  also have "65535 - ?f + ?f = 65535" using f by simp
  finally show "(unat (ipv4_checksum w) + host_sum w) mod 65535 = 0" by (simp add: c)
  have "ipv4_checksum w = 0 \<longleftrightarrow> ?f = 65535" using c f unsigned_eq_0_iff [of "ipv4_checksum w"] by auto
  also have "\<dots> \<longleftrightarrow> 0 < host_sum w \<and> host_sum w mod 65535 = 0"
  proof
    assume "?f = 65535"
    then show "0 < host_sum w \<and> host_sum w mod 65535 = 0" using f by auto
  next
    assume t: "0 < host_sum w \<and> host_sum w mod 65535 = 0"
    then have "?f mod 65535 = 0" "0 < ?f" "?f < 65536" using f by auto
    then show "?f = 65535" by (auto elim!: dvdE simp: mod_eq_0_iff_dvd)
  qed
  finally show "ipv4_checksum w = 0 \<longleftrightarrow> 0 < host_sum w \<and> host_sum w mod 65535 = 0" .
qed

lemma net_sum_mod: "(256 * host_sum w) mod 65535 = net_sum w mod 65535"
proof (induction w rule: host_sum.induct)
  case (3 a b w)
  have "256 * host_sum (a # b # w) = unat (be16 a b) + 256 * host_sum w + unat b * 65535" by (simp add: unat_be16)
  then have "256 * host_sum (a # b # w) mod 65535 = (unat (be16 a b) + 256 * host_sum w) mod 65535"
    by (simp only: mod_mult_self1)
  also have "\<dots> = (unat (be16 a b) + 256 * host_sum w mod 65535) mod 65535" by (simp only: mod_add_right_eq)
  also have "\<dots> = net_sum (a # b # w) mod 65535" unfolding 3 by (simp only: mod_add_right_eq net_sum.simps)
  finally show ?case .
qed simp_all

lemma checksum_verifies:
  assumes "even (length pre)" "length pre + length post + 2 \<le> 65536"
    and c: "c = ipv4_checksum (pre @ [0, 0] @ post)"
  shows "ipv4_checksum (pre @ [ucast c, ucast (drop_bit 8 c)] @ post) = 0"
    "net_sum (pre @ [ucast c, ucast (drop_bit 8 c)] @ post) mod 65535 = 0"
proof -
  let ?w = "pre @ [0, 0] @ post" and ?v = "pre @ [ucast c, ucast (drop_bit 8 c)] @ post"
  have "wr16 c = [ucast (drop_bit 8 c), ucast c]" by (simp add: wr16_def)
  then have "c = be16 (ucast (drop_bit 8 c)) (ucast c)" using be16_wr16 [of c] by simp
  then have "unat c = unat (ucast (drop_bit 8 c) :: byte) * 256 + unat (ucast c :: byte)" by (metis unat_be16)
  then have v: "host_sum ?v = unat c + host_sum ?w" using assms(1) by (simp add: host_sum_append)
  then have m: "host_sum ?v mod 65535 = 0" using checksum_value(1) [of ?w] assms(2) c by simp
  moreover have "0 < host_sum ?v"
  proof (rule ccontr)
    assume "\<not> 0 < host_sum ?v"
    then have "unat c = 0" "host_sum ?w = 0" using v by simp_all
    then show False using checksum_value(2) [of ?w] assms(2) c by (simp add: unsigned_eq_0_iff)
  qed
  ultimately show "ipv4_checksum ?v = 0" using checksum_value(2) [of ?v] assms(2) by simp
  show "net_sum ?v mod 65535 = 0" using m net_sum_mod [of ?v] by (metis mod_mult_right_eq mult_0_right mod_0)
qed

section \<open>From a received frame to a job\<close>

text \<open>The bytes of the query in a frame: what the UDP length says, cut at the end of the frame.\<close>

definition frame_query :: "bytes \<Rightarrow> bytes" where
  "frame_query pkt = (let udp = 14 + ip_ihl pkt in
     take (unat (be16 (pkt ! (udp + 4)) (pkt ! (udp + 5))) - 8) (drop (udp + 8) pkt))"

definition frame_ok :: "bytes \<Rightarrow> bool" where
  "frame_ok pkt \<longleftrightarrow> (let udp = 14 + ip_ihl pkt in
     42 \<le> length pkt \<and> udp + 8 \<le> length pkt \<and> 20 \<le> ip_ihl pkt \<and>
     be16 (pkt ! 12) (pkt ! 13) = 0x0800 \<and> drop_bit 4 (pkt ! 14) = 4 \<and> pkt ! 23 = 17 \<and>
     be16 (pkt ! (udp + 2)) (pkt ! (udp + 3)) = 53 \<and>
     8 \<le> unat (be16 (pkt ! (udp + 4)) (pkt ! (udp + 5))) \<and>
     12 \<le> length (frame_query pkt) \<and> length (frame_query pkt) \<le> DNS_MAX_MSG_LEN)"

definition frame_job :: "u64 \<Rightarrow> bytes \<Rightarrow> nat \<Rightarrow> dns_job" where
  "frame_job now pkt loop_idx =
     \<lparr>j_loop_idx = of_nat loop_idx, j_client_mac = take 6 (drop 6 pkt), j_server_mac = take 6 pkt,
      j_client_ip = take 4 (drop 26 pkt), j_server_ip = take 4 (drop 30 pkt),
      j_client_port = take 2 (drop (14 + ip_ihl pkt) pkt), j_tos = pkt ! 15, j_ttl = 64,
      j_query = frame_query pkt, j_resp = [], j_t_rx_ns = now\<rparr>"

lemma ihl_words: "unat (pkt ! 14 AND 0x0F) * 4 = ip_ihl pkt" "unat (pkt ! 14 AND 0x0F) < 5 \<longleftrightarrow> ip_ihl pkt < 20"
  by (auto simp: ip_ihl_def)

lemma locate_query_eval:
  "locate_query pkt = Ok (if frame_ok pkt then Some (14 + ip_ihl pkt, length (frame_query pkt)) else None)"
proof (cases "42 \<le> length pkt \<and> 22 + ip_ihl pkt \<le> length pkt")
  case True
  define u where "u = unat (be16 (pkt ! (18 + ip_ihl pkt)) (pkt ! (19 + ip_ihl pkt)))"
  have n: "min (length pkt - (22 + ip_ihl pkt)) (u - 8) = length (frame_query pkt)"
    by (simp add: frame_query_def Let_def u_def)
  show ?thesis
    using True unfolding locate_query_def frame_ok_def frame_consts
    by (auto simp: rd_in_bounds Let_def ihl_words u_def [symmetric] n simp del: min_less_iff_conj)
next
  case False
  then show ?thesis unfolding locate_query_def frame_ok_def frame_consts
    by (auto simp: rd_in_bounds Let_def ihl_words)
qed

lemma parse_frame_eval:
  "parse_frame alloc now pkt loop_idx = Ok (if frame_ok pkt \<and> alloc then Some (frame_job now pkt loop_idx) else None)"
proof (cases "frame_ok pkt \<and> alloc")
  case True
  let ?n = "length (frame_query pkt)"
  have b: "42 \<le> length pkt" "22 + ip_ihl pkt + ?n \<le> length pkt" "?n \<le> DNS_MAX_MSG_LEN"
    using True by (auto simp: frame_ok_def frame_query_def Let_def)
  have "take ?n (drop (22 + ip_ihl pkt) pkt) = frame_query pkt"
    by (simp add: frame_query_def Let_def min_def)
  with b show ?thesis
    using True
    by (simp add: parse_frame_def locate_query_eval frame_job_def rd_in_bounds rd_bytes_def buf_append_def frame_consts)
qed (auto simp: parse_frame_def locate_query_eval)

section \<open>From a job to a response frame\<close>

text \<open>What a receiver reads off an Ethernet frame that carries a UDP datagram over IPv4.\<close>

record datagram =
  dg_dst_mac :: bytes
  dg_src_mac :: bytes
  dg_src_ip :: bytes
  dg_dst_ip :: bytes
  dg_src_port :: bytes
  dg_dst_port :: bytes
  dg_payload :: bytes

definition receive_datagram :: "bytes \<Rightarrow> datagram option" where
  "receive_datagram f = (let udp = 14 + ip_ihl f;
       tot_len = unat (be16 (f ! 16) (f ! 17)); udp_len = unat (be16 (f ! (udp + 4)) (f ! (udp + 5))) in
     if 42 \<le> length f \<and> udp + 8 \<le> length f \<and> 20 \<le> ip_ihl f \<and>
        be16 (f ! 12) (f ! 13) = 0x0800 \<and> drop_bit 4 (f ! 14) = 4 \<and> f ! 23 = 17 \<and>
        be16 (f ! 20) (f ! 21) AND 0x3FFF = 0 \<and>
        ipv4_checksum (take (ip_ihl f) (drop 14 f)) = 0 \<and>
        14 + tot_len \<le> length f \<and> tot_len = ip_ihl f + udp_len \<and> 8 \<le> udp_len
     then Some \<lparr>dg_dst_mac = take 6 f, dg_src_mac = take 6 (drop 6 f),
                dg_src_ip = take 4 (drop 26 f), dg_dst_ip = take 4 (drop 30 f),
                dg_src_port = take 2 (drop udp f), dg_dst_port = take 2 (drop (udp + 2) f),
                dg_payload = take (udp_len - 8) (drop (udp + 8) f)\<rparr>
     else None)"

text \<open>The fixed-size fields of a job.\<close>

definition job_ok :: "dns_job \<Rightarrow> bool" where
  "job_ok j \<longleftrightarrow> length (j_client_mac j) = 6 \<and> length (j_server_mac j) = 6 \<and> length (j_client_ip j) = 4 \<and>
     length (j_server_ip j) = 4 \<and> length (j_client_port j) = 2 \<and> length (j_query j) \<le> DNS_MAX_MSG_LEN \<and>
     length (j_resp j) \<le> DNS_MAX_MSG_LEN"

lemma frame_job_ok: "frame_ok pkt \<Longrightarrow> job_ok (frame_job now pkt loop_idx)"
  by (auto simp: frame_ok_def job_ok_def frame_job_def Let_def)

lemma list4: "length xs = 4 \<Longrightarrow> \<exists>a b c d. xs = [a, b, c, d]"
  by (auto simp: length_Suc_conv numeral_eq_Suc)

lemma list6: "length xs = 6 \<Longrightarrow> \<exists>a b c d e f. xs = [a, b, c, d, e, f]"
  by (auto simp: length_Suc_conv numeral_eq_Suc)

lemma wr16_bytes: obtains a b where "wr16 v = [a, b]" "be16 a b = v"
  using be16_wr16 [of v] by (simp add: wr16_def)

lemma build_response_frame_ok:
  assumes j: "job_ok job" and room: "42 + length (j_resp job) \<le> room"
  shows "\<exists>f. build_response_frame room job = Ok f \<and> length f = 42 + length (j_resp job) \<and>
    receive_datagram f = Some \<lparr>dg_dst_mac = j_client_mac job, dg_src_mac = j_server_mac job,
      dg_src_ip = j_server_ip job, dg_dst_ip = j_client_ip job, dg_src_port = [0, 53],
      dg_dst_port = j_client_port job, dg_payload = j_resp job\<rparr>"
proof -
  define n where "n = length (j_resp job)"
  have n: "n \<le> 1500" using j by (simp add: job_ok_def DNS_MAX_MSG_LEN_def n_def)
  define udp_total where "udp_total = (of_nat (8 + n) :: u16)"
  define ip_total where "ip_total = 20 + udp_total"
  have tot: "unat udp_total = 8 + n" "unat ip_total = 28 + n"
    using n by (simp_all add: udp_total_def ip_total_def unat_word_ariths unat_of_nat)
  define c where "c = ipv4_checksum (ip_header job ip_total [0, 0])"
  define ip where "ip = ip_header job ip_total [ucast c, ucast (drop_bit 8 c)]"
  define pre where "pre = [0x45, j_tos job] @ wr16 ip_total @ [0, 0] @ wr16 0x4000 @ [j_ttl job, 17]"
  have hdr: "ip_header job ip_total x = pre @ x @ j_server_ip job @ j_client_ip job" for x
    by (simp add: ip_header_def pre_def frame_consts)
  have "ipv4_checksum (pre @ [ucast c, ucast (drop_bit 8 c)] @ j_server_ip job @ j_client_ip job) = 0"
    by (rule checksum_verifies(1)) (use j in \<open>simp_all add: c_def hdr pre_def job_ok_def\<close>)
  then have ck: "ipv4_checksum ip = 0" by (simp add: ip_def hdr)
  obtain m1 m2 m3 m4 m5 m6 where cm: "j_client_mac job = [m1, m2, m3, m4, m5, m6]"
    using j list6 unfolding job_ok_def by blast
  obtain s1 s2 s3 s4 s5 s6 where sm: "j_server_mac job = [s1, s2, s3, s4, s5, s6]"
    using j list6 unfolding job_ok_def by blast
  obtain i1 i2 i3 i4 where ci: "j_client_ip job = [i1, i2, i3, i4]" using j list4 unfolding job_ok_def by blast
  obtain r1 r2 r3 r4 where si: "j_server_ip job = [r1, r2, r3, r4]" using j list4 unfolding job_ok_def by blast
  obtain p1 p2 where cp: "j_client_port job = [p1, p2]"
    using j by (auto simp: job_ok_def length_Suc_conv numeral_eq_Suc)
  obtain t1 t2 where t: "wr16 ip_total = [t1, t2]" "be16 t1 t2 = ip_total" by (rule wr16_bytes)
  obtain u1 u2 where u: "wr16 udp_total = [u1, u2]" "be16 u1 u2 = udp_total" by (rule wr16_bytes)
  have w: "wr16 0x0800 = [8, 0]" "wr16 0x4000 = [0x40, 0]" "wr16 53 = [0, 53]" by (simp_all add: wr16_def)
  have ip20: "ip = [0x45, j_tos job, t1, t2, 0, 0, 0x40, 0, j_ttl job, 17, ucast c, ucast (drop_bit 8 c),
      r1, r2, r3, r4, i1, i2, i3, i4]"
    by (simp add: ip_def hdr pre_def t w si ci)
  let ?f = "[m1, m2, m3, m4, m5, m6, s1, s2, s3, s4, s5, s6, 8, 0] @ ip @ [0, 53, p1, p2, u1, u2, 0, 0] @ j_resp job"
  have "build_response_frame room job = (if DNS_MAX_MSG_LEN < length (j_resp job) then Fault
      else buf_append room [] ((j_client_mac job @ j_server_mac job @ wr16 0x0800) @ ip @
        (wr16 53 @ j_client_port job @ wr16 udp_total @ [0, 0]) @ j_resp job))"
    by (simp add: build_response_frame_def frame_consts Let_def n_def udp_total_def ip_total_def c_def ip_def)
  then have b: "build_response_frame room job = Ok ?f"
    using n room by (simp add: DNS_MAX_MSG_LEN_def n_def cm sm cp u w buf_append_def ip20)
  have "ip_ihl ?f = 20" by (simp add: ip_ihl_def ip20)
  moreover have "be16 8 0 = 0x0800" "be16 0x40 0 = 0x4000" by (simp_all add: be16_def)
  ultimately have "receive_datagram ?f = Some \<lparr>dg_dst_mac = j_client_mac job, dg_src_mac = j_server_mac job,
      dg_src_ip = j_server_ip job, dg_dst_ip = j_client_ip job, dg_src_port = [0, 53],
      dg_dst_port = j_client_port job, dg_payload = j_resp job\<rparr>"
    using ck tot n by (simp add: receive_datagram_def Let_def ip20 t u n_def [symmetric] cm sm ci si cp)
  with b show ?thesis by (simp add: ip20)
qed

section \<open>Properties\<close>

text \<open>C29: Parsing a frame is memory safe and yields well-typed jobs. Whatever bytes arrived, and whether
  or not the allocation succeeds, no read leaves the frame and no copy leaves the job; a job that
  comes out has addresses of the right size, an empty response, and as query between 12 and
  \<^verbatim>\<open>DNS_MAX_MSG_LEN\<close> consecutive bytes of the frame after the headers.\<close>

theorem parse_frame_typed:
  "case parse_frame alloc now pkt loop_idx of
     Ok None \<Rightarrow> True
   | Ok (Some job) \<Rightarrow> alloc \<and> job_ok job \<and> j_resp job = [] \<and> 12 \<le> length (j_query job) \<and>
       (\<exists>hdrs rest. pkt = hdrs @ j_query job @ rest \<and> 42 \<le> length hdrs)
   | _ \<Rightarrow> False"
proof -
  have "\<exists>hdrs rest. pkt = hdrs @ frame_query pkt @ rest \<and> 42 \<le> length hdrs" if "frame_ok pkt"
  proof (intro exI conjI)
    show "pkt = take (22 + ip_ihl pkt) pkt @ frame_query pkt @
        drop (unat (be16 (pkt ! (18 + ip_ihl pkt)) (pkt ! (19 + ip_ihl pkt))) - 8) (drop (22 + ip_ihl pkt) pkt)"
      unfolding frame_query_def Let_def by (simp del: drop_drop)
    show "42 \<le> length (take (22 + ip_ihl pkt) pkt)" using that by (auto simp: frame_ok_def Let_def)
  qed
  moreover have "12 \<le> length (frame_query pkt)" if "frame_ok pkt" using that by (auto simp: frame_ok_def Let_def)
  ultimately show ?thesis
    using frame_job_ok [of pkt now loop_idx] by (simp add: parse_frame_eval) (simp add: frame_job_def)
qed

text \<open>C30: What the kernel filter redirects, the loop accepts. A packet the filter hands over whose UDP
  length field is honest, with at most \<^verbatim>\<open>DNS_MAX_MSG_LEN\<close> bytes of payload, becomes a job (when memory
  can be had), and the job's query is exactly the payload: a message with the response bit clear and
  one question.\<close>

theorem redirected_becomes_job:
  assumes "xdp_dns_redirect redirect_map pkt qidx st = Ok (XDP_REDIRECT, st')"
    and "pkt = hdrs @ payload @ padding" and "length hdrs = 22 + ip_ihl pkt"
    and "unat (be16 (pkt ! (18 + ip_ihl pkt)) (pkt ! (19 + ip_ihl pkt))) = 8 + length payload"
    and "12 \<le> length payload" and "length payload \<le> DNS_MAX_MSG_LEN"
  shows "\<exists>job. parse_frame True now pkt loop_idx = Ok (Some job) \<and> j_query job = payload \<and>
    be16 (payload ! 2) (payload ! 3) AND 0x8000 = 0 \<and> be16 (payload ! 4) (payload ! 5) = 1"
proof -
  have q: "dns_query_packet pkt" using assms(1) by (simp add: filter_eval split: if_splits)
  have f: "frame_query pkt = payload" using assms(2-4) by (simp add: frame_query_def Let_def)
  have "frame_ok pkt" using q f assms(4-6) by (auto simp: frame_ok_def dns_query_packet_def Let_def)
  moreover have "pkt ! (22 + ip_ihl pkt + k) = payload ! k" if "k < 12" for k
    using that assms(2,3,5) by (simp add: nth_append)
  from this [of 2] this [of 3] this [of 4] this [of 5]
  have "be16 (payload ! 2) (payload ! 3) AND 0x8000 = 0" "be16 (payload ! 4) (payload ! 5) = 1"
    using q by (simp_all add: dns_query_packet_def Let_def add.commute)
  ultimately show ?thesis using f by (simp add: parse_frame_eval frame_job_def)
qed


definition demo_headers :: bytes where
  "demo_headers = [2, 0, 0, 0, 0, 1, 2, 0, 0, 0, 0, 2, 8, 0, 0x45, 0, 0, 57, 0, 0, 0, 0, 64, 17, 0, 0,
     10, 0, 0, 2, 10, 0, 0, 1, 0x9C, 0x40, 0, 53, 0, 37, 0, 0]"

definition demo_payload :: bytes where
  "demo_payload = [0xAB, 0xCD, 1, 0, 0, 1, 0, 0, 0, 0, 0, 0, 1, 97, 7, 101, 120, 97, 109, 112, 108, 101, 0, 0, 1, 0, 1, 0, 0]"

theorem redirected_becomes_job_witness:
  "\<exists>job. parse_frame True 7 (demo_headers @ demo_payload) 0 = Ok (Some job) \<and> j_query job = demo_payload \<and>
    be16 (demo_payload ! 2) (demo_payload ! 3) AND 0x8000 = 0 \<and> be16 (demo_payload ! 4) (demo_payload ! 5) = 1"
proof (rule redirected_becomes_job)
  have "dns_query_packet (demo_headers @ demo_payload)" by code_simp
  then show "xdp_dns_redirect (\<lambda>_ _. XDP_REDIRECT) (demo_headers @ demo_payload) 0 (\<lambda>_. None) = Ok (XDP_REDIRECT, \<lambda>_. None)"
    by (simp add: filter_eval stat_bump_def)
  show "demo_headers @ demo_payload = demo_headers @ demo_payload @ []" by simp
  show "length demo_headers = 22 + ip_ihl (demo_headers @ demo_payload)" by code_simp
  show "unat (be16 ((demo_headers @ demo_payload) ! (18 + ip_ihl (demo_headers @ demo_payload)))
      ((demo_headers @ demo_payload) ! (19 + ip_ihl (demo_headers @ demo_payload)))) = 8 + length demo_payload"
    by code_simp
qed (simp_all add: demo_payload_def DNS_MAX_MSG_LEN_def)


end
