(* ===== verification/XskRings.thy ===== *)
theory XskRings
  imports XskFrames "HOL-Library.Multiset"
begin

text \<open>
  The packet loop on an AF_XDP socket (\<^verbatim>\<open>xsk_setup.h\<close>, \<^verbatim>\<open>xsk_setup.c\<close>, \<^verbatim>\<open>af_xdp_user.c\<close>): the free frame
  stack, the four rings, and the functions of the loop thread that move frames between them.

  The ring library is an argument. A ring is the list of entries one side has published and the
  other has not yet taken; \<open>xsk_lib\<close> has the numbers the library's functions return for it, and
  \<open>lib_ok\<close> what its documentation says of them. The UMEM is a byte array. The counts of free frames
  and of outstanding transmissions are natural numbers: the invariant keeps them below 4097.
\<close>

section \<open>Definitions\<close>

definition NUM_FRAMES :: nat where "NUM_FRAMES = 4096"
definition FRAME_SIZE :: nat where "FRAME_SIZE = 4096"
definition INVALID_UMEM_FRAME :: u64 where "INVALID_UMEM_FRAME = 0xFFFFFFFFFFFFFFFF"
definition FILL_RING_FRAMES :: nat where "FILL_RING_FRAMES = NUM_FRAMES div 2"
definition RX_BATCH_SIZE :: nat where "RX_BATCH_SIZE = 64"
definition TX_BATCH_SIZE :: nat where "TX_BATCH_SIZE = 64"

lemmas ring_consts = NUM_FRAMES_def FRAME_SIZE_def FILL_RING_FRAMES_def RX_BATCH_SIZE_def TX_BATCH_SIZE_def

record xsk_stats =
  st_rx_packets :: u64
  st_rx_bytes :: u64
  st_tx_packets :: u64
  st_tx_bytes :: u64
  st_rx_dropped :: u64
  st_tx_no_slot :: u64
  st_tx_no_frame :: u64
  st_queue_full :: u64

record xsk_socket_info =
  x_rx :: "(u64 \<times> nat) list"
  x_tx :: "(u64 \<times> nat) list"
  x_fq :: "u64 list"
  x_cq :: "u64 list"
  x_umem :: "nat \<Rightarrow> byte"
  x_frame_addr :: "u64 list"
  x_frame_free :: nat
  x_outstanding_tx :: nat
  x_need_wakeup :: bool
  x_stats :: xsk_stats
  x_kicks :: nat

text \<open>The library: each number may depend on the entries in the ring and on the number asked for.\<close>

datatype ring = RX | TX | FQ | CQ

record xsk_lib =
  lib_nb_free :: "ring \<Rightarrow> nat \<Rightarrow> nat \<Rightarrow> nat"
  lib_reserve :: "ring \<Rightarrow> nat \<Rightarrow> nat \<Rightarrow> nat"
  lib_peek :: "ring \<Rightarrow> nat \<Rightarrow> nat \<Rightarrow> nat"
  lib_needs_wakeup :: "ring \<Rightarrow> bool"
  lib_extract_addr :: "u64 \<Rightarrow> u64"
  lib_get_data :: "u64 \<Rightarrow> nat"

subsection \<open>The frame allocator\<close>

definition xsk_alloc_frame :: "xsk_socket_info \<Rightarrow> (u64 \<times> xsk_socket_info) res" where
  "xsk_alloc_frame x =
     (if x_frame_free x = 0 then Ok (INVALID_UMEM_FRAME, x)
      else let n = x_frame_free x - 1 in
        if length (x_frame_addr x) \<le> n then Fault
        else Ok (x_frame_addr x ! n,
                 x\<lparr>x_frame_free := n, x_frame_addr := (x_frame_addr x)[n := INVALID_UMEM_FRAME]\<rparr>))"

text \<open>A failed assertion is a \<open>Fault\<close>.\<close>

definition xsk_free_frame :: "u64 \<Rightarrow> xsk_socket_info \<Rightarrow> xsk_socket_info res" where
  "xsk_free_frame frame x =
     (if \<not> x_frame_free x < NUM_FRAMES \<or> length (x_frame_addr x) \<le> x_frame_free x then Fault
      else Ok (x\<lparr>x_frame_addr := (x_frame_addr x)[x_frame_free x := frame], x_frame_free := x_frame_free x + 1\<rparr>))"

definition xsk_free_frame_count :: "xsk_socket_info \<Rightarrow> nat" where
  "xsk_free_frame_count x = x_frame_free x"

definition xsk_frame_base :: "xsk_lib \<Rightarrow> u64 \<Rightarrow> u64" where
  "xsk_frame_base lib addr = lib_extract_addr lib addr AND NOT (of_nat FRAME_SIZE - 1)"

subsection \<open>UMEM\<close>

definition mem_read :: "(nat \<Rightarrow> byte) \<Rightarrow> nat \<Rightarrow> nat \<Rightarrow> bytes" where
  "mem_read m a n = map m [a..<a + n]"

definition mem_write :: "nat \<Rightarrow> bytes \<Rightarrow> (nat \<Rightarrow> byte) \<Rightarrow> nat \<Rightarrow> byte" where
  "mem_write a bs m = (\<lambda>i. if a \<le> i \<and> i < a + length bs then bs ! (i - a) else m i)"

definition umem_size :: nat where "umem_size = NUM_FRAMES * FRAME_SIZE"

subsection \<open>Receive\<close>

fun fill_loop :: "nat \<Rightarrow> xsk_socket_info \<Rightarrow> xsk_socket_info res" where
  "fill_loop 0 x = Ok x"
| "fill_loop (Suc n) x = res_bind (xsk_alloc_frame x) (\<lambda>(frame, x1). fill_loop n (x1\<lparr>x_fq := x_fq x1 @ [frame]\<rparr>))"

definition refill_fq :: "xsk_lib \<Rightarrow> nat \<Rightarrow> xsk_socket_info \<Rightarrow> xsk_socket_info res" where
  "refill_fq lib n x =
     (let avail = lib_nb_free lib FQ (length (x_fq x)) n;
          n1 = (if avail < n then avail else n);
          n2 = (if xsk_free_frame_count x < n1 then xsk_free_frame_count x else n1)
      in if n2 = 0 then Ok x
         else if lib_reserve lib FQ (length (x_fq x)) n2 \<noteq> n2 then Ok x
         else fill_loop n2 x)"

text \<open>
  One received descriptor. \<open>push\<close> is \<^verbatim>\<open>queue_push\<close> on the pending queue \<open>q\<close>; \<open>alloc\<close> says whether the job
  can be allocated.
\<close>

definition rx_one ::
  "xsk_lib \<Rightarrow> bool \<Rightarrow> u64 \<Rightarrow> (dns_job \<Rightarrow> 'q \<Rightarrow> bool \<times> 'q) \<Rightarrow> nat \<Rightarrow> u64 \<times> nat \<Rightarrow> xsk_socket_info \<Rightarrow> 'q \<Rightarrow>
   (xsk_socket_info \<times> 'q) res" where
  "rx_one lib alloc now push idx d x q =
     (let (addr, len) = d; off = lib_get_data lib addr in
      if umem_size < off + len then Fault
      else res_bind (parse_frame alloc now (mem_read (x_umem x) off len) idx) (\<lambda>job.
        let s = (x_stats x)\<lparr>st_rx_packets := st_rx_packets (x_stats x) + 1,
                            st_rx_bytes := st_rx_bytes (x_stats x) + of_nat len\<rparr>;
            (s1, q1) = (case job of
               None \<Rightarrow> (s\<lparr>st_rx_dropped := st_rx_dropped s + 1\<rparr>, q)
             | Some j \<Rightarrow> (case push j q of
                 (True, q') \<Rightarrow> (s, q')
               | (False, q') \<Rightarrow> (s\<lparr>st_queue_full := st_queue_full s + 1\<rparr>, q')))
        in res_bind (xsk_free_frame (xsk_frame_base lib addr) (x\<lparr>x_stats := s1\<rparr>)) (\<lambda>x1. Ok (x1, q1))))"

fun rx_loop ::
  "xsk_lib \<Rightarrow> (nat \<Rightarrow> bool) \<Rightarrow> u64 \<Rightarrow> (dns_job \<Rightarrow> 'q \<Rightarrow> bool \<times> 'q) \<Rightarrow> nat \<Rightarrow> (u64 \<times> nat) list \<Rightarrow> xsk_socket_info \<Rightarrow> 'q \<Rightarrow>
   (xsk_socket_info \<times> 'q) res" where
  "rx_loop lib alloc now push idx [] x q = Ok (x, q)"
| "rx_loop lib alloc now push idx (d # ds) x q =
     res_bind (rx_one lib (alloc (length ds)) now push idx d x q) (\<lambda>(x1, q1). rx_loop lib alloc now push idx ds x1 q1)"

definition drain_rx ::
  "xsk_lib \<Rightarrow> (nat \<Rightarrow> bool) \<Rightarrow> u64 \<Rightarrow> (dns_job \<Rightarrow> 'q \<Rightarrow> bool \<times> 'q) \<Rightarrow> nat \<Rightarrow> xsk_socket_info \<Rightarrow> 'q \<Rightarrow>
   (xsk_socket_info \<times> 'q) res" where
  "drain_rx lib alloc now push idx x q =
     (let rcvd = lib_peek lib RX (length (x_rx x)) RX_BATCH_SIZE in
      if rcvd = 0 then Ok (x, q)
      else if length (x_rx x) < rcvd then Fault
      else res_bind (rx_loop lib alloc now push idx (take rcvd (x_rx x)) x q) (\<lambda>(x1, q1).
           res_bind (refill_fq lib rcvd (x1\<lparr>x_rx := drop rcvd (x_rx x1)\<rparr>)) (\<lambda>x2. Ok (x2, q1))))"

subsection \<open>Transmit\<close>

definition kick_tx :: "xsk_lib \<Rightarrow> xsk_socket_info \<Rightarrow> xsk_socket_info" where
  "kick_tx lib x =
     (if x_outstanding_tx x = 0 then x
      else if \<not> x_need_wakeup x \<or> lib_needs_wakeup lib TX then x\<lparr>x_kicks := x_kicks x + 1\<rparr>
      else x)"

fun free_loop :: "xsk_lib \<Rightarrow> u64 list \<Rightarrow> xsk_socket_info \<Rightarrow> xsk_socket_info res" where
  "free_loop lib [] x = Ok x"
| "free_loop lib (a # as) x = res_bind (xsk_free_frame (xsk_frame_base lib a) x) (free_loop lib as)"

definition reclaim_tx :: "xsk_lib \<Rightarrow> xsk_socket_info \<Rightarrow> xsk_socket_info res" where
  "reclaim_tx lib x =
     (if x_outstanding_tx x = 0 then Ok x
      else let x1 = kick_tx lib x;
               completed = lib_peek lib CQ (length (x_cq x1)) TX_BATCH_SIZE in
        if completed = 0 then Ok x1
        else if length (x_cq x1) < completed then Fault
        else res_bind (free_loop lib (take completed (x_cq x1)) x1) (\<lambda>x2.
             Ok (x2\<lparr>x_cq := drop completed (x_cq x2),
                    x_outstanding_tx := x_outstanding_tx x2 -
                      (if completed < x_outstanding_tx x2 then completed else x_outstanding_tx x2)\<rparr>)))"

text \<open>The next batch of a list of finished jobs, without those that have no usable response.\<close>

fun next_batch :: "nat \<Rightarrow> dns_job list \<Rightarrow> dns_job list \<times> dns_job list" where
  "next_batch 0 js = ([], js)"
| "next_batch n [] = ([], [])"
| "next_batch (Suc n) (j # js) =
     (if length (j_resp j) = 0 \<or> DNS_MAX_MSG_LEN < length (j_resp j) then next_batch (Suc n) js
      else let (batch, rest) = next_batch n js in (j # batch, rest))"

fun tx_loop :: "xsk_lib \<Rightarrow> dns_job list \<Rightarrow> xsk_socket_info \<Rightarrow> xsk_socket_info res" where
  "tx_loop lib [] x = Ok x"
| "tx_loop lib (j # js) x =
     res_bind (xsk_alloc_frame x) (\<lambda>(frame, x1).
     let off = lib_get_data lib frame in
     if umem_size < off + FRAME_SIZE then Fault
     else res_bind (build_response_frame FRAME_SIZE j) (\<lambda>f.
       let s = x_stats x1 in
       tx_loop lib js (x1\<lparr>x_umem := mem_write off f (x_umem x1), x_tx := x_tx x1 @ [(frame, length f)],
         x_stats := s\<lparr>st_tx_packets := st_tx_packets s + 1, st_tx_bytes := st_tx_bytes s + of_nat (length f)\<rparr>\<rparr>)))"

text \<open>How much of a batch of \<open>n\<close> can go out now, with the counters of what cannot.\<close>

definition tx_want :: "xsk_lib \<Rightarrow> nat \<Rightarrow> xsk_socket_info \<Rightarrow> nat \<times> xsk_socket_info" where
  "tx_want lib n x =
     (let slots = lib_nb_free lib TX (length (x_tx x)) n;
          (want, x1) = (if slots < n
             then (slots, x\<lparr>x_stats := (x_stats x)\<lparr>st_tx_no_slot := st_tx_no_slot (x_stats x) + of_nat (n - slots)\<rparr>\<rparr>)
             else (n, x))
      in if xsk_free_frame_count x1 < want
         then (xsk_free_frame_count x1,
               x1\<lparr>x_stats := (x_stats x1)\<lparr>st_tx_no_frame := st_tx_no_frame (x_stats x1) + of_nat (want - xsk_free_frame_count x1)\<rparr>\<rparr>)
         else (want, x1))"

definition send_batch :: "xsk_lib \<Rightarrow> dns_job list \<Rightarrow> xsk_socket_info \<Rightarrow> xsk_socket_info res" where
  "send_batch lib batch x =
     (let (want, x1) = tx_want lib (length batch) x in
      if want \<noteq> 0 \<and> lib_reserve lib TX (length (x_tx x1)) want = want
      then res_bind (tx_loop lib (take want batch) x1) (\<lambda>x2.
           Ok (x2\<lparr>x_outstanding_tx := x_outstanding_tx x2 + want\<rparr>))
      else Ok x1)"

lemma next_batch_shrinks: "next_batch n js = (batch, rest) \<Longrightarrow> 0 < n \<Longrightarrow> js \<noteq> [] \<Longrightarrow> length rest < length js"
proof (induction n js arbitrary: batch rest rule: next_batch.induct)
  case (3 n j js)
  show ?case
  proof (cases "length (j_resp j) = 0 \<or> DNS_MAX_MSG_LEN < length (j_resp j)")
    case True
    then show ?thesis using 3(1) [OF True, of batch rest] 3(3) by (cases js) (auto simp: less_Suc_eq)
  next
    case False
    obtain b r where br: "next_batch n js = (b, r)" by fastforce
    then have "r = rest" using 3(3) False by auto
    moreover have "length r \<le> length js"
      using 3(2) [OF False br] br by (cases n; cases js) (auto simp: less_imp_le)
    ultimately show ?thesis by simp
  qed
qed auto

function send_all :: "xsk_lib \<Rightarrow> dns_job list \<Rightarrow> xsk_socket_info \<Rightarrow> xsk_socket_info res" where
  "send_all lib js x =
     (if js = [] then Ok x
      else let (batch, rest) = next_batch TX_BATCH_SIZE js in
        if batch = [] then send_all lib rest x
        else res_bind (send_batch lib batch x) (send_all lib rest))"
  by pat_completeness auto
termination
  by (relation "measure (\<lambda>(lib, js, x). length js)") (auto simp: TX_BATCH_SIZE_def dest: next_batch_shrinks [OF sym])

declare send_all.simps [simp del]

text \<open>The jobs are those \<^verbatim>\<open>queue_drain\<close> detached from the done queue.\<close>

definition drain_done_and_tx :: "xsk_lib \<Rightarrow> dns_job list \<Rightarrow> xsk_socket_info \<Rightarrow> xsk_socket_info res" where
  "drain_done_and_tx lib js x = res_bind (send_all lib js x) (\<lambda>x1. Ok (kick_tx lib x1))"

text \<open>One turn of \<^verbatim>\<open>loop_main\<close>.\<close>

definition loop_turn ::
  "xsk_lib \<Rightarrow> (nat \<Rightarrow> bool) \<Rightarrow> u64 \<Rightarrow> (dns_job \<Rightarrow> 'q \<Rightarrow> bool \<times> 'q) \<Rightarrow> nat \<Rightarrow> dns_job list \<Rightarrow> xsk_socket_info \<Rightarrow> 'q \<Rightarrow>
   (xsk_socket_info \<times> 'q) res" where
  "loop_turn lib alloc now push idx js x q =
     res_bind (drain_rx lib alloc now push idx x q) (\<lambda>(x1, q1).
     res_bind (drain_done_and_tx lib js x1) (\<lambda>x2.
     res_bind (reclaim_tx lib x2) (\<lambda>x3. Ok (x3, q1))))"

subsection \<open>Set-up\<close>

text \<open>The end of \<^verbatim>\<open>xsk_env_setup_socket\<close>: \<open>Err\<close> is \<^verbatim>\<open>-ENOSPC\<close>.\<close>

definition seed_frames :: "xsk_lib \<Rightarrow> xsk_socket_info \<Rightarrow> xsk_socket_info res" where
  "seed_frames lib x =
     (let x1 = x\<lparr>x_frame_addr := map (\<lambda>i. of_nat i * of_nat FRAME_SIZE) [0..<NUM_FRAMES], x_frame_free := NUM_FRAMES\<rparr> in
      if lib_reserve lib FQ (length (x_fq x1)) FILL_RING_FRAMES \<noteq> FILL_RING_FRAMES then Err
      else fill_loop FILL_RING_FRAMES x1)"

section \<open>The library and the kernel\<close>

text \<open>
  What is documented of the ring library, for rings of 2048 entries: it never offers more room than
  there is, and offers what is asked for when there is room for it; it reserves all or nothing;
  it hands over at most the entries that are there and at most the number asked for; and in the
  aligned mode used here an address is the offset into the UMEM.
\<close>

definition lib_ok :: "xsk_lib \<Rightarrow> bool" where
  "lib_ok lib \<longleftrightarrow>
     (\<forall>r q n. lib_nb_free lib r q n \<le> 2048 - q \<and> min n (2048 - q) \<le> lib_nb_free lib r q n \<and>
        lib_reserve lib r q n = (if n \<le> 2048 - q then n else 0) \<and> lib_peek lib r q n \<le> min q n) \<and>
     (\<forall>a. unat a < umem_size \<longrightarrow> lib_extract_addr lib a = a \<and> lib_get_data lib a = unat a)"

text \<open>
  The socket with the other side of its rings: frames the kernel has taken from the fill ring,
  transmissions it has taken from the TX ring, the packets it has put on the wire, and all the jobs
  handed to the loop for transmission. The pending queue appears through its contents.
\<close>

record xsk_world =
  w_xsk :: xsk_socket_info
  w_kfill :: "u64 list"
  w_ktx :: "(u64 \<times> nat) list"
  w_wire :: "bytes list"
  w_jobs :: "dns_job list"

definition xsk_zero :: "bool \<Rightarrow> (nat \<Rightarrow> byte) \<Rightarrow> xsk_socket_info" where
  "xsk_zero need_wakeup mem = \<lparr>x_rx = [], x_tx = [], x_fq = [], x_cq = [], x_umem = mem, x_frame_addr = [],
     x_frame_free = 0, x_outstanding_tx = 0, x_need_wakeup = need_wakeup,
     x_stats = \<lparr>st_rx_packets = 0, st_rx_bytes = 0, st_tx_packets = 0, st_tx_bytes = 0, st_rx_dropped = 0,
                st_tx_no_slot = 0, st_tx_no_frame = 0, st_queue_full = 0\<rparr>, x_kicks = 0\<rparr>"

inductive xsk_run :: "xsk_world \<Rightarrow> bool" where
  xsk_setup: "lib_ok lib \<Longrightarrow> seed_frames lib (xsk_zero nw mem) = Ok x \<Longrightarrow>
    xsk_run \<lparr>w_xsk = x, w_kfill = [], w_ktx = [], w_wire = [], w_jobs = []\<rparr>"
| xsk_drain_rx: "xsk_run w \<Longrightarrow> lib_ok lib \<Longrightarrow> drain_rx lib alloc now push idx (w_xsk w) (q :: dns_job list) = Ok (x, q') \<Longrightarrow>
    xsk_run (w\<lparr>w_xsk := x\<rparr>)"
| xsk_drain_done: "xsk_run w \<Longrightarrow> lib_ok lib \<Longrightarrow> list_all job_ok js \<Longrightarrow> drain_done_and_tx lib js (w_xsk w) = Ok x \<Longrightarrow>
    xsk_run (w\<lparr>w_xsk := x, w_jobs := w_jobs w @ js\<rparr>)"
| xsk_reclaim: "xsk_run w \<Longrightarrow> lib_ok lib \<Longrightarrow> reclaim_tx lib (w_xsk w) = Ok x \<Longrightarrow> xsk_run (w\<lparr>w_xsk := x\<rparr>)"
| kernel_fill: "xsk_run w \<Longrightarrow> x_fq (w_xsk w) = a # fq \<Longrightarrow>
    xsk_run (w\<lparr>w_xsk := (w_xsk w)\<lparr>x_fq := fq\<rparr>, w_kfill := w_kfill w @ [a]\<rparr>)"
| kernel_rx: "xsk_run w \<Longrightarrow> w_kfill w = as @ a # bs \<Longrightarrow> headroom + length pkt \<le> FRAME_SIZE \<Longrightarrow> headroom < FRAME_SIZE \<Longrightarrow>
    xsk_run (w\<lparr>w_kfill := as @ bs, w_xsk := (w_xsk w)\<lparr>x_umem := mem_write (unat a + headroom) pkt (x_umem (w_xsk w)),
      x_rx := x_rx (w_xsk w) @ [(a + of_nat headroom, length pkt)]\<rparr>\<rparr>)"
| kernel_tx: "xsk_run w \<Longrightarrow> x_tx (w_xsk w) = d # tx \<Longrightarrow>
    xsk_run (w\<lparr>w_xsk := (w_xsk w)\<lparr>x_tx := tx\<rparr>, w_ktx := w_ktx w @ [d]\<rparr>)"
| kernel_sent: "xsk_run w \<Longrightarrow> w_ktx w = ds @ (a, n) # es \<Longrightarrow>
    xsk_run (w\<lparr>w_ktx := ds @ es, w_wire := w_wire w @ [mem_read (x_umem (w_xsk w)) (unat a) n],
      w_xsk := (w_xsk w)\<lparr>x_cq := x_cq (w_xsk w) @ [a]\<rparr>\<rparr>)"

section \<open>Frames and addresses\<close>

definition is_frame :: "u64 \<Rightarrow> bool" where
  "is_frame a \<longleftrightarrow> FRAME_SIZE dvd unat a \<and> unat a < umem_size"

definition frame_of :: "u64 \<Rightarrow> u64" where
  "frame_of a = of_nat (unat a div FRAME_SIZE * FRAME_SIZE)"

lemma unat_of_small: "n < 2 ^ 64 \<Longrightarrow> unat (of_nat n :: u64) = n"
  by (simp add: unat_of_nat take_bit_nat_eq_self)

lemma is_frame_bound: "is_frame a \<Longrightarrow> unat a + FRAME_SIZE \<le> umem_size"
  by (auto simp: is_frame_def umem_size_def ring_consts elim!: dvdE)

lemma frame_of_is_frame: "unat a < umem_size \<Longrightarrow> is_frame (frame_of a)" "unat a < umem_size \<Longrightarrow> unat (frame_of a) = unat a div FRAME_SIZE * FRAME_SIZE"
proof -
  assume a: "unat a < umem_size"
  have le: "unat a div FRAME_SIZE * FRAME_SIZE \<le> unat a" by simp
  then show u: "unat (frame_of a) = unat a div FRAME_SIZE * FRAME_SIZE"
    unfolding frame_of_def using a by (intro unat_of_small) (simp add: umem_size_def ring_consts)
  show "is_frame (frame_of a)" unfolding is_frame_def u using order.strict_trans1 [OF le a] by simp
qed

lemma frame_of_offset:
  assumes "is_frame a" "h < FRAME_SIZE"
  shows "unat (a + of_nat h) = unat a + h" "frame_of (a + of_nat h) = a"
proof -
  have "unat a + h < umem_size" using is_frame_bound [OF assms(1)] assms(2) by simp
  then have "unat a + h < 2 ^ 64" by (simp add: umem_size_def ring_consts)
  then show u: "unat (a + of_nat h) = unat a + h" by (simp add: unat_word_ariths unat_of_nat take_bit_nat_eq_self)
  have "(unat a + h) div FRAME_SIZE * FRAME_SIZE = unat a" using assms by (auto simp: is_frame_def elim!: dvdE)
  then show "frame_of (a + of_nat h) = a" by (simp add: frame_of_def u)
qed

lemma frame_of_frame: "is_frame a \<Longrightarrow> frame_of a = a"
  using frame_of_offset(2) [of a 0] by (simp add: ring_consts)

lemma frame_base:
  assumes "lib_ok lib" "unat a < umem_size"
  shows "xsk_frame_base lib a = frame_of a" "lib_get_data lib a = unat a"
proof -
  show "lib_get_data lib a = unat a" using assms by (simp add: lib_ok_def)
  have m: "(of_nat FRAME_SIZE - 1 :: u64) = mask 12" by (simp add: ring_consts mask_eq_exp_minus_1)
  have "a AND NOT (mask 12) = push_bit 12 (drop_bit 12 a)"
    by (rule bit_word_eqI) (auto simp: bit_simps)
  moreover have u: "unat (push_bit 12 (drop_bit 12 a)) = unat a div 4096 * 4096"
  proof -
    have "unat a < 2 ^ 24" using assms(2) by (simp add: umem_size_def ring_consts)
    then have "unat a div 4096 * 4096 < 2 ^ 64" by simp
    then show ?thesis
      unfolding unsigned_push_bit_eq unsigned_drop_bit_eq
      by (simp add: push_bit_eq_mult drop_bit_eq_div take_bit_nat_eq_self)
  qed
  moreover have "push_bit 12 (drop_bit 12 a) = of_nat (unat (push_bit 12 (drop_bit 12 a)))" by simp
  ultimately have "xsk_frame_base lib a = of_nat (unat a div 4096 * 4096)"
    using assms unfolding xsk_frame_base_def m u by (simp add: lib_ok_def)
  then show "xsk_frame_base lib a = frame_of a" by (simp add: frame_of_def ring_consts)
qed

section \<open>The free frame stack\<close>

text \<open>The stack holds \<open>fs\<close>, its top last.\<close>

definition pool :: "xsk_socket_info \<Rightarrow> u64 list \<Rightarrow> bool" where
  "pool x fs \<longleftrightarrow> length (x_frame_addr x) = NUM_FRAMES \<and> x_frame_free x = length fs \<and> take (length fs) (x_frame_addr x) = fs"

lemma pool_upd [simp]:
  "pool (x\<lparr>x_rx := a\<rparr>) fs = pool x fs" "pool (x\<lparr>x_tx := b\<rparr>) fs = pool x fs" "pool (x\<lparr>x_fq := c\<rparr>) fs = pool x fs"
  "pool (x\<lparr>x_cq := c\<rparr>) fs = pool x fs" "pool (x\<lparr>x_umem := d\<rparr>) fs = pool x fs" "pool (x\<lparr>x_stats := e\<rparr>) fs = pool x fs"
  "pool (x\<lparr>x_outstanding_tx := g\<rparr>) fs = pool x fs" "pool (x\<lparr>x_kicks := g\<rparr>) fs = pool x fs"
  by (simp_all add: pool_def)

lemma pool_count: "pool x fs \<Longrightarrow> xsk_free_frame_count x = length fs" "pool x fs \<Longrightarrow> length fs \<le> NUM_FRAMES"
proof -
  show "pool x fs \<Longrightarrow> xsk_free_frame_count x = length fs" by (simp add: pool_def xsk_free_frame_count_def)
  assume p: "pool x fs"
  then have "length (take (length fs) (x_frame_addr x)) = length fs" by (simp add: pool_def)
  then show "length fs \<le> NUM_FRAMES" using p by (simp add: pool_def min_def split: if_splits)
qed

lemma alloc_pool:
  assumes "pool x (fs @ [f])"
  shows "\<exists>a k. xsk_alloc_frame x = Ok (f, x\<lparr>x_frame_free := k, x_frame_addr := a\<rparr>) \<and>
    pool (x\<lparr>x_frame_free := k, x_frame_addr := a\<rparr>) fs"
proof -
  have len: "Suc (length fs) \<le> NUM_FRAMES" using pool_count(2) [OF assms] by simp
  have "take (Suc (length fs)) (x_frame_addr x) = fs @ [f]" using assms by (simp add: pool_def)
  then have "x_frame_addr x ! length fs = f" "take (length fs) (x_frame_addr x) = fs"
    using assms len by (auto simp: pool_def take_Suc_conv_app_nth)
  then show ?thesis
    using assms len
    by (intro exI [of _ "(x_frame_addr x)[length fs := INVALID_UMEM_FRAME]"] exI [of _ "length fs"])
      (simp add: xsk_alloc_frame_def pool_def Let_def)
qed

lemma free_pool:
  assumes "pool x fs" "length fs < NUM_FRAMES"
  shows "\<exists>a k. xsk_free_frame f x = Ok (x\<lparr>x_frame_addr := a, x_frame_free := k\<rparr>) \<and>
    pool (x\<lparr>x_frame_addr := a, x_frame_free := k\<rparr>) (fs @ [f])"
  using assms
  by (intro exI [of _ "(x_frame_addr x)[length fs := f]"] exI [of _ "Suc (length fs)"])
    (simp add: xsk_free_frame_def pool_def take_Suc_conv_app_nth)

lemma fill_loop_pool:
  "pool x (fs @ rev gs) \<Longrightarrow> \<exists>a k. fill_loop (length gs) x = Ok (x\<lparr>x_frame_free := k, x_frame_addr := a, x_fq := x_fq x @ gs\<rparr>) \<and>
    pool (x\<lparr>x_frame_free := k, x_frame_addr := a\<rparr>) fs"
proof (induction gs arbitrary: x)
  case Nil
  then show ?case by (intro exI [of _ "x_frame_addr x"] exI [of _ "x_frame_free x"]) simp
next
  case (Cons g gs)
  then obtain a k where ak: "xsk_alloc_frame x = Ok (g, x\<lparr>x_frame_free := k, x_frame_addr := a\<rparr>)"
      "pool (x\<lparr>x_frame_free := k, x_frame_addr := a\<rparr>) (fs @ rev gs)"
    using alloc_pool [of x "fs @ rev gs" g] by auto
  let ?x = "x\<lparr>x_frame_free := k, x_frame_addr := a, x_fq := x_fq x @ [g]\<rparr>"
  have "pool ?x (fs @ rev gs)" using ak(2) by simp
  from Cons.IH [OF this] obtain a' k' where
    "fill_loop (length gs) ?x = Ok (?x\<lparr>x_frame_free := k', x_frame_addr := a', x_fq := x_fq ?x @ gs\<rparr>)"
    "pool (?x\<lparr>x_frame_free := k', x_frame_addr := a'\<rparr>) fs" by blast
  then show ?case using ak(1) by (intro exI [of _ a'] exI [of _ k']) (simp add: pool_def)
qed

lemma free_loop_pool:
  assumes "lib_ok lib"
  shows "pool x fs \<Longrightarrow> length fs + length as \<le> NUM_FRAMES \<Longrightarrow> list_all is_frame as \<Longrightarrow>
    \<exists>a k. free_loop lib as x = Ok (x\<lparr>x_frame_addr := a, x_frame_free := k\<rparr>) \<and> pool (x\<lparr>x_frame_addr := a, x_frame_free := k\<rparr>) (fs @ as)"
proof (induction as arbitrary: x fs)
  case Nil
  then show ?case by (intro exI [of _ "x_frame_addr x"] exI [of _ "x_frame_free x"]) simp
next
  case (Cons b as)
  then have "xsk_frame_base lib b = b" using frame_base [OF assms] frame_of_frame by (auto simp: is_frame_def)
  moreover obtain a k where ak: "xsk_free_frame b x = Ok (x\<lparr>x_frame_addr := a, x_frame_free := k\<rparr>)"
      "pool (x\<lparr>x_frame_addr := a, x_frame_free := k\<rparr>) (fs @ [b])"
    using free_pool [of x fs b] Cons.prems by auto
  moreover obtain a' k' where "free_loop lib as (x\<lparr>x_frame_addr := a, x_frame_free := k\<rparr>) = Ok (x\<lparr>x_frame_addr := a', x_frame_free := k'\<rparr>)"
      "pool (x\<lparr>x_frame_addr := a', x_frame_free := k'\<rparr>) (fs @ b # as)"
    using Cons.IH [OF ak(2)] Cons.prems by auto
  ultimately show ?case by (intro exI [of _ a'] exI [of _ k']) simp
qed

text \<open>A received descriptor that lies inside one frame.\<close>

definition rx_desc_ok :: "u64 \<times> nat \<Rightarrow> bool" where
  "rx_desc_ok d \<longleftrightarrow> unat (fst d) < umem_size \<and> unat (fst d) + snd d \<le> unat (frame_of (fst d)) + FRAME_SIZE"

lemma rx_desc_bound: "rx_desc_ok d \<Longrightarrow> unat (fst d) + snd d \<le> umem_size"
  using is_frame_bound [OF frame_of_is_frame(1), of "fst d"] by (auto simp: rx_desc_ok_def)

lemma rx_loop_pool:
  assumes "lib_ok lib"
  shows "pool x fs \<Longrightarrow> length fs + length ds \<le> NUM_FRAMES \<Longrightarrow> list_all rx_desc_ok ds \<Longrightarrow>
    \<exists>a k st q'. rx_loop lib alloc now push idx ds x q = Ok (x\<lparr>x_stats := st, x_frame_addr := a, x_frame_free := k\<rparr>, q') \<and>
      pool (x\<lparr>x_frame_addr := a, x_frame_free := k\<rparr>) (fs @ map (frame_of \<circ> fst) ds)"
proof (induction ds arbitrary: x fs q)
  case Nil
  then show ?case
    by (intro exI [of _ "x_frame_addr x"] exI [of _ "x_frame_free x"] exI [of _ "x_stats x"] exI [of _ q]) simp
next
  case (Cons d ds)
  obtain addr len where d: "d = (addr, len)" by (cases d)
  have ok: "unat addr < umem_size" "unat addr + len \<le> umem_size"
    using Cons.prems(3) rx_desc_bound [of d] by (auto simp: d rx_desc_ok_def)
  note base = frame_base [OF assms ok(1)]
  define job where "job = (if frame_ok (mem_read (x_umem x) (unat addr) len) \<and> alloc (length ds)
    then Some (frame_job now (mem_read (x_umem x) (unat addr) len) idx) else None)"
  have "\<exists>st q'. rx_one lib (alloc (length ds)) now push idx d x q =
      res_bind (xsk_free_frame (frame_of addr) (x\<lparr>x_stats := st\<rparr>)) (\<lambda>x1. Ok (x1, q'))"
    using ok(2) unfolding rx_one_def d
    by (auto simp: base parse_frame_eval job_def [symmetric] not_less Let_def split: option.split prod.split bool.split)
  then obtain st q1 where one: "rx_one lib (alloc (length ds)) now push idx d x q =
      res_bind (xsk_free_frame (frame_of addr) (x\<lparr>x_stats := st\<rparr>)) (\<lambda>x1. Ok (x1, q1))" by blast
  obtain a k where ak: "xsk_free_frame (frame_of addr) (x\<lparr>x_stats := st\<rparr>) = Ok (x\<lparr>x_stats := st, x_frame_addr := a, x_frame_free := k\<rparr>)"
      "pool (x\<lparr>x_stats := st, x_frame_addr := a, x_frame_free := k\<rparr>) (fs @ [frame_of addr])"
    using free_pool [of "x\<lparr>x_stats := st\<rparr>" fs "frame_of addr"] Cons.prems by auto
  let ?x = "x\<lparr>x_stats := st, x_frame_addr := a, x_frame_free := k\<rparr>"
  have "length (fs @ [frame_of addr]) + length ds \<le> NUM_FRAMES" "list_all rx_desc_ok ds" using Cons.prems by simp_all
  from Cons.IH [OF ak(2) this] obtain a' k' st' q' where
      "rx_loop lib alloc now push idx ds ?x q1 = Ok (?x\<lparr>x_stats := st', x_frame_addr := a', x_frame_free := k'\<rparr>, q')"
      "pool (?x\<lparr>x_frame_addr := a', x_frame_free := k'\<rparr>) ((fs @ [frame_of addr]) @ map (frame_of \<circ> fst) ds)"
    by blast
  then show ?case using one ak(1) by (intro exI [of _ a'] exI [of _ k'] exI [of _ st'] exI [of _ q']) (simp add: d pool_def)
qed

section \<open>Transmission\<close>

lemma mem_read_write [simp]: "mem_read (mem_write a bs m) a (length bs) = bs"
  by (rule nth_equalityI) (simp_all add: mem_read_def mem_write_def)

lemma mem_read_cong: "(\<And>i. a \<le> i \<Longrightarrow> i < a + n \<Longrightarrow> m' i = m i) \<Longrightarrow> mem_read m' a n = mem_read m a n"
  by (simp add: mem_read_def)

definition in_frame :: "u64 \<Rightarrow> nat \<Rightarrow> bool" where
  "in_frame f i \<longleftrightarrow> unat f \<le> i \<and> i < unat f + FRAME_SIZE"

lemma frames_disjoint: "is_frame f \<Longrightarrow> is_frame g \<Longrightarrow> in_frame f i \<Longrightarrow> in_frame g i \<Longrightarrow> f = g"
proof -
  assume f: "is_frame f" "is_frame g" and i: "in_frame f i" "in_frame g i"
  obtain a b where ab: "unat f = FRAME_SIZE * a" "unat g = FRAME_SIZE * b" using f by (auto simp: is_frame_def elim!: dvdE)
  have "a = b" using i unfolding in_frame_def ab by (auto simp: ring_consts)
  then have "unat f = unat g" using ab by simp
  then show "f = g" by (simp add: word_unat_eq_iff)
qed

text \<open>The descriptor \<open>d\<close> points at the response frame of \<open>j\<close>.\<close>

definition carries :: "(nat \<Rightarrow> byte) \<Rightarrow> u64 \<times> nat \<Rightarrow> dns_job \<Rightarrow> bool" where
  "carries m d j \<longleftrightarrow> snd d \<le> FRAME_SIZE \<and> build_response_frame FRAME_SIZE j = Ok (mem_read m (unat (fst d)) (snd d))"

lemma carries_frame:
  assumes "carries m d j" "\<And>i. in_frame (fst d) i \<Longrightarrow> m' i = m i"
  shows "carries m' d j"
proof -
  have "mem_read m' (unat (fst d)) (snd d) = mem_read m (unat (fst d)) (snd d)"
    by (rule mem_read_cong) (use assms in \<open>auto simp: carries_def in_frame_def\<close>)
  then show ?thesis using assms(1) by (simp add: carries_def)
qed

lemma build_frame_ok:
  assumes "job_ok j"
  obtains f where "build_response_frame FRAME_SIZE j = Ok f" "length f \<le> FRAME_SIZE"
  using build_response_frame_ok [OF assms, of FRAME_SIZE] assms that
  by (auto simp: job_ok_def ring_consts DNS_MAX_MSG_LEN_def)

lemma tx_loop_pool:
  assumes lib: "lib_ok lib"
  shows "pool x (fs @ rev gs) \<Longrightarrow> length gs = length js \<Longrightarrow> list_all is_frame gs \<Longrightarrow> distinct gs \<Longrightarrow> list_all job_ok js \<Longrightarrow>
    \<exists>a k st m ds. tx_loop lib js x =
        Ok (x\<lparr>x_frame_free := k, x_frame_addr := a, x_umem := m, x_tx := x_tx x @ ds, x_stats := st\<rparr>) \<and>
      pool (x\<lparr>x_frame_free := k, x_frame_addr := a\<rparr>) fs \<and> map fst ds = gs \<and> list_all2 (carries m) ds js \<and>
      (\<forall>i. (\<forall>g \<in> set gs. \<not> in_frame g i) \<longrightarrow> m i = x_umem x i)"
proof (induction js arbitrary: gs x)
  case Nil
  then show ?case
    by (intro exI [of _ "x_frame_addr x"] exI [of _ "x_frame_free x"] exI [of _ "x_stats x"] exI [of _ "x_umem x"]
        exI [of _ "[]"]) simp
next
  case (Cons j js)
  obtain g gs' where gs: "gs = g # gs'" using Cons.prems(2) by (cases gs) auto
  obtain a k where ak: "xsk_alloc_frame x = Ok (g, x\<lparr>x_frame_free := k, x_frame_addr := a\<rparr>)"
      "pool (x\<lparr>x_frame_free := k, x_frame_addr := a\<rparr>) (fs @ rev gs')"
    using alloc_pool [of x "fs @ rev gs'" g] Cons.prems(1) by (auto simp: gs)
  have g: "is_frame g" using Cons.prems by (simp add: gs)
  then have off: "lib_get_data lib g = unat g" "unat g + FRAME_SIZE \<le> umem_size"
    using frame_base(2) [OF lib] is_frame_bound by (auto simp: is_frame_def)
  obtain f where f: "build_response_frame FRAME_SIZE j = Ok f" "length f \<le> FRAME_SIZE"
    using build_frame_ok Cons.prems(5) by auto
  define st where "st = (x_stats x)\<lparr>st_tx_packets := st_tx_packets (x_stats x) + 1,
    st_tx_bytes := st_tx_bytes (x_stats x) + of_nat (length f)\<rparr>"
  let ?m = "mem_write (unat g) f (x_umem x)"
  let ?x = "x\<lparr>x_frame_free := k, x_frame_addr := a, x_umem := ?m, x_tx := x_tx x @ [(g, length f)], x_stats := st\<rparr>"
  have step: "tx_loop lib (j # js) x = tx_loop lib js ?x"
    using ak(1) off f(1) by (simp add: st_def Let_def)
  have "pool ?x (fs @ rev gs')" "length gs' = length js" "list_all is_frame gs'" "distinct gs'" "list_all job_ok js"
    using ak(2) Cons.prems by (simp_all add: gs)
  from Cons.IH [OF this] obtain a' k' st' m ds where ih: "tx_loop lib js ?x =
        Ok (?x\<lparr>x_frame_free := k', x_frame_addr := a', x_umem := m, x_tx := x_tx ?x @ ds, x_stats := st'\<rparr>)"
      "pool (?x\<lparr>x_frame_free := k', x_frame_addr := a'\<rparr>) fs" "map fst ds = gs'" "list_all2 (carries m) ds js"
      "\<forall>i. (\<forall>g \<in> set gs'. \<not> in_frame g i) \<longrightarrow> m i = x_umem ?x i"
    by blast
  have out: "m i = ?m i" if "in_frame g i" for i
  proof -
    have "\<forall>g' \<in> set gs'. \<not> in_frame g' i"
      using frames_disjoint [OF g _ that] Cons.prems by (auto simp: gs list_all_iff)
    then show ?thesis using ih(5) by simp
  qed
  have "carries m (g, length f) j"
    by (rule carries_frame [of ?m]) (use f out in \<open>simp_all add: carries_def\<close>)
  moreover have "m i = x_umem x i" if "\<forall>g \<in> set gs. \<not> in_frame g i" for i
    using that ih(5) f(2) by (auto simp: gs mem_write_def in_frame_def)
  ultimately show ?case
    using ih unfolding step
    by (intro exI [of _ a'] exI [of _ k'] exI [of _ st'] exI [of _ m] exI [of _ "(g, length f) # ds"]) (simp add: gs pool_def)
qed

section \<open>The invariant\<close>

definition all_frames :: "u64 list" where
  "all_frames = map (\<lambda>i. of_nat i * of_nat FRAME_SIZE) [0..<NUM_FRAMES]"

text \<open>Where the frames are: on the free stack, in one of the rings, or with the kernel.\<close>

definition owned :: "xsk_socket_info \<Rightarrow> u64 list \<Rightarrow> u64 list \<Rightarrow> (u64 \<times> nat) list \<Rightarrow> u64 list" where
  "owned x fs kf kt = fs @ x_fq x @ kf @ map (frame_of \<circ> fst) (x_rx x) @ map fst (x_tx x) @ map fst kt @ x_cq x"

definition sock_inv :: "xsk_socket_info \<Rightarrow> u64 list \<Rightarrow> u64 list \<Rightarrow> (u64 \<times> nat) list \<Rightarrow> dns_job list \<Rightarrow> bool" where
  "sock_inv x fs kf kt jobs \<longleftrightarrow> pool x fs \<and> mset (owned x fs kf kt) = mset all_frames \<and>
     length (x_fq x) + length kf + length (x_rx x) = FILL_RING_FRAMES \<and>
     x_outstanding_tx x = length (x_tx x) + length kt + length (x_cq x) \<and>
     list_all rx_desc_ok (x_rx x) \<and>
     (\<forall>d \<in> set (x_tx x @ kt). \<exists>j \<in> set jobs. carries (x_umem x) d j)"

lemma sock_inv_upd [simp]:
  "sock_inv (x\<lparr>x_stats := s\<rparr>) fs kf kt jobs = sock_inv x fs kf kt jobs"
  "sock_inv (x\<lparr>x_kicks := n\<rparr>) fs kf kt jobs = sock_inv x fs kf kt jobs"
  by (simp_all add: sock_inv_def owned_def)

lemma frame_number: "i < NUM_FRAMES \<Longrightarrow> unat (of_nat i * of_nat FRAME_SIZE :: u64) = i * FRAME_SIZE"
  using unat_of_small [of "i * FRAME_SIZE"] by (simp add: ring_consts)

lemma all_frames_facts: "distinct all_frames" "a \<in> set all_frames \<longleftrightarrow> is_frame a" "length all_frames = NUM_FRAMES"
proof -
  have "inj_on (\<lambda>i. of_nat i * of_nat FRAME_SIZE :: u64) {0..<NUM_FRAMES}"
  proof (rule inj_onI)
    fix i j assume "i \<in> {0..<NUM_FRAMES}" "j \<in> {0..<NUM_FRAMES}"
      "of_nat i * of_nat FRAME_SIZE = (of_nat j * of_nat FRAME_SIZE :: u64)"
    then have "i * FRAME_SIZE = j * FRAME_SIZE" using frame_number by (metis atLeastLessThan_iff)
    then show "i = j" by (simp add: ring_consts)
  qed
  then show "distinct all_frames" by (simp add: all_frames_def distinct_map)
  show "length all_frames = NUM_FRAMES" by (simp add: all_frames_def)
  show "a \<in> set all_frames \<longleftrightarrow> is_frame a"
  proof
    assume "a \<in> set all_frames"
    then obtain i where "i < NUM_FRAMES" "a = of_nat i * of_nat FRAME_SIZE" by (auto simp: all_frames_def)
    then show "is_frame a" using frame_number [of i] by (simp add: is_frame_def umem_size_def ring_consts)
  next
    assume "is_frame a"
    then obtain i where i: "unat a = FRAME_SIZE * i" "unat a < umem_size" by (auto simp: is_frame_def elim!: dvdE)
    then have "i < NUM_FRAMES" by (simp add: umem_size_def ring_consts)
    then have "a = of_nat i * of_nat FRAME_SIZE"
      using i(1) frame_number [of i] by (simp add: word_unat_eq_iff mult.commute)
    then show "a \<in> set all_frames" using \<open>i < NUM_FRAMES\<close> by (auto simp: all_frames_def)
  qed
qed

lemma sock_inv_frames:
  assumes "sock_inv x fs kf kt jobs"
  shows "distinct (owned x fs kf kt)" "a \<in> set (owned x fs kf kt) \<Longrightarrow> is_frame a" "length (owned x fs kf kt) = NUM_FRAMES"
  using assms all_frames_facts mset_eq_imp_distinct_iff [of "owned x fs kf kt" all_frames]
    mset_eq_setD [of "owned x fs kf kt" all_frames] mset_eq_length [of "owned x fs kf kt" all_frames]
  by (auto simp: sock_inv_def)

lemma sock_inv_zero_sum:
  assumes "sock_inv x fs kf kt jobs"
  shows "length fs + x_outstanding_tx x = NUM_FRAMES - FILL_RING_FRAMES"
  using sock_inv_frames(3) [OF assms] assms by (simp add: sock_inv_def owned_def ring_consts)

lemma lib_facts:
  assumes "lib_ok lib"
  shows "lib_nb_free lib r q n \<le> 2048 - q" "min n (2048 - q) \<le> lib_nb_free lib r q n"
    "n \<le> 2048 - q \<Longrightarrow> lib_reserve lib r q n = n" "lib_peek lib r q n \<le> q" "lib_peek lib r q n \<le> n"
proof -
  note l = assms [unfolded lib_ok_def, THEN conjunct1, rule_format, of r q n]
  show "lib_nb_free lib r q n \<le> 2048 - q" "min n (2048 - q) \<le> lib_nb_free lib r q n"
    "n \<le> 2048 - q \<Longrightarrow> lib_reserve lib r q n = n" "lib_peek lib r q n \<le> q" "lib_peek lib r q n \<le> n"
    using l by simp_all
qed

lemma split_top:
  assumes "n \<le> length fs"
  obtains fs1 gs where "fs = fs1 @ rev gs" "length gs = n"
  using that [of "take (length fs - n) fs" "rev (drop (length fs - n) fs)"] assms by simp

lemma tx_want_eval:
  assumes "pool x fs"
  obtains st where "tx_want lib n x = (min (length fs) (min (lib_nb_free lib TX (length (x_tx x)) n) n), x\<lparr>x_stats := st\<rparr>)"
proof -
  have "xsk_free_frame_count (x\<lparr>x_stats := s\<rparr>) = length fs" for s
    using pool_count(1) [OF assms] by (simp add: xsk_free_frame_count_def)
  then have "\<exists>w st. tx_want lib n x = (w, x\<lparr>x_stats := st\<rparr>) \<and> w = min (length fs) (min (lib_nb_free lib TX (length (x_tx x)) n) n)"
    using pool_count(1) [OF assms] unfolding tx_want_def Let_def
    by (cases "lib_nb_free lib TX (length (x_tx x)) n < n") (auto intro: exI [of _ "x_stats x"])
  then show ?thesis using that by auto
qed

lemma send_batch_inv:
  assumes lib: "lib_ok lib" and inv: "sock_inv x fs kf kt jobs" and js: "list_all job_ok batch" "set batch \<subseteq> set jobs"
  shows "\<exists>x' fs'. send_batch lib batch x = Ok x' \<and> sock_inv x' fs' kf kt jobs \<and>
    length (x_tx x') = length (x_tx x) + min (length fs) (min (lib_nb_free lib TX (length (x_tx x)) (length batch)) (length batch))"
proof -
  have pool: "pool x fs" using inv by (simp add: sock_inv_def)
  define want where "want = min (length fs) (min (lib_nb_free lib TX (length (x_tx x)) (length batch)) (length batch))"
  obtain st where st: "tx_want lib (length batch) x = (want, x\<lparr>x_stats := st\<rparr>)"
    using tx_want_eval [OF pool, of lib "length batch"] unfolding want_def by blast
  have room: "want \<le> 2048 - length (x_tx x)" "want \<le> length fs" "want \<le> length batch"
    using lib_facts(1) [OF lib, of TX "length (x_tx x)" "length batch"] by (simp_all add: want_def)
  have sb: "send_batch lib batch x =
       (if want \<noteq> 0 then res_bind (tx_loop lib (take want batch) (x\<lparr>x_stats := st\<rparr>))
          (\<lambda>x3. Ok (x3\<lparr>x_outstanding_tx := x_outstanding_tx x3 + want\<rparr>)) else Ok (x\<lparr>x_stats := st\<rparr>))"
    using lib_facts(3) [OF lib room(1), of TX] by (simp add: send_batch_def st)
  obtain fs1 gs where gs: "fs = fs1 @ rev gs" "length gs = want" using split_top [OF room(2)] .
  note own = sock_inv_frames [OF inv]
  have fr: "list_all is_frame gs" "distinct gs"
    using own by (auto simp: owned_def gs list_all_iff)
  have "pool (x\<lparr>x_stats := st\<rparr>) (fs1 @ rev gs)" "length gs = length (take want batch)" "list_all job_ok (take want batch)"
    using pool gs room js by (auto simp: list_all_iff dest: in_set_takeD)
  from tx_loop_pool [OF lib this(1,2) fr this(3)] obtain a k st' m ds where
    tx: "tx_loop lib (take want batch) (x\<lparr>x_stats := st\<rparr>) =
        Ok (x\<lparr>x_stats := st, x_frame_free := k, x_frame_addr := a, x_umem := m, x_tx := x_tx x @ ds, x_stats := st'\<rparr>)"
      "pool (x\<lparr>x_stats := st, x_frame_free := k, x_frame_addr := a\<rparr>) fs1" "map fst ds = gs" "list_all2 (carries m) ds (take want batch)"
      "\<forall>i. (\<forall>g \<in> set gs. \<not> in_frame g i) \<longrightarrow> m i = x_umem x i"
    by auto
  let ?x = "x\<lparr>x_frame_free := k, x_frame_addr := a, x_umem := m, x_tx := x_tx x @ ds, x_stats := st', x_outstanding_tx := x_outstanding_tx x + want\<rparr>"
  have "\<exists>j \<in> set jobs. carries m d j" if dd: "d \<in> set (x_tx x @ kt)" for d
  proof -
    obtain j where j: "j \<in> set jobs" "carries (x_umem x) d j" using inv dd by (auto simp: sock_inv_def)
    have "fst d \<in> set (owned x fs kf kt)" using dd by (auto simp: owned_def)
    moreover have "fst d \<notin> set gs" using own(1) dd by (auto simp: owned_def gs)
    ultimately have "m i = x_umem x i" if "in_frame (fst d) i" for i
      using tx(5) frames_disjoint [OF own(2) _ that] fr(1) by (auto simp: list_all_iff)
    then show ?thesis using carries_frame [OF j(2)] j(1) by blast
  qed
  moreover have "\<exists>j \<in> set jobs. carries m d j" if "d \<in> set ds" for d
    using tx(4) that js(2) by (fastforce simp: list_all2_conv_all_nth in_set_conv_nth subset_iff)
  moreover have ds: "length ds = want" using tx(3) gs(2) by (metis length_map)
  moreover have "mset (owned ?x fs1 kf kt) = mset (owned x fs kf kt)" using tx(3) by (simp add: owned_def gs ac_simps)
  ultimately have "sock_inv ?x fs1 kf kt jobs" using inv tx(2) by (auto simp: sock_inv_def pool_def)
  moreover have "want \<noteq> 0 \<Longrightarrow> send_batch lib batch x = Ok ?x" using tx(1) by (simp add: sb)
  ultimately show ?thesis using inv sb ds unfolding want_def [symmetric] by (cases "want = 0") auto
qed

lemma next_batch_subset:
  "next_batch n js = (batch, rest) \<Longrightarrow> set batch \<subseteq> set js \<and> set rest \<subseteq> set js"
  by (induction n js arbitrary: batch rest rule: next_batch.induct) (auto split: if_splits prod.splits)

lemma send_all_inv:
  "lib_ok lib \<Longrightarrow> sock_inv x fs kf kt jobs \<Longrightarrow> list_all job_ok js \<Longrightarrow> set js \<subseteq> set jobs \<Longrightarrow>
    \<exists>x' fs'. send_all lib js x = Ok x' \<and> sock_inv x' fs' kf kt jobs"
proof (induction lib js x arbitrary: fs rule: send_all.induct)
  case (1 lib js x)
  obtain batch rest where b: "next_batch TX_BATCH_SIZE js = (batch, rest)" by fastforce
  note sub = next_batch_subset [OF b]
  then have ok: "list_all job_ok batch" "set batch \<subseteq> set jobs" "list_all job_ok rest" "set rest \<subseteq> set jobs"
    using 1(5,6) by (auto simp: list_all_iff)
  show ?case
  proof (cases "js = [] \<or> batch = []")
    case True
    then show ?thesis using 1(1) [OF _ b [symmetric] refl _ 1(3,4) ok(3,4)] 1(4) b by (subst send_all.simps) auto
  next
    case False
    obtain x1 fs1 where x1: "send_batch lib batch x = Ok x1" "sock_inv x1 fs1 kf kt jobs"
      using send_batch_inv [OF 1(3,4) ok(1,2)] by blast
    then have "send_all lib js x = send_all lib rest x1" using False b by (subst send_all.simps) simp
    then show ?thesis using 1(2) [OF _ b [symmetric] refl _ x1(1) 1(3) x1(2) ok(3,4)] False by simp
  qed
qed

lemma mset_take_drop: "mset (take n xs) + mset (drop n xs) = mset xs"
  by (metis append_take_drop_id mset_append)

lemma kick_inv [simp]: "sock_inv (kick_tx lib x) fs kf kt jobs = sock_inv x fs kf kt jobs"
  by (simp add: kick_tx_def)

lemma sock_inv_jobs: "sock_inv x fs kf kt jobs \<Longrightarrow> sock_inv x fs kf kt (jobs @ js)"
  by (fastforce simp: sock_inv_def)

lemma drain_done_inv:
  assumes "lib_ok lib" "sock_inv x fs kf kt jobs" "list_all job_ok js"
  shows "\<exists>x' fs'. drain_done_and_tx lib js x = Ok x' \<and> sock_inv x' fs' kf kt (jobs @ js)"
proof -
  obtain x1 fs1 where "send_all lib js x = Ok x1" "sock_inv x1 fs1 kf kt (jobs @ js)"
    using send_all_inv [OF assms(1) sock_inv_jobs [OF assms(2), of js] assms(3)] by auto
  then show ?thesis by (auto simp: drain_done_and_tx_def)
qed

lemma reclaim_inv:
  assumes lib: "lib_ok lib" and inv: "sock_inv x fs kf kt jobs"
  shows "\<exists>x' fs'. reclaim_tx lib x = Ok x' \<and> sock_inv x' fs' kf kt jobs"
proof (cases "x_outstanding_tx x = 0")
  case True
  then show ?thesis using inv by (auto simp: reclaim_tx_def)
next
  case False
  define x1 where "x1 = kick_tx lib x"
  have inv1: "sock_inv x1 fs kf kt jobs" using inv by (simp add: x1_def)
  define n where "n = lib_peek lib CQ (length (x_cq x1)) TX_BATCH_SIZE"
  have n: "n \<le> length (x_cq x1)" using lib_facts(4) [OF lib] by (simp add: n_def)
  let ?as = "take n (x_cq x1)"
  note own = sock_inv_frames [OF inv1]
  have "list_all is_frame ?as" using own(2) by (auto simp: list_all_iff owned_def dest: in_set_takeD)
  moreover have "length fs + length ?as \<le> NUM_FRAMES" using own(3) n by (simp add: owned_def)
  moreover have pool: "pool x1 fs" using inv1 by (simp add: sock_inv_def)
  ultimately obtain a k where fl: "free_loop lib ?as x1 = Ok (x1\<lparr>x_frame_addr := a, x_frame_free := k\<rparr>)"
      "pool (x1\<lparr>x_frame_addr := a, x_frame_free := k\<rparr>) (fs @ ?as)"
    using free_loop_pool [OF lib pool, of ?as] by blast
  have "n \<le> x_outstanding_tx x1" using inv1 n by (simp add: sock_inv_def)
  then have "x_outstanding_tx x1 - (if n < x_outstanding_tx x1 then n else x_outstanding_tx x1) = x_outstanding_tx x1 - n" by simp
  then have r: "reclaim_tx lib x = (if n = 0 then Ok x1 else Ok (x1\<lparr>x_frame_addr := a, x_frame_free := k, x_cq := drop n (x_cq x1),
      x_outstanding_tx := x_outstanding_tx x1 - n\<rparr>))"
    using False n fl(1) by (simp add: reclaim_tx_def x1_def [symmetric] Let_def n_def [symmetric])
  let ?x = "x1\<lparr>x_frame_addr := a, x_frame_free := k, x_cq := drop n (x_cq x1), x_outstanding_tx := x_outstanding_tx x1 - n\<rparr>"
  have "mset (owned ?x (fs @ ?as) kf kt) = mset (owned x1 fs kf kt)"
    using mset_take_drop [of n "x_cq x1"] by (simp add: owned_def)
  then have "sock_inv ?x (fs @ ?as) kf kt jobs" using inv1 n fl(2) by (auto simp: sock_inv_def pool_def)
  then show ?thesis using r inv1 by (cases "n = 0") auto
qed

lemma refill_pool:
  assumes lib: "lib_ok lib" and pool: "pool x fs" and n: "n \<le> length fs" "length (x_fq x) + n \<le> 2048"
  shows "\<exists>a k fs1 gs. refill_fq lib n x = Ok (x\<lparr>x_frame_free := k, x_frame_addr := a, x_fq := x_fq x @ gs\<rparr>) \<and>
    pool (x\<lparr>x_frame_free := k, x_frame_addr := a\<rparr>) fs1 \<and> fs = fs1 @ rev gs \<and> length gs = n"
proof -
  obtain fs1 gs where gs: "fs = fs1 @ rev gs" "length gs = n" using split_top [OF n(1)] .
  obtain a k where fl: "fill_loop n x = Ok (x\<lparr>x_frame_free := k, x_frame_addr := a, x_fq := x_fq x @ gs\<rparr>)"
      "pool (x\<lparr>x_frame_free := k, x_frame_addr := a\<rparr>) fs1"
    using fill_loop_pool [of x fs1 gs] pool gs by blast
  have "n \<le> 2048 - length (x_fq x)" using n(2) by simp
  then have "n \<le> lib_nb_free lib FQ (length (x_fq x)) n" "lib_reserve lib FQ (length (x_fq x)) n = n"
    using lib_facts(2,3) [OF lib, of n "length (x_fq x)" FQ] by simp_all
  then have "refill_fq lib n x = fill_loop n x"
    using n(1) pool_count(1) [OF pool] by (auto simp: refill_fq_def Let_def)
  then show ?thesis using fl gs by (intro exI [of _ a] exI [of _ k] exI [of _ fs1] exI [of _ gs]) simp
qed

lemma drain_rx_inv:
  assumes lib: "lib_ok lib" and inv: "sock_inv x fs kf kt jobs"
  shows "\<exists>x' fs' q'. drain_rx lib alloc now push idx x q = Ok (x', q') \<and> sock_inv x' fs' kf kt jobs"
proof -
  define n where "n = lib_peek lib RX (length (x_rx x)) RX_BATCH_SIZE"
  have n: "n \<le> length (x_rx x)" using lib_facts(4) [OF lib] by (simp add: n_def)
  let ?ds = "take n (x_rx x)" and ?gs = "map (frame_of \<circ> fst) (take n (x_rx x))"
  have pool: "pool x fs" using inv by (simp add: sock_inv_def)
  have "list_all rx_desc_ok ?ds" using inv by (auto simp: sock_inv_def list_all_iff dest: in_set_takeD)
  moreover have "length fs + length ?ds \<le> NUM_FRAMES" using sock_inv_frames(3) [OF inv] n by (simp add: owned_def)
  ultimately obtain a k st q' where rx: "rx_loop lib alloc now push idx ?ds x q = Ok (x\<lparr>x_stats := st, x_frame_addr := a, x_frame_free := k\<rparr>, q')"
      "pool (x\<lparr>x_frame_addr := a, x_frame_free := k\<rparr>) (fs @ ?gs)"
    using rx_loop_pool [OF lib pool, where ds = ?ds and alloc = alloc and now = now and push = push and idx = idx and q = q] by blast
  let ?x1 = "x\<lparr>x_stats := st, x_frame_addr := a, x_frame_free := k, x_rx := drop n (x_rx x)\<rparr>"
  have "pool ?x1 (fs @ ?gs)" using rx(2) by (simp add: pool_def)
  moreover have "n \<le> length (fs @ ?gs)" "length (x_fq ?x1) + n \<le> 2048" using n inv by (simp_all add: sock_inv_def ring_consts)
  ultimately obtain a' k' fs1 gs where rf: "refill_fq lib n ?x1 = Ok (?x1\<lparr>x_frame_free := k', x_frame_addr := a', x_fq := x_fq ?x1 @ gs\<rparr>)"
      "pool (?x1\<lparr>x_frame_free := k', x_frame_addr := a'\<rparr>) fs1" "fs @ ?gs = fs1 @ rev gs" "length gs = n"
    using refill_pool [OF lib] by blast
  let ?x2 = "?x1\<lparr>x_frame_free := k', x_frame_addr := a', x_fq := x_fq ?x1 @ gs\<rparr>"
  have d: "drain_rx lib alloc now push idx x q = (if n = 0 then Ok (x, q) else Ok (?x2, q'))"
    using rx(1) rf(1) n by (simp add: drain_rx_def n_def [symmetric])
  have "mset fs + mset ?gs = mset fs1 + mset gs" using arg_cong [OF rf(3), of mset] by simp
  moreover have "mset (map (frame_of \<circ> fst) (x_rx x)) = mset ?gs + mset (map (frame_of \<circ> fst) (drop n (x_rx x)))"
    using mset_take_drop [of n "map (frame_of \<circ> fst) (x_rx x)"] by (simp add: take_map drop_map)
  ultimately have "mset (owned ?x2 fs1 kf kt) = mset (owned x fs kf kt)" by (simp add: owned_def)
  moreover have "list_all rx_desc_ok (drop n (x_rx x))" using inv by (auto simp: sock_inv_def list_all_iff dest: in_set_dropD)
  ultimately have "sock_inv ?x2 fs1 kf kt jobs" using inv rf(2,4) n by (auto simp: sock_inv_def pool_def)
  then show ?thesis using d inv by (cases "n = 0") auto
qed

section \<open>Runs\<close>

definition xsk_inv :: "xsk_world \<Rightarrow> u64 list \<Rightarrow> bool" where
  "xsk_inv w fs \<longleftrightarrow> sock_inv (w_xsk w) fs (w_kfill w) (w_ktx w) (w_jobs w) \<and> list_all job_ok (w_jobs w) \<and>
     (\<forall>f \<in> set (w_wire w). \<exists>j \<in> set (w_jobs w). build_response_frame FRAME_SIZE j = Ok f)"

lemma seed_inv:
  assumes lib: "lib_ok lib"
  shows "\<exists>x fs. seed_frames lib (xsk_zero nw mem) = Ok x \<and> sock_inv x fs [] [] [] \<and> x_tx x = [] \<and> x_cq x = []"
proof -
  let ?x = "(xsk_zero nw mem)\<lparr>x_frame_addr := all_frames, x_frame_free := NUM_FRAMES\<rparr>"
  have pool: "pool ?x all_frames" by (simp add: pool_def all_frames_facts)
  obtain fs1 gs where gs: "all_frames = fs1 @ rev gs" "length gs = FILL_RING_FRAMES"
    using split_top [of FILL_RING_FRAMES all_frames] by (auto simp: all_frames_facts ring_consts)
  obtain a k where fl: "fill_loop FILL_RING_FRAMES ?x = Ok (?x\<lparr>x_frame_free := k, x_frame_addr := a, x_fq := x_fq ?x @ gs\<rparr>)"
      "pool (?x\<lparr>x_frame_free := k, x_frame_addr := a\<rparr>) fs1"
    using fill_loop_pool [of ?x fs1 gs] pool gs by auto
  have "lib_reserve lib FQ 0 FILL_RING_FRAMES = FILL_RING_FRAMES" by (rule lib_facts(3) [OF lib]) (simp add: ring_consts)
  then have "seed_frames lib (xsk_zero nw mem) = Ok (?x\<lparr>x_frame_free := k, x_frame_addr := a, x_fq := gs\<rparr>)"
    using fl(1) by (simp add: seed_frames_def Let_def all_frames_def [symmetric] xsk_zero_def)
  moreover have "sock_inv (?x\<lparr>x_frame_free := k, x_frame_addr := a, x_fq := gs\<rparr>) fs1 [] [] []"
    using fl(2) gs(2) arg_cong [OF gs(1), of mset] by (simp add: sock_inv_def owned_def xsk_zero_def pool_def)
  ultimately show ?thesis by (auto simp: xsk_zero_def)
qed

lemma kernel_rx_inv:
  assumes inv: "sock_inv x fs (as @ a # bs) kt jobs" and h: "headroom + length pkt \<le> FRAME_SIZE" "headroom < FRAME_SIZE"
  shows "sock_inv (x\<lparr>x_umem := mem_write (unat a + headroom) pkt (x_umem x), x_rx := x_rx x @ [(a + of_nat headroom, length pkt)]\<rparr>)
    fs (as @ bs) kt jobs"
proof -
  note own = sock_inv_frames [OF inv]
  have a: "is_frame a" using own(2) by (simp add: owned_def)
  note off = frame_of_offset [OF a h(2)]
  have "\<exists>j \<in> set jobs. carries (mem_write (unat a + headroom) pkt (x_umem x)) d j" if dd: "d \<in> set (x_tx x @ kt)" for d
  proof -
    obtain j where j: "j \<in> set jobs" "carries (x_umem x) d j" using inv dd by (auto simp: sock_inv_def)
    have d: "is_frame (fst d)" "fst d \<noteq> a" using own(1,2) dd by (auto simp: owned_def)
    have "\<not> in_frame a i" if "in_frame (fst d) i" for i using frames_disjoint [OF d(1) a that] d(2) by auto
    moreover have "in_frame a i" if "unat a + headroom \<le> i" "i < unat a + headroom + length pkt" for i
      unfolding in_frame_def using that h by linarith
    ultimately have "mem_write (unat a + headroom) pkt (x_umem x) i = x_umem x i" if "in_frame (fst d) i" for i
      using that by (auto simp: mem_write_def)
    then show ?thesis using carries_frame [OF j(2)] j(1) by blast
  qed
  moreover have "rx_desc_ok (a + of_nat headroom, length pkt)"
    using off h is_frame_bound [OF a] by (simp add: rx_desc_ok_def)
  ultimately show ?thesis using inv off by (auto simp: sock_inv_def owned_def pool_def)
qed

lemma xsk_run_inv: "xsk_run w \<Longrightarrow> \<exists>fs. xsk_inv w fs"
proof (induction rule: xsk_run.induct)
  case (xsk_setup lib nw mem x)
  then show ?case using seed_inv [of lib nw mem] by (auto simp: xsk_inv_def)
next
  case (xsk_drain_rx w lib alloc now push idx q x q')
  then obtain fs where "xsk_inv w fs" by blast
  then show ?case
    using drain_rx_inv [OF xsk_drain_rx(2), of "w_xsk w" fs "w_kfill w" "w_ktx w" "w_jobs w" alloc now push idx q] xsk_drain_rx(3)
    by (auto simp: xsk_inv_def)
next
  case (xsk_drain_done w lib js x)
  then obtain fs where "xsk_inv w fs" by blast
  then show ?case
    using drain_done_inv [OF xsk_drain_done(2), of "w_xsk w" fs "w_kfill w" "w_ktx w" "w_jobs w" js] xsk_drain_done(3,4)
    by (fastforce simp: xsk_inv_def)
next
  case (xsk_reclaim w lib x)
  then obtain fs where "xsk_inv w fs" by blast
  then show ?case
    using reclaim_inv [OF xsk_reclaim(2), of "w_xsk w" fs "w_kfill w" "w_ktx w" "w_jobs w"] xsk_reclaim(3)
    by (auto simp: xsk_inv_def)
next
  case (kernel_fill w a fq)
  then obtain fs where "xsk_inv w fs" by blast
  then have "xsk_inv (w\<lparr>w_xsk := (w_xsk w)\<lparr>x_fq := fq\<rparr>, w_kfill := w_kfill w @ [a]\<rparr>) fs"
    using kernel_fill(2) by (simp add: xsk_inv_def sock_inv_def owned_def)
  then show ?case by blast
next
  case (kernel_rx w as a bs headroom pkt)
  then obtain fs where "xsk_inv w fs" by blast
  then show ?case using kernel_rx_inv [of "w_xsk w" fs as a bs "w_ktx w" "w_jobs w" headroom pkt] kernel_rx(2-4)
    by (auto simp: xsk_inv_def)
next
  case (kernel_tx w d tx)
  then obtain fs where "xsk_inv w fs" by blast
  then have "xsk_inv (w\<lparr>w_xsk := (w_xsk w)\<lparr>x_tx := tx\<rparr>, w_ktx := w_ktx w @ [d]\<rparr>) fs"
    using kernel_tx(2) by (simp add: xsk_inv_def sock_inv_def owned_def)
  then show ?case by blast
next
  case (kernel_sent w ds a n es)
  then obtain fs where inv: "xsk_inv w fs" by blast
  then have "\<exists>j \<in> set (w_jobs w). carries (x_umem (w_xsk w)) (a, n) j"
    using kernel_sent(2) by (auto simp: xsk_inv_def sock_inv_def)
  then have "xsk_inv (w\<lparr>w_ktx := ds @ es, w_wire := w_wire w @ [mem_read (x_umem (w_xsk w)) (unat a) n],
      w_xsk := (w_xsk w)\<lparr>x_cq := x_cq (w_xsk w) @ [a]\<rparr>\<rparr>) fs"
    using inv kernel_sent(2) by (auto simp: xsk_inv_def sock_inv_def owned_def carries_def)
  then show ?case by blast
qed

section \<open>Properties\<close>

text \<open>C37: Every UMEM frame has exactly one owner, always. In every state of the loop and the kernel, however
  their steps interleave and whatever arrives, the frames on the free stack, in the four rings and
  with the kernel are all 4096 frames, each once. The receive side always has its 2048 frames, so
  the fill ring is replenished in full after every drain; \<^verbatim>\<open>outstanding_tx\<close> counts exactly the
  frames in transmission, and with the free frames they are the other 2048. No further turn of the
  loop fails an assertion, leaves the UMEM, or allocates an invalid frame.\<close>

theorem frames_conserved:
  assumes "xsk_run w"
  shows "\<exists>fs. take (x_frame_free (w_xsk w)) (x_frame_addr (w_xsk w)) = fs \<and>
    distinct (owned (w_xsk w) fs (w_kfill w) (w_ktx w)) \<and> set (owned (w_xsk w) fs (w_kfill w) (w_ktx w)) = set all_frames \<and>
    length (x_fq (w_xsk w)) + length (w_kfill w) + length (x_rx (w_xsk w)) = 2048 \<and>
    x_outstanding_tx (w_xsk w) = length (x_tx (w_xsk w)) + length (w_ktx w) + length (x_cq (w_xsk w)) \<and>
    length fs + x_outstanding_tx (w_xsk w) = 2048 \<and>
    (lib_ok lib \<and> list_all job_ok js \<longrightarrow> is_ok (loop_turn lib alloc now push idx js (w_xsk w) q))"
proof -
  obtain fs where w: "xsk_inv w fs" using xsk_run_inv [OF assms] by blast
  then have inv: "sock_inv (w_xsk w) fs (w_kfill w) (w_ktx w) (w_jobs w)" by (simp add: xsk_inv_def)
  have "is_ok (loop_turn lib alloc now push idx js (w_xsk w) q)" if l: "lib_ok lib" "list_all job_ok js"
  proof -
    obtain x1 fs1 q1 where 1: "drain_rx lib alloc now push idx (w_xsk w) q = Ok (x1, q1)" "sock_inv x1 fs1 (w_kfill w) (w_ktx w) (w_jobs w)"
      using drain_rx_inv [OF l(1) inv, of alloc now push idx q] by blast
    obtain x2 fs2 where 2: "drain_done_and_tx lib js x1 = Ok x2" "sock_inv x2 fs2 (w_kfill w) (w_ktx w) (w_jobs w @ js)"
      using drain_done_inv [OF l(1) 1(2) l(2)] by blast
    obtain x3 where "reclaim_tx lib x2 = Ok x3" using reclaim_inv [OF l(1) 2(2)] by blast
    then show ?thesis using 1(1) 2(1) by (simp add: loop_turn_def)
  qed
  moreover have "set (owned (w_xsk w) fs (w_kfill w) (w_ktx w)) = set all_frames"
    using inv by (auto simp: sock_inv_def dest: mset_eq_setD)
  moreover have "take (x_frame_free (w_xsk w)) (x_frame_addr (w_xsk w)) = fs" using inv by (simp add: sock_inv_def pool_def)
  ultimately show ?thesis
    using sock_inv_frames(1) [OF inv] sock_inv_zero_sum [OF inv] inv by (auto simp: sock_inv_def ring_consts)
qed

text \<open>C38: Only responses go out on the wire, whole and unmixed. Every packet the kernel transmits, at
  whatever time it gets to read the frame, is a well-formed datagram that carries the response of
  one of the jobs handed to the loop back to that job's client.\<close>

theorem wire_carries_responses:
  assumes "xsk_run w" "f \<in> set (w_wire w)"
  shows "\<exists>j \<in> set (w_jobs w). receive_datagram f = Some \<lparr>dg_dst_mac = j_client_mac j, dg_src_mac = j_server_mac j,
    dg_src_ip = j_server_ip j, dg_dst_ip = j_client_ip j, dg_src_port = [0, 53],
    dg_dst_port = j_client_port j, dg_payload = j_resp j\<rparr>"
proof -
  obtain j where j: "j \<in> set (w_jobs w)" "build_response_frame FRAME_SIZE j = Ok f" "job_ok j"
    using xsk_run_inv [OF assms(1)] assms(2) by (auto simp: xsk_inv_def list_all_iff)
  have "42 + length (j_resp j) \<le> FRAME_SIZE" using j(3) by (simp add: job_ok_def ring_consts DNS_MAX_MSG_LEN_def)
  from build_response_frame_ok [OF j(3) this] j show ?thesis by auto
qed

definition plain_lib :: xsk_lib where
  "plain_lib = \<lparr>lib_nb_free = \<lambda>r q n. 2048 - q, lib_reserve = \<lambda>r q n. if n \<le> 2048 - q then n else 0,
     lib_peek = \<lambda>r q n. min q n, lib_needs_wakeup = \<lambda>r. False, lib_extract_addr = \<lambda>a. a, lib_get_data = unat\<rparr>"

lemma plain_lib_ok: "lib_ok plain_lib"
  by (simp add: lib_ok_def plain_lib_def)

definition demo_job :: dns_job where
  "demo_job = \<lparr>j_loop_idx = 0, j_client_mac = [1, 2, 3, 4, 5, 6], j_server_mac = [6, 5, 4, 3, 2, 1],
     j_client_ip = [10, 0, 0, 2], j_server_ip = [10, 0, 0, 1], j_client_port = [0x9C, 0x40], j_tos = 0, j_ttl = 64,
     j_query = [], j_resp = [1, 2, 3], j_t_rx_ns = 0\<rparr>"

lemma demo_job_ok: "job_ok demo_job"
  by (simp add: job_ok_def demo_job_def DNS_MAX_MSG_LEN_def)

theorem frames_conserved_witness:
  "\<exists>x. seed_frames plain_lib (xsk_zero True (\<lambda>_. 0)) = Ok x \<and> distinct (owned x (take (x_frame_free x) (x_frame_addr x)) [] []) \<and>
    length (x_fq x) + x_outstanding_tx x = 2048 + length (x_tx x) + length (x_cq x) - length (x_rx x) \<and>
    is_ok (loop_turn plain_lib (\<lambda>_. True) 0 (\<lambda>j q. (True, q @ [j])) 0 [demo_job] x [])"
proof -
  obtain x where x: "seed_frames plain_lib (xsk_zero True (\<lambda>_. 0)) = Ok x" using seed_inv [OF plain_lib_ok] by blast
  have "xsk_run \<lparr>w_xsk = x, w_kfill = [], w_ktx = [], w_wire = [], w_jobs = []\<rparr>" by (rule xsk_setup [OF plain_lib_ok x])
  from frames_conserved [OF this, where lib = plain_lib and js = "[demo_job]" and alloc = "\<lambda>_. True" and now = 0 and
      push = "\<lambda>j q. (True, q @ [j])" and idx = 0 and q = "[]"]
  show ?thesis using x plain_lib_ok demo_job_ok by (intro exI [of _ x]) auto
qed

theorem wire_carries_responses_witness:
  "\<exists>(w :: xsk_world) f. w_wire w = [f] \<and> w_jobs w = [demo_job] \<and>
    (\<exists>j \<in> set (w_jobs w). receive_datagram f = Some \<lparr>dg_dst_mac = j_client_mac j, dg_src_mac = j_server_mac j,
      dg_src_ip = j_server_ip j, dg_dst_ip = j_client_ip j, dg_src_port = [0, 53],
      dg_dst_port = j_client_port j, dg_payload = j_resp j\<rparr>)"
proof -
  obtain x fs where x: "seed_frames plain_lib (xsk_zero True (\<lambda>_. 0)) = Ok x" "sock_inv x fs [] [] []" "x_tx x = []" "x_cq x = []"
    using seed_inv [OF plain_lib_ok] by blast
  let ?w = "\<lparr>w_xsk = x, w_kfill = [], w_ktx = [], w_wire = [], w_jobs = []\<rparr>"
  have run: "xsk_run ?w" by (rule xsk_setup [OF plain_lib_ok x(1)])
  have "length fs = 2048" using sock_inv_zero_sum [OF x(2)] x by (simp add: sock_inv_def ring_consts)
  then obtain x1 where x1: "send_batch plain_lib [demo_job] x = Ok x1" "length (x_tx x1) = 1"
    using send_batch_inv [OF plain_lib_ok sock_inv_jobs [OF x(2), of "[demo_job]"], of "[demo_job]"] demo_job_ok x(3)
    by (auto simp: plain_lib_def)
  have nb: "next_batch (Suc n) [demo_job] = ([demo_job], [])" for n
    by (cases n) (simp_all add: demo_job_def DNS_MAX_MSG_LEN_def)
  have "send_all plain_lib [demo_job] x = Ok x1"
    using nb [of 63] x1(1) by (subst send_all.simps) (simp add: TX_BATCH_SIZE_def send_all.simps)
  then have dd: "drain_done_and_tx plain_lib [demo_job] (w_xsk ?w) = Ok (kick_tx plain_lib x1)"
    by (simp add: drain_done_and_tx_def)
  have "x_tx (kick_tx plain_lib x1) = x_tx x1" by (simp add: kick_tx_def)
  then obtain a n where d: "x_tx (kick_tx plain_lib x1) = [(a, n)]" using x1(2) by (cases "x_tx x1") auto
  let ?x = "kick_tx plain_lib x1"
  have "xsk_run \<lparr>w_xsk = ?x, w_kfill = [], w_ktx = [], w_wire = [], w_jobs = [demo_job]\<rparr>"
    using xsk_drain_done [OF run plain_lib_ok _ dd] demo_job_ok by simp
  from kernel_tx [OF this, of "(a, n)" "[]"]
  have "xsk_run \<lparr>w_xsk = ?x\<lparr>x_tx := []\<rparr>, w_kfill = [], w_ktx = [(a, n)], w_wire = [], w_jobs = [demo_job]\<rparr>"
    using d by simp
  from kernel_sent [OF this, of "[]" a n "[]"]
  have "xsk_run \<lparr>w_xsk = ?x\<lparr>x_tx := [], x_cq := x_cq ?x @ [a]\<rparr>, w_kfill = [], w_ktx = [],
      w_wire = [mem_read (x_umem ?x) (unat a) n], w_jobs = [demo_job]\<rparr>" (is "xsk_run ?w'") by simp
  from wire_carries_responses [OF this, of "mem_read (x_umem ?x) (unat a) n"] show ?thesis
    by (intro exI [of _ ?w'] exI [of _ "mem_read (x_umem ?x) (unat a) n"]) simp
qed

end
