(* ===== verification/XskEnv.thy ===== *)
theory XskEnv
  imports XskRings
begin

text \<open>
  Set-up and teardown of AF_XDP sockets (\<^verbatim>\<open>xsk_setup.c\<close>): attaching the XDP program, allocating the UMEM,
  creating the socket, sharing the program between sockets, reading the filter's counters, and
  releasing everything.

  What libc, libxdp and libbpf return are arguments. Each function returns its result, the updated
  environment and the list of the calls it made that acquire, use or release a resource; \<open>track\<close> says
  which resources are held after such a list, and is undefined on a list that acquires what is held,
  uses or releases what is not, or releases what another resource still rests on.
\<close>

section \<open>Definitions\<close>

definition ENOENT :: int where "ENOENT = 2"
definition ENOMEM :: int where "ENOMEM = 12"
definition ENODEV :: int where "ENODEV = 19"
definition EINVAL :: int where "EINVAL = 22"
definition ENOSPC :: int where "ENOSPC = 28"
definition EOPNOTSUPP :: int where "EOPNOTSUPP = 95"

lemmas errnos = ENOENT_def ENOMEM_def ENODEV_def EINVAL_def ENOSPC_def EOPNOTSUPP_def

definition XDP_COPY :: u16 where "XDP_COPY = 2"
definition XDP_ZEROCOPY :: u16 where "XDP_ZEROCOPY = 4"
definition XDP_USE_NEED_WAKEUP :: u16 where "XDP_USE_NEED_WAKEUP = 8"

definition IF_NAMESIZE :: nat where "IF_NAMESIZE = 16"

text \<open>
  A pointer to a \<^verbatim>\<open>struct xsk_umem_info\<close> is its address with the library's handle it holds; a pointer to
  a \<^verbatim>\<open>struct xsk_socket_info\<close> has the contents as well.
\<close>

record xsk_env =
  e_ifname :: bytes
  e_ifindex :: int
  e_queue_id :: int
  e_prog :: "nat option"
  e_attach_mode :: nat
  e_xsk_map_fd :: int
  e_stats_map_fd :: int
  e_custom_prog :: bool
  e_packet_buffer :: "nat option"
  e_packet_buffer_size :: u64
  e_zerocopy :: bool
  e_owns_prog :: bool
  e_umem :: "(nat \<times> nat) option"
  e_xsk :: "(nat \<times> nat \<times> xsk_socket_info) option"

text \<open>After \<^verbatim>\<open>memset\<close>.\<close>

definition env_zero :: xsk_env where
  "env_zero = \<lparr>e_ifname = [], e_ifindex = 0, e_queue_id = 0, e_prog = None, e_attach_mode = 0, e_xsk_map_fd = 0,
     e_stats_map_fd = 0, e_custom_prog = False, e_packet_buffer = None, e_packet_buffer_size = 0, e_zerocopy = False,
     e_owns_prog = False, e_umem = None, e_xsk = None\<rparr>"

datatype event =
  Create nat | Attach nat int nat | Detach nat int nat | Close nat
| Alloc nat | Free nat
| UmemCreate nat nat | UmemDelete nat
| SockCreate nat nat int | MapUpdate nat int | SockDelete nat
| EventfdOpen int | EventfdClose int

subsection \<open>The program\<close>

text \<open>
  \<open>la_create\<close> is given the file and program names; an error code comes with no handle. \<open>la_xsks_map\<close> and
  \<open>la_stats_map\<close> are the descriptors of the two maps, \<open>None\<close> where the object has no such map.
\<close>

record load_answers =
  la_ifindex :: int
  la_create :: "bytes \<Rightarrow> bytes option \<Rightarrow> int \<times> nat"
  la_attach :: int
  la_xsks_map :: "int option"
  la_stats_map :: "int option"

definition xsk_env_load_program ::
  "load_answers \<Rightarrow> bytes \<Rightarrow> bytes option \<Rightarrow> bytes option \<Rightarrow> nat \<Rightarrow> int \<times> xsk_env \<times> event list" where
  "xsk_env_load_program a ifname bpf_obj progname mode =
     (let env = env_zero\<lparr>e_xsk_map_fd := - 1, e_stats_map_fd := - 1, e_attach_mode := mode,
                  e_ifname := take (IF_NAMESIZE - 1) ifname, e_ifindex := la_ifindex a\<rparr> in
      if la_ifindex a = 0 then (- ENODEV, env, [])
      else (case bpf_obj of
        None \<Rightarrow> (0, env\<lparr>e_custom_prog := False, e_owns_prog := True\<rparr>, [])
      | Some obj \<Rightarrow>
          let name = (if progname = Some [] then None else progname);
              (err, g) = la_create a obj name in
          if err \<noteq> 0 then (err, env\<lparr>e_prog := None\<rparr>, [])
          else if la_attach a \<noteq> 0 then (la_attach a, env\<lparr>e_prog := None\<rparr>, [Create g, Close g])
          else
            let ifindex = la_ifindex a; up = [Create g, Attach g ifindex mode]; down = [Detach g ifindex mode, Close g] in
            (case la_xsks_map a of
               None \<Rightarrow> (- EINVAL, env\<lparr>e_prog := None\<rparr>, up @ down)
             | Some fd \<Rightarrow>
                 let env1 = env\<lparr>e_xsk_map_fd := fd\<rparr> in
                 if fd < 0 then (- EINVAL, env1\<lparr>e_prog := None\<rparr>, up @ down)
                 else (0, env1\<lparr>e_prog := Some g, e_stats_map_fd := (case la_stats_map a of None \<Rightarrow> - 1 | Some sfd \<Rightarrow> sfd),
                            e_custom_prog := True, e_owns_prog := True\<rparr>, up))))"

definition xsk_env_clone_program :: "xsk_env \<Rightarrow> xsk_env" where
  "xsk_env_clone_program src = env_zero\<lparr>e_ifname := take (IF_NAMESIZE - 1) (e_ifname src), e_ifindex := e_ifindex src,
     e_attach_mode := e_attach_mode src, e_xsk_map_fd := e_xsk_map_fd src, e_stats_map_fd := e_stats_map_fd src,
     e_custom_prog := e_custom_prog src\<rparr>"

definition xsk_env_is_zerocopy :: "xsk_env \<Rightarrow> bool" where
  "xsk_env_is_zerocopy env = e_zerocopy env"

subsection \<open>The socket\<close>

text \<open>
  Return codes are zero or a negated error number; \<open>sa_socket\<close> is given the bind flags. \<open>sa_lib\<close> is the
  ring library and \<open>sa_mem\<close> what the allocated buffer holds.
\<close>

record sock_answers =
  sa_memalign :: "nat option"
  sa_umem_info :: "nat option"
  sa_umem_create :: "int \<times> nat"
  sa_xsk_info :: "nat option"
  sa_socket :: "u16 \<Rightarrow> int \<times> nat"
  sa_map_update :: int
  sa_lib :: xsk_lib
  sa_mem :: "nat \<Rightarrow> byte"

definition configure_umem :: "sock_answers \<Rightarrow> nat \<Rightarrow> (nat \<times> nat) option \<times> event list" where
  "configure_umem a buffer =
     (case sa_umem_info a of
        None \<Rightarrow> (None, [])
      | Some p \<Rightarrow>
          let (ret, u) = sa_umem_create a in
          if ret \<noteq> 0 then (None, [Alloc p, Free p])
          else (Some (p, u), [Alloc p, UmemCreate u buffer]))"

text \<open>The socket, with the fallback to copy mode: the return code, the handle, and the new \<^verbatim>\<open>env->zerocopy\<close>.\<close>

definition create_socket :: "(u16 \<Rightarrow> int \<times> nat) \<Rightarrow> bool \<Rightarrow> bool \<Rightarrow> int \<times> nat \<times> bool" where
  "create_socket socket want_zerocopy want_need_wakeup =
     (let flags = (if want_zerocopy then XDP_ZEROCOPY else XDP_COPY);
          flags1 = (if want_need_wakeup then flags OR XDP_USE_NEED_WAKEUP else flags);
          (ret, s) = socket flags1 in
      if ret = - EOPNOTSUPP \<and> want_zerocopy
      then let (ret2, s2) = socket ((flags1 AND NOT XDP_ZEROCOPY) OR XDP_COPY) in (ret2, s2, False)
      else (ret, s, want_zerocopy \<and> ret = 0))"

text \<open>The labels \<^verbatim>\<open>err_umem\<close>, \<^verbatim>\<open>err_xsk\<close> and \<^verbatim>\<open>err_sock\<close>, which fall through from the last to the first.\<close>

definition err_umem :: "nat \<Rightarrow> nat \<times> nat \<Rightarrow> xsk_env \<Rightarrow> xsk_env \<times> event list" where
  "err_umem buffer umem env =
     (env\<lparr>e_umem := None, e_packet_buffer := None\<rparr>, [UmemDelete (snd umem), Free (fst umem), Free buffer])"

definition err_xsk :: "nat \<Rightarrow> nat \<Rightarrow> nat \<times> nat \<Rightarrow> xsk_env \<Rightarrow> xsk_env \<times> event list" where
  "err_xsk xsk buffer umem env = (let (env', ev) = err_umem buffer umem env in (env', Free xsk # ev))"

definition err_sock :: "nat \<Rightarrow> nat \<Rightarrow> nat \<Rightarrow> nat \<times> nat \<Rightarrow> xsk_env \<Rightarrow> xsk_env \<times> event list" where
  "err_sock s xsk buffer umem env = (let (env', ev) = err_xsk xsk buffer umem env in (env', SockDelete s # ev))"

text \<open>From the created socket to the end of the function.\<close>

definition register_socket ::
  "sock_answers \<Rightarrow> nat \<Rightarrow> nat \<Rightarrow> nat \<Rightarrow> nat \<times> nat \<Rightarrow> bool \<Rightarrow> xsk_env \<Rightarrow> (int \<times> xsk_env \<times> event list) res" where
  "register_socket a s xsk buffer umem want_need_wakeup env =
     (let update = (if e_custom_prog env then [MapUpdate s (e_xsk_map_fd env)] else []) in
      if e_custom_prog env \<and> sa_map_update a \<noteq> 0
      then let (env', ev) = err_sock s xsk buffer umem env in Ok (sa_map_update a, env', update @ ev)
      else (case seed_frames (sa_lib a) (xsk_zero want_need_wakeup (sa_mem a)) of
              Fault \<Rightarrow> Fault
            | Err \<Rightarrow> let (env', ev) = err_sock s xsk buffer umem env in Ok (- ENOSPC, env', update @ ev)
            | Ok x \<Rightarrow> Ok (0, env\<lparr>e_xsk := Some (xsk, s, x)\<rparr>, update)))"

definition xsk_env_setup_socket ::
  "sock_answers \<Rightarrow> xsk_env \<Rightarrow> int \<Rightarrow> bool \<Rightarrow> bool \<Rightarrow> (int \<times> xsk_env \<times> event list) res" where
  "xsk_env_setup_socket a env0 queue_id want_zerocopy want_need_wakeup =
     (let env = env0\<lparr>e_queue_id := queue_id, e_packet_buffer_size := of_nat NUM_FRAMES * of_nat FRAME_SIZE\<rparr> in
      case sa_memalign a of
        None \<Rightarrow> Ok (- ENOMEM, env, [])
      | Some buffer \<Rightarrow>
          (case configure_umem a buffer of
             (None, ev) \<Rightarrow> Ok (- EINVAL, env\<lparr>e_umem := None, e_packet_buffer := None\<rparr>, Alloc buffer # ev @ [Free buffer])
           | (Some umem, ev) \<Rightarrow>
               let env1 = env\<lparr>e_packet_buffer := Some buffer, e_umem := Some umem\<rparr>;
                   ev1 = Alloc buffer # ev in
               (case sa_xsk_info a of
                  None \<Rightarrow> let (env', ev') = err_umem buffer umem env1 in Ok (- ENOMEM, env', ev1 @ ev')
                | Some xsk \<Rightarrow>
                    let (ret, s, zerocopy) = create_socket (sa_socket a) want_zerocopy want_need_wakeup;
                        env2 = env1\<lparr>e_zerocopy := zerocopy\<rparr> in
                    if ret \<noteq> 0
                    then let (env', ev') = err_xsk xsk buffer umem env2 in Ok (ret, env', ev1 @ Alloc xsk # ev')
                    else res_bind (register_socket a s xsk buffer umem want_need_wakeup env2) (\<lambda>(r, env', ev').
                           Ok (r, env', ev1 @ [Alloc xsk, SockCreate s (snd umem) queue_id] @ ev')))))"

subsection \<open>Counters\<close>

definition STAT__MAX :: nat where "STAT__MAX = 7"

text \<open>\<open>lookup\<close> has the values of a key on each CPU, or \<open>None\<close> when the lookup fails.\<close>

definition xsk_env_read_kern_stats :: "int \<Rightarrow> bool \<Rightarrow> (nat \<Rightarrow> (nat \<Rightarrow> u64) option) \<Rightarrow> xsk_env \<Rightarrow> int + u64 list" where
  "xsk_env_read_kern_stats ncpus alloc lookup env =
     (if e_stats_map_fd env < 0 \<or> ncpus \<le> 0 then Inl (- ENOENT)
      else if \<not> alloc then Inl (- ENOMEM)
      else Inr (map (\<lambda>key. case lookup key of None \<Rightarrow> 0 | Some percpu \<Rightarrow> fold (\<lambda>c out. out + percpu c) [0..<nat ncpus] 0)
                 [0..<STAT__MAX]))"

subsection \<open>Teardown\<close>

definition xsk_env_teardown :: "xsk_env \<Rightarrow> xsk_env \<times> event list" where
  "xsk_env_teardown env =
     (let (env1, ev1) = (case e_xsk env of None \<Rightarrow> (env, [])
                         | Some (p, s, x) \<Rightarrow> (env\<lparr>e_xsk := None\<rparr>, [SockDelete s, Free p]));
          (env2, ev2) = (case e_umem env1 of None \<Rightarrow> (env1, [])
                         | Some (p, u) \<Rightarrow> (env1\<lparr>e_umem := None\<rparr>, [UmemDelete u, Free p]));
          (env3, ev3) = (case e_packet_buffer env2 of None \<Rightarrow> (env2, [])
                         | Some p \<Rightarrow> (env2\<lparr>e_packet_buffer := None\<rparr>, [Free p]));
          (env4, ev4) = (case e_prog env3 of None \<Rightarrow> (env3, [])
                         | Some g \<Rightarrow> if e_owns_prog env3
                             then (env3\<lparr>e_prog := None\<rparr>, [Detach g (e_ifindex env3) (e_attach_mode env3), Close g])
                             else (env3, []))
      in (env4, ev1 @ ev2 @ ev3 @ ev4))"

section \<open>Resources\<close>

datatype resource = Prog nat | Attached nat int nat | Mem nat | Umem nat nat | Sock nat nat int | Efd int

text \<open>A UMEM rests on the buffer it was made of, a socket on its UMEM, an attachment on its program.\<close>

fun attaches :: "nat \<Rightarrow> resource \<Rightarrow> bool" where
  "attaches g (Attached g' i m) = (g' = g)"
| "attaches g _ = False"

fun is_umem :: "nat \<Rightarrow> resource \<Rightarrow> bool" where
  "is_umem u (Umem u' b) = (u' = u)"
| "is_umem u _ = False"

fun uses_mem :: "nat \<Rightarrow> resource \<Rightarrow> bool" where
  "uses_mem p (Umem u b) = (b = p)"
| "uses_mem p _ = False"

fun is_sock :: "nat \<Rightarrow> resource \<Rightarrow> bool" where
  "is_sock s (Sock s' u q) = (s' = s)"
| "is_sock s _ = False"

fun uses_umem :: "nat \<Rightarrow> resource \<Rightarrow> bool" where
  "uses_umem u (Sock s u' q) = (u' = u)"
| "uses_umem u _ = False"

fun acquire :: "event \<Rightarrow> resource set \<Rightarrow> resource set option" where
  "acquire (Create g) R = (if Prog g \<in> R then None else Some (R \<union> {Prog g}))"
| "acquire (Attach g i m) R = (if Prog g \<in> R \<and> \<not> (\<exists>r \<in> R. attaches g r) then Some (R \<union> {Attached g i m}) else None)"
| "acquire (Detach g i m) R = (if Attached g i m \<in> R then Some (R - {Attached g i m}) else None)"
| "acquire (Close g) R = (if Prog g \<in> R \<and> \<not> (\<exists>r \<in> R. attaches g r) then Some (R - {Prog g}) else None)"
| "acquire (Alloc p) R = (if Mem p \<in> R then None else Some (R \<union> {Mem p}))"
| "acquire (Free p) R = (if Mem p \<in> R \<and> \<not> (\<exists>r \<in> R. uses_mem p r) then Some (R - {Mem p}) else None)"
| "acquire (UmemCreate u b) R = (if Mem b \<in> R \<and> \<not> (\<exists>r \<in> R. is_umem u r) then Some (R \<union> {Umem u b}) else None)"
| "acquire (UmemDelete u) R =
     (if (\<exists>r \<in> R. is_umem u r) \<and> \<not> (\<exists>r \<in> R. uses_umem u r) then Some {r \<in> R. \<not> is_umem u r} else None)"
| "acquire (SockCreate s u q) R =
     (if (\<exists>r \<in> R. is_umem u r) \<and> \<not> (\<exists>r \<in> R. is_sock s r) then Some (R \<union> {Sock s u q}) else None)"
| "acquire (MapUpdate s fd) R = (if \<exists>r \<in> R. is_sock s r then Some R else None)"
| "acquire (SockDelete s) R = (if \<exists>r \<in> R. is_sock s r then Some {r \<in> R. \<not> is_sock s r} else None)"
| "acquire (EventfdOpen fd) R = (if Efd fd \<in> R then None else Some (R \<union> {Efd fd}))"
| "acquire (EventfdClose fd) R = (if Efd fd \<in> R then Some (R - {Efd fd}) else None)"

fun track :: "event list \<Rightarrow> resource set \<Rightarrow> resource set option" where
  "track [] R = Some R"
| "track (e # es) R = (case acquire e R of None \<Rightarrow> None | Some R' \<Rightarrow> track es R')"

lemma track_append: "track (es @ fs) R = (case track es R of None \<Rightarrow> None | Some R' \<Rightarrow> track fs R')"
  by (induction es arbitrary: R) (auto split: option.split)

text \<open>What a resource and an event name; events leave resources with other names alone.\<close>

datatype handle = HProg nat | HMem nat | HUmem nat | HSock nat | HEfd int

fun handles :: "resource \<Rightarrow> handle set" where
  "handles (Prog g) = {HProg g}"
| "handles (Attached g i m) = {HProg g}"
| "handles (Mem p) = {HMem p}"
| "handles (Umem u b) = {HUmem u, HMem b}"
| "handles (Sock s u q) = {HSock s, HUmem u}"
| "handles (Efd fd) = {HEfd fd}"

fun names :: "event \<Rightarrow> handle set" where
  "names (Create g) = {HProg g}"
| "names (Attach g i m) = {HProg g}"
| "names (Detach g i m) = {HProg g}"
| "names (Close g) = {HProg g}"
| "names (Alloc p) = {HMem p}"
| "names (Free p) = {HMem p}"
| "names (UmemCreate u b) = {HUmem u, HMem b}"
| "names (UmemDelete u) = {HUmem u}"
| "names (SockCreate s u q) = {HSock s, HUmem u}"
| "names (MapUpdate s fd) = {HSock s}"
| "names (SockDelete s) = {HSock s}"
| "names (EventfdOpen fd) = {HEfd fd}"
| "names (EventfdClose fd) = {HEfd fd}"

lemma names_apart:
  "attaches g r \<Longrightarrow> HProg g \<in> handles r" "is_umem u r \<Longrightarrow> HUmem u \<in> handles r" "uses_mem p r \<Longrightarrow> HMem p \<in> handles r"
  "is_sock s r \<Longrightarrow> HSock s \<in> handles r" "uses_umem u r \<Longrightarrow> HUmem u \<in> handles r"
  by (cases r; simp)+

lemma acquire_frame:
  assumes "acquire e R = Some R'" "\<forall>r \<in> F. handles r \<inter> names e = {}"
  shows "acquire e (R \<union> F) = Some (R' \<union> F)"
proof -
  have F: "h \<notin> handles r" if "r \<in> F" "h \<in> names e" for r h using assms(2) that by blast
  have out: "HProg g \<in> names e \<Longrightarrow> Prog g \<notin> F \<and> (\<forall>i m. Attached g i m \<notin> F) \<and> (\<forall>r \<in> F. \<not> attaches g r)"
    "HMem p \<in> names e \<Longrightarrow> Mem p \<notin> F \<and> (\<forall>r \<in> F. \<not> uses_mem p r)"
    "HUmem u \<in> names e \<Longrightarrow> \<forall>r \<in> F. \<not> is_umem u r \<and> \<not> uses_umem u r"
    "HSock s \<in> names e \<Longrightarrow> \<forall>r \<in> F. \<not> is_sock s r"
    "HEfd fd \<in> names e \<Longrightarrow> Efd fd \<notin> F" for g p u s fd
    using F names_apart by fastforce+
  show ?thesis using assms(1) by (cases e) (use out in \<open>force split: if_splits\<close>)+
qed

lemma track_frame:
  assumes "track es R = Some R'" "\<forall>r \<in> F. \<forall>e \<in> set es. handles r \<inter> names e = {}"
  shows "track es (R \<union> F) = Some (R' \<union> F)"
  using assms
proof (induction es arbitrary: R)
  case (Cons e es)
  then obtain R1 where R1: "acquire e R = Some R1" "track es R1 = Some R'" by (auto split: option.splits)
  have "acquire e (R \<union> F) = Some (R1 \<union> F)" by (rule acquire_frame [OF R1(1)]) (use Cons.prems(2) in simp)
  then show ?case using Cons.IH [OF R1(2)] Cons.prems(2) by simp
qed simp

section \<open>What an environment holds\<close>

definition sock_held :: "xsk_env \<Rightarrow> resource set" where
  "sock_held env = (case (e_packet_buffer env, e_umem env, e_xsk env) of
     (Some b, Some (up, u), Some (xp, s, x)) \<Rightarrow> {Mem b, Mem up, Umem u b, Mem xp, Sock s u (e_queue_id env)}
   | _ \<Rightarrow> {})"

definition prog_held :: "xsk_env \<Rightarrow> resource set" where
  "prog_held env = (case e_prog env of
     Some g \<Rightarrow> if e_owns_prog env then {Prog g, Attached g (e_ifindex env) (e_attach_mode env)} else {}
   | None \<Rightarrow> {})"

definition env_whole :: "xsk_env \<Rightarrow> bool" where
  "env_whole env \<longleftrightarrow>
     (case e_xsk env of None \<Rightarrow> e_umem env = None \<and> e_packet_buffer env = None
      | Some (xp, s, x) \<Rightarrow> (\<exists>b up u. e_packet_buffer env = Some b \<and> e_umem env = Some (up, u) \<and> distinct [b, up, xp]))"

text \<open>The steps of bringing up a socket, and what undoes them.\<close>

lemma track_up:
  assumes "distinct [b, up, xp]"
  shows "track [Alloc b, Alloc up, UmemCreate u b] {} = Some {Mem b, Mem up, Umem u b}"
    "track [Alloc b, Alloc up, UmemCreate u b, Alloc xp] {} = Some {Mem b, Mem up, Umem u b, Mem xp}"
    "track [Alloc b, Alloc up, UmemCreate u b, Alloc xp, SockCreate s u q] {} = Some {Mem b, Mem up, Umem u b, Mem xp, Sock s u q}"
  using assms by auto

lemma track_down:
  assumes "b \<noteq> up"
  shows "track [UmemDelete u, Free up, Free b] {Mem b, Mem up, Umem u b} = Some {}"
    "xp \<noteq> b \<Longrightarrow> xp \<noteq> up \<Longrightarrow> track [Free xp, UmemDelete u, Free up, Free b] {Mem b, Mem up, Umem u b, Mem xp} = Some {}"
    "xp \<noteq> b \<Longrightarrow> xp \<noteq> up \<Longrightarrow>
      track [SockDelete s, Free xp, UmemDelete u, Free up, Free b] {Mem b, Mem up, Umem u b, Mem xp, Sock s u q} = Some {}"
proof -
  have sel: "{r \<in> {Mem b, Mem up, Umem u b}. \<not> is_umem u r} = {Mem b, Mem up}"
    "{r \<in> {Mem b, Mem up, Umem u b, Mem xp, Sock s u q}. \<not> is_sock s r} = {Mem b, Mem up, Umem u b, Mem xp}" by auto
  show umem: "track [UmemDelete u, Free up, Free b] {Mem b, Mem up, Umem u b} = Some {}"
    using assms sel(1) by (simp add: insert_Diff_if)
  assume xp: "xp \<noteq> b" "xp \<noteq> up"
  have "{Mem b, Mem up, Umem u b, Mem xp} - {Mem xp} = {Mem b, Mem up, Umem u b}" using xp by auto
  then show xsk: "track [Free xp, UmemDelete u, Free up, Free b] {Mem b, Mem up, Umem u b, Mem xp} = Some {}"
    using umem xp by (simp del: track.simps(2) add: track.simps(2) [of "Free xp"])
  then show "track [SockDelete s, Free xp, UmemDelete u, Free up, Free b] {Mem b, Mem up, Umem u b, Mem xp, Sock s u q} = Some {}"
    using sel(2) by (simp del: track.simps(2) add: track.simps(2) [of "SockDelete s"])
qed

text \<open>Seeding the frames fails only when the fill ring cannot be reserved.\<close>

lemma seed_total: "seed_frames lib (xsk_zero nw mem) \<noteq> Fault"
proof -
  obtain x where "seed_frames plain_lib (xsk_zero nw mem) = Ok x" using seed_inv [OF plain_lib_ok] by blast
  then show ?thesis by (auto simp: seed_frames_def Let_def split: if_splits)
qed

text \<open>The addresses and handles the calls of one set-up return.\<close>

definition sock_addrs :: "sock_answers \<Rightarrow> nat list" where
  "sock_addrs a = List.map_filter id [sa_memalign a, sa_umem_info a, sa_xsk_info a]"

definition sock_names :: "sock_answers \<Rightarrow> handle set" where
  "sock_names a = HMem ` set (sock_addrs a) \<union> {HUmem (snd (sa_umem_create a))} \<union> HSock ` range (snd \<circ> sa_socket a)"

lemma create_socket_handle: "create_socket f zc nw = (ret, s, z) \<Longrightarrow> s \<in> range (snd \<circ> f)"
  by (auto simp: create_socket_def Let_def split: prod.splits if_splits) (metis comp_apply rangeI snd_conv)+

definition no_socket :: "xsk_env \<Rightarrow> bool" where
  "no_socket env \<longleftrightarrow> e_packet_buffer env = None \<and> e_umem env = None \<and> e_xsk env = None"

text \<open>The fields that set-up of a socket leaves alone.\<close>

definition same_prog :: "xsk_env \<Rightarrow> xsk_env \<Rightarrow> bool" where
  "same_prog env env' \<longleftrightarrow> e_prog env' = e_prog env \<and> e_owns_prog env' = e_owns_prog env \<and> e_ifindex env' = e_ifindex env \<and>
     e_attach_mode env' = e_attach_mode env \<and> e_xsk_map_fd env' = e_xsk_map_fd env \<and> e_custom_prog env' = e_custom_prog env \<and>
     e_ifname env' = e_ifname env \<and> e_stats_map_fd env' = e_stats_map_fd env"

lemma same_prog_held: "same_prog env env' \<Longrightarrow> prog_held env' = prog_held env"
  unfolding same_prog_def prog_held_def by (auto split: option.split)

text \<open>How a set-up may end, from \<open>env\<close> and with return code \<open>r\<close>.\<close>

definition set_up :: "sock_answers \<Rightarrow> bool \<Rightarrow> int \<Rightarrow> xsk_env \<Rightarrow> int \<Rightarrow> xsk_env \<Rightarrow> event list \<Rightarrow> bool" where
  "set_up a nw q env r env' ev \<longleftrightarrow> track ev {} = Some (sock_held env') \<and>
     env_whole env' \<and> same_prog env env' \<and> e_queue_id env' = q \<and> (\<forall>e \<in> set ev. names e \<subseteq> sock_names a) \<and>
     (if r = 0 then \<exists>p s x. e_xsk env' = Some (p, s, x) \<and> seed_frames (sa_lib a) (xsk_zero nw (sa_mem a)) = Ok x
      else no_socket env')"

lemma set_up_failed:
  "track ev {} = Some {} \<Longrightarrow> no_socket env' \<Longrightarrow> same_prog env env' \<Longrightarrow> e_queue_id env' = q \<Longrightarrow>
   \<forall>e \<in> set ev. names e \<subseteq> sock_names a \<Longrightarrow> r \<noteq> 0 \<Longrightarrow> set_up a nw q env r env' ev"
  by (auto simp: set_up_def no_socket_def env_whole_def sock_held_def)

lemma register_spec:
  assumes d: "distinct [b, up, xp]" and nm: "{HMem b, HMem up, HMem xp, HUmem u, HSock s} \<subseteq> sock_names a"
    and env: "e_packet_buffer env = Some b" "e_umem env = Some (up, u)" "e_xsk env = None" "e_queue_id env = q"
  shows "\<exists>r env' ev. register_socket a s xp b (up, u) nw env = Ok (r, env', ev) \<and>
    set_up a nw q env r env' ([Alloc b, Alloc up, UmemCreate u b, Alloc xp, SockCreate s u q] @ ev)"
proof -
  define up5 where "up5 = [Alloc b, Alloc up, UmemCreate u b, Alloc xp, SockCreate s u q]"
  define full where "full = {Mem b, Mem up, Umem u b, Mem xp, Sock s u q}"
  define upd where "upd = (if e_custom_prog env then [MapUpdate s (e_xsk_map_fd env)] else [])"
  define dn where "dn = [SockDelete s, Free xp, UmemDelete u, Free up, Free b]"
  let ?env = "env\<lparr>e_umem := None, e_packet_buffer := None\<rparr>"
  have up: "track up5 {} = Some full" "track upd full = Some full" using track_up(3) [OF d] by (simp_all add: up5_def full_def upd_def)
  have "track dn full = Some {}" using track_down(3) [of b up xp s u q] d by (simp add: dn_def full_def)
  then have down: "track (up5 @ upd @ dn) {} = Some {}" using up by (simp add: track_append)
  have err: "err_sock s xp b (up, u) env = (?env, dn)" by (simp add: err_sock_def err_xsk_def err_umem_def dn_def)
  have nms: "\<forall>e \<in> set (up5 @ upd @ dn). names e \<subseteq> sock_names a" using nm by (auto simp: up5_def upd_def dn_def)
  have fail: "set_up a nw q env r ?env (up5 @ upd @ dn)" if "r \<noteq> 0" for r
    by (rule set_up_failed [OF down _ _ _ nms that]) (use env in \<open>simp_all add: no_socket_def same_prog_def\<close>)
  show ?thesis
  proof (cases "e_custom_prog env \<and> sa_map_update a \<noteq> 0")
    case True
    then have "register_socket a s xp b (up, u) nw env = Ok (sa_map_update a, ?env, upd @ dn)"
      using err by (simp add: register_socket_def upd_def)
    then show ?thesis using fail [of "sa_map_update a"] True unfolding up5_def [symmetric] by blast
  next
    case False
    show ?thesis
    proof (cases "seed_frames (sa_lib a) (xsk_zero nw (sa_mem a))")
      case (Ok x)
      let ?env' = "env\<lparr>e_xsk := Some (xp, s, x)\<rparr>"
      have "set_up a nw q env 0 ?env' (up5 @ upd)" using up Ok env nms d
        by (auto simp: set_up_def track_append sock_held_def full_def env_whole_def same_prog_def)
      moreover have "register_socket a s xp b (up, u) nw env = Ok (0, ?env', upd)"
        using False Ok by (auto simp: register_socket_def Let_def upd_def)
      ultimately show ?thesis unfolding up5_def [symmetric] by blast
    next
      case Err
      have "set_up a nw q env (- ENOSPC) ?env (up5 @ upd @ dn)" by (rule fail) (simp add: errnos)
      moreover have "register_socket a s xp b (up, u) nw env = Ok (- ENOSPC, ?env, upd @ dn)"
        using False Err err by (auto simp: register_socket_def Let_def upd_def)
      ultimately show ?thesis unfolding up5_def [symmetric] by blast
    qed (use seed_total in simp)
  qed
qed

lemma setup_with_umem:
  assumes "distinct (sock_addrs a)" "no_socket env" and b: "sa_memalign a = Some b" and cu: "configure_umem a b = (Some (up, u), ev)"
  shows "\<exists>r env' ev. xsk_env_setup_socket a env q zc nw = Ok (r, env', ev) \<and> set_up a nw q env r env' ev"
proof -
  have u: "sa_umem_info a = Some up" "u = snd (sa_umem_create a)" "ev = [Alloc up, UmemCreate u b]"
    using cu by (auto simp: configure_umem_def split: option.splits prod.splits if_splits)
  show ?thesis
  proof (cases "sa_xsk_info a")
    case None
    have "track ([Alloc b, Alloc up, UmemCreate u b] @ [UmemDelete u, Free up, Free b]) {} = Some {}"
      using assms(1) b u(1) track_up(1) [of b up "Suc (b + up)" u] track_down(1) [of b up u] unfolding track_append
      by (auto simp: sock_addrs_def map_filter_simps)
    then show ?thesis using cu u b None assms(2)
      by (auto simp: xsk_env_setup_socket_def errnos no_socket_def same_prog_def err_umem_def
          sock_names_def sock_addrs_def map_filter_simps intro!: set_up_failed)
  next
    case (Some xp)
    have d: "distinct [b, up, xp]" using assms(1) b u(1) Some by (simp add: sock_addrs_def map_filter_simps)
    obtain ret s z where cs: "create_socket (sa_socket a) zc nw = (ret, s, z)" by (metis prod_cases3)
    have nm: "{HMem b, HMem up, HMem xp, HUmem u, HSock s} \<subseteq> sock_names a"
      using create_socket_handle [OF cs] b u Some by (auto simp: sock_names_def sock_addrs_def map_filter_simps)
    let ?env = "env\<lparr>e_queue_id := q, e_packet_buffer_size := of_nat NUM_FRAMES * of_nat FRAME_SIZE,
      e_packet_buffer := Some b, e_umem := Some (up, u), e_zerocopy := z\<rparr>"
    show ?thesis
    proof (cases "ret = 0")
      case True
      obtain r env' ev' where reg: "register_socket a s xp b (up, u) nw ?env = Ok (r, env', ev')"
          "set_up a nw q ?env r env' ([Alloc b, Alloc up, UmemCreate u b, Alloc xp, SockCreate s u q] @ ev')"
        using register_spec [OF d nm, of ?env q nw] assms(2) by (auto simp: no_socket_def)
      then have "set_up a nw q env r env' ([Alloc b, Alloc up, UmemCreate u b, Alloc xp, SockCreate s u q] @ ev')"
        by (simp add: set_up_def same_prog_def)
      then show ?thesis using True cu u b Some cs reg(1) by (simp add: xsk_env_setup_socket_def)
    next
      case False
      have "track ([Alloc b, Alloc up, UmemCreate u b, Alloc xp] @ [Free xp, UmemDelete u, Free up, Free b]) {} = Some {}"
        using track_up(2) [OF d] track_down(2) [of b up xp u] d unfolding track_append by simp
      then have "set_up a nw q env ret (?env\<lparr>e_umem := None, e_packet_buffer := None\<rparr>)
          ([Alloc b, Alloc up, UmemCreate u b, Alloc xp] @ [Free xp, UmemDelete u, Free up, Free b])"
        by (rule set_up_failed) (use False nm assms(2) in \<open>auto simp: no_socket_def same_prog_def\<close>)
      then show ?thesis using False cu u b Some cs by (simp add: xsk_env_setup_socket_def err_xsk_def err_umem_def)
    qed
  qed
qed

lemma setup_socket_spec:
  assumes "distinct (sock_addrs a)" "no_socket env"
  shows "\<exists>r env' ev. xsk_env_setup_socket a env q zc nw = Ok (r, env', ev) \<and> set_up a nw q env r env' ev"
proof (cases "sa_memalign a")
  case None
  then show ?thesis using assms(2) by (simp add: xsk_env_setup_socket_def set_up_failed errnos no_socket_def same_prog_def)
next
  case (Some b)
  obtain um ev where cu: "configure_umem a b = (um, ev)" by fastforce
  show ?thesis
  proof (cases um)
    case None
    let ?env = "env\<lparr>e_queue_id := q, e_packet_buffer_size := of_nat NUM_FRAMES * of_nat FRAME_SIZE, e_umem := None, e_packet_buffer := None\<rparr>"
    have "track (Alloc b # ev @ [Free b]) {} = Some {}" "\<forall>e \<in> set (Alloc b # ev @ [Free b]). names e \<subseteq> sock_names a"
      using cu None Some assms(1)
      by (auto simp: configure_umem_def sock_addrs_def sock_names_def map_filter_simps split: option.splits prod.splits if_splits)
    then have "set_up a nw q env (- EINVAL) ?env (Alloc b # ev @ [Free b])"
      by (intro set_up_failed) (use assms(2) in \<open>simp_all add: no_socket_def same_prog_def errnos\<close>)
    then show ?thesis using cu None Some by (simp add: xsk_env_setup_socket_def)
  next
    case um: (Some umem)
    then show ?thesis using setup_with_umem [OF assms Some] cu by (cases umem) simp
  qed
qed

lemma teardown_spec:
  assumes "env_whole env"
  shows "\<exists>env' ev. xsk_env_teardown env = (env', ev) \<and> track ev (sock_held env \<union> prog_held env) = Some {} \<and>
    (\<forall>e \<in> set ev. \<exists>r \<in> sock_held env \<union> prog_held env. names e \<subseteq> handles r)"
proof -
  define pev where "pev = (case e_prog env of None \<Rightarrow> []
    | Some g \<Rightarrow> if e_owns_prog env then [Detach g (e_ifindex env) (e_attach_mode env), Close g] else [])"
  define sev where "sev = (case (e_packet_buffer env, e_umem env, e_xsk env) of
      (Some b, Some (up, u), Some (xp, s, x)) \<Rightarrow> [SockDelete s, Free xp, UmemDelete u, Free up, Free b] | _ \<Rightarrow> [])"
  have prog: "track pev (prog_held env) = Some {}" "\<forall>e \<in> set pev. \<exists>r \<in> prog_held env. names e \<subseteq> handles r"
    by (auto simp: pev_def prog_held_def insert_Diff_if split: option.split)
  have sock: "track sev (sock_held env) = Some {} \<and> (\<forall>e \<in> set sev. \<exists>r \<in> sock_held env. names e \<subseteq> handles r)"
  proof (cases "e_xsk env")
    case None
    then show ?thesis using assms by (simp add: env_whole_def sev_def sock_held_def)
  next
    case (Some xs)
    then obtain xp s x b up u where e: "e_xsk env = Some (xp, s, x)" "e_packet_buffer env = Some b" "e_umem env = Some (up, u)" "distinct [b, up, xp]"
      using assms by (cases xs) (auto simp: env_whole_def)
    show ?thesis using track_down(3) [of b up xp s u "e_queue_id env"] e(4)
      by (simp add: sev_def sock_held_def e(1-3) del: track.simps)
  qed
  have "track sev (sock_held env \<union> prog_held env) = Some ({} \<union> prog_held env)"
    by (rule track_frame [OF conjunct1 [OF sock]]) (auto simp: prog_held_def sev_def split: option.splits if_splits)
  then have "track (sev @ pev) (sock_held env \<union> prog_held env) = Some {}" using prog(1) by (simp add: track_append)
  moreover have "\<exists>env'. xsk_env_teardown env = (env', sev @ pev)"
    using assms by (cases "e_xsk env") (auto simp: xsk_env_teardown_def env_whole_def sev_def pev_def split: option.split)
  ultimately show ?thesis using prog(2) sock by (metis Un_iff set_append)
qed

lemma load_program_spec:
  assumes "xsk_env_load_program a ifname obj pn mode = (r, env, ev)"
  shows "track ev {} = Some (prog_held env)" "no_socket env" "r \<noteq> 0 \<Longrightarrow> prog_held env = {}"
    "e_prog env \<noteq> None \<Longrightarrow> e_owns_prog env" "\<forall>e \<in> set ev. \<exists>g. names e = {HProg g}"
proof -
  have sets: "{Prog g, Attached g i m} - {Attached g i m} = {Prog g}" for g i m by auto
  have "track ev {} = Some (prog_held env) \<and> no_socket env \<and> (r \<noteq> 0 \<longrightarrow> prog_held env = {}) \<and>
      (e_prog env \<noteq> None \<longrightarrow> e_owns_prog env) \<and> (\<forall>e \<in> set ev. \<exists>g. names e = {HProg g})"
  proof (cases "la_ifindex a = 0 \<or> obj = None")
    case True
    then show ?thesis using assms
      by (auto simp: xsk_env_load_program_def Let_def no_socket_def env_zero_def prog_held_def split: if_split_asm)
  next
    case False
    then obtain f where f: "la_ifindex a \<noteq> 0" "obj = Some f" by blast
    obtain err g where cr: "la_create a f (if pn = Some [] then None else pn) = (err, g)" by fastforce
    show ?thesis using assms f cr sets
      by (cases "la_xsks_map a") (auto simp: xsk_env_load_program_def Let_def no_socket_def env_zero_def prog_held_def insert_commute
        split: if_split_asm)
  qed
  then show "track ev {} = Some (prog_held env)" "no_socket env" "r \<noteq> 0 \<Longrightarrow> prog_held env = {}"
    "e_prog env \<noteq> None \<Longrightarrow> e_owns_prog env" "\<forall>e \<in> set ev. \<exists>g. names e = {HProg g}" by auto
qed

end
