(* ===== verification/JobQueue.thy ===== *)
theory JobQueue
  imports Prelude
begin

text \<open>
  The job queues of the two transports: the pending and done queues of \<^verbatim>\<open>af_xdp_user.c\<close> and the
  pending queue of \<^verbatim>\<open>server.c\<close>.

  A queue is a singly linked list through the jobs' own \<^verbatim>\<open>next\<close> pointers. Jobs live in a heap that
  several threads use; each operation is the critical section under the queue's mutex, so the
  operations of different threads are steps that follow each other in some order. Reading or
  writing through a null or freed pointer is a \<open>Fault\<close>. A \<^verbatim>\<open>queue_pop_wait\<close> that has to stay in
  \<^verbatim>\<open>pthread_cond_wait\<close> is \<open>Ok None\<close>.
\<close>

section \<open>Definitions\<close>

record 'j qnode =
  qn_next :: "nat option"
  qn_job :: 'j

type_synonym 'j qheap = "nat \<rightharpoonup> 'j qnode"

record job_queue =
  q_head :: "nat option"
  q_tail :: "nat option"
  q_count :: u32
  q_cap :: u32
  q_shutdown :: bool
  q_notify_fd :: int

definition get_next :: "nat \<Rightarrow> 'j qheap \<Rightarrow> nat option res" where
  "get_next p h = (case h p of None \<Rightarrow> Fault | Some n \<Rightarrow> Ok (qn_next n))"

definition set_next :: "nat \<Rightarrow> nat option \<Rightarrow> 'j qheap \<Rightarrow> 'j qheap res" where
  "set_next p v h = (case h p of None \<Rightarrow> Fault | Some n \<Rightarrow> Ok (h(p \<mapsto> n\<lparr>qn_next := v\<rparr>)))"

text \<open>\<^verbatim>\<open>free\<close> of a job; a pointer that is not live is a \<open>Fault\<close>.\<close>

definition free_job :: "nat \<Rightarrow> 'j qheap \<Rightarrow> 'j qheap res" where
  "free_job p h = (case h p of None \<Rightarrow> Fault | Some _ \<Rightarrow> Ok (h(p := None)))"

text \<open>The two list operations, which both files spell out the same way.\<close>

definition link_tail :: "job_queue \<Rightarrow> 'j qheap \<Rightarrow> nat \<Rightarrow> (job_queue \<times> 'j qheap) res" where
  "link_tail q h p =
     res_bind (set_next p None h) (\<lambda>h1.
     res_bind (case q_tail q of
         Some t \<Rightarrow> res_bind (set_next t (Some p) h1) (\<lambda>h2. Ok (q, h2))
       | None \<Rightarrow> Ok (q\<lparr>q_head := Some p\<rparr>, h1)) (\<lambda>(q1, h2).
     Ok (q1\<lparr>q_tail := Some p, q_count := q_count q1 + 1\<rparr>, h2)))"

definition unlink_head :: "job_queue \<Rightarrow> 'j qheap \<Rightarrow> nat \<Rightarrow> job_queue res" where
  "unlink_head q h p =
     res_bind (get_next p h) (\<lambda>nxt.
     let q1 = q\<lparr>q_head := nxt\<rparr>;
         q2 = (if nxt = None then q1\<lparr>q_tail := None\<rparr> else q1)
     in Ok (q2\<lparr>q_count := q_count q2 - 1\<rparr>))"

subsection \<open>The queues of \<^verbatim>\<open>af_xdp_user.c\<close>\<close>

definition queue_init :: "u32 \<Rightarrow> int \<Rightarrow> job_queue" where
  "queue_init cap notify_fd = \<lparr>q_head = None, q_tail = None, q_count = 0, q_cap = cap,
     q_shutdown = False, q_notify_fd = notify_fd\<rparr>"

definition queue_push :: "job_queue \<Rightarrow> 'j qheap \<Rightarrow> nat \<Rightarrow> (bool \<times> job_queue \<times> 'j qheap) res" where
  "queue_push q h p =
     (if q_shutdown q \<or> (q_cap q \<noteq> 0 \<and> q_count q \<ge> q_cap q) then Ok (False, q, h)
      else res_bind (link_tail q h p) (\<lambda>(q', h'). Ok (True, q', h')))"

text \<open>Whether a push goes on to write to the queue's eventfd.\<close>

definition queue_notifies :: "job_queue \<Rightarrow> bool \<Rightarrow> bool" where
  "queue_notifies q ok \<longleftrightarrow> ok \<and> 0 \<le> q_notify_fd q"

definition queue_pop_wait :: "job_queue \<Rightarrow> 'j qheap \<Rightarrow> (nat option \<times> job_queue \<times> 'j qheap) option res" where
  "queue_pop_wait q h =
     (if q_head q = None \<and> \<not> q_shutdown q then Ok None
      else case q_head q of
        None \<Rightarrow> Ok (Some (None, q, h))
      | Some p \<Rightarrow> res_bind (unlink_head q h p) (\<lambda>q'.
                  res_bind (set_next p None h) (\<lambda>h'. Ok (Some (Some p, q', h')))))"

definition queue_drain :: "job_queue \<Rightarrow> nat option \<times> job_queue" where
  "queue_drain q = (q_head q, q\<lparr>q_head := None, q_tail := None, q_count := 0\<rparr>)"

definition queue_shutdown :: "job_queue \<Rightarrow> job_queue" where
  "queue_shutdown q = q\<lparr>q_shutdown := True\<rparr>"

text \<open>
  The eventfd a done queue carries is a counter: a write of 1 adds to it, or fails and leaves it
  alone when it is at its maximum, and a read, which does not block, takes it back to zero.
  \<^verbatim>\<open>poll\<close> reports it readable when it is not zero.
\<close>

definition eventfd_write :: "u64 \<Rightarrow> u64" where
  "eventfd_write c = (if c < 0xFFFFFFFFFFFFFFFE then c + 1 else c)"

definition drain_eventfd :: "u64 \<Rightarrow> u64" where
  "drain_eventfd c = 0"

subsection \<open>The queue of \<^verbatim>\<open>server.c\<close>\<close>

text \<open>The same record; there is no eventfd, and a capacity of zero is not special.\<close>

definition srv_queue_init :: "u32 \<Rightarrow> job_queue" where
  "srv_queue_init cap = \<lparr>q_head = None, q_tail = None, q_count = 0, q_cap = cap,
     q_shutdown = False, q_notify_fd = - 1\<rparr>"

definition srv_queue_push :: "job_queue \<Rightarrow> 'j qheap \<Rightarrow> nat \<Rightarrow> (bool \<times> job_queue \<times> 'j qheap) res" where
  "srv_queue_push q h p =
     (if q_shutdown q \<or> q_count q \<ge> q_cap q then Ok (False, q, h)
      else res_bind (link_tail q h p) (\<lambda>(q', h'). Ok (True, q', h')))"

definition srv_queue_pop_wait :: "job_queue \<Rightarrow> 'j qheap \<Rightarrow> (nat option \<times> job_queue \<times> 'j qheap) option res" where
  "srv_queue_pop_wait q h =
     (if q_head q = None \<and> \<not> q_shutdown q then Ok None
      else case q_head q of
        None \<Rightarrow> Ok (Some (None, q, h))
      | Some p \<Rightarrow> res_bind (unlink_head q h p) (\<lambda>q'. Ok (Some (Some p, q', h))))"

definition srv_queue_shutdown :: "job_queue \<Rightarrow> job_queue" where
  "srv_queue_shutdown q = q\<lparr>q_shutdown := True\<rparr>"

section \<open>What a queue promises\<close>

text \<open>
  The contract the transports rely on: \<open>holds h q xs\<close> says that the queue contains the jobs \<open>xs\<close>,
  oldest first; \<open>room q n\<close> that it takes another job when it has \<open>n\<close>; \<open>closed q\<close> that it was shut
  down. It depends on the heap only at the jobs it contains.
\<close>

text \<open>\<open>h'\<close> differs from \<open>h\<close> at most in the next pointers of the jobs in \<open>S\<close>.\<close>

definition relinks :: "nat set \<Rightarrow> 'j qheap \<Rightarrow> 'j qheap \<Rightarrow> bool" where
  "relinks S h h' \<longleftrightarrow> map_option qn_job \<circ> h' = map_option qn_job \<circ> h \<and> (\<forall>p. p \<notin> S \<longrightarrow> h' p = h p)"

lemma relinks_refl [simp]: "relinks S h h"
  by (simp add: relinks_def)

lemma relinks_trans: "relinks S h h1 \<Longrightarrow> relinks T h1 h2 \<Longrightarrow> S \<union> T \<subseteq> U \<Longrightarrow> relinks U h h2"
  unfolding relinks_def by (metis Un_subset_iff subsetD)

lemma relinks_jobs:
  assumes "relinks S h h'"
  shows "dom h' = dom h" "p \<in> dom h \<Longrightarrow> qn_job (the (h' p)) = qn_job (the (h p))"
proof -
  have e: "map_option qn_job (h' p) = map_option qn_job (h p)" for p
    using assms unfolding relinks_def by (metis comp_apply)
  have "h' p = None \<longleftrightarrow> h p = None" for p using e [of p] by (cases "h p"; cases "h' p") auto
  then show "dom h' = dom h" by (auto simp: dom_def)
  show "qn_job (the (h' p)) = qn_job (the (h p))" if "p \<in> dom h"
    using e [of p] that by (cases "h' p") auto
qed

locale job_fifo =
  fixes push :: "'q \<Rightarrow> 'j qheap \<Rightarrow> nat \<Rightarrow> (bool \<times> 'q \<times> 'j qheap) res"
    and pop :: "'q \<Rightarrow> 'j qheap \<Rightarrow> (nat option \<times> 'q \<times> 'j qheap) option res"
    and close :: "'q \<Rightarrow> 'q"
    and holds :: "'j qheap \<Rightarrow> 'q \<Rightarrow> nat list \<Rightarrow> bool"
    and room :: "'q \<Rightarrow> nat \<Rightarrow> bool"
    and closed :: "'q \<Rightarrow> bool"
  assumes holds_frame: "holds h q xs \<Longrightarrow> (\<And>p. p \<in> set xs \<Longrightarrow> h' p = h p) \<Longrightarrow> holds h' q xs"
    and push_law: "holds h q xs \<Longrightarrow> h p \<noteq> None \<Longrightarrow> p \<notin> set xs \<Longrightarrow>
      \<exists>q' h'. push q h p = Ok (\<not> closed q \<and> room q (length xs), q', h') \<and>
        holds h' q' (if \<not> closed q \<and> room q (length xs) then xs @ [p] else xs) \<and>
        relinks (insert p (set xs)) h h' \<and> room q' = room q \<and> closed q' = closed q"
    and pop_law: "holds h q (x # xs) \<Longrightarrow>
      \<exists>q' h'. pop q h = Ok (Some (Some x, q', h')) \<and> holds h' q' xs \<and>
        relinks {x} h h' \<and> room q' = room q \<and> closed q' = closed q"
    and pop_empty: "holds h q [] \<Longrightarrow> pop q h = Ok (if closed q then Some (None, q, h) else None)"
    and close_law: "holds h q xs \<Longrightarrow> holds h (close q) xs \<and> closed (close q) \<and> room (close q) = room q"

text \<open>
  The life of a queue: pushes and pops by any threads in any order, and, between them, whatever
  the threads do to jobs that are not in the queue, freeing and reusing them included. The two
  lists are the jobs accepted and the jobs handed out so far.
\<close>

inductive queue_run ::
  "('q \<Rightarrow> 'j qheap \<Rightarrow> nat \<Rightarrow> (bool \<times> 'q \<times> 'j qheap) res) \<Rightarrow>
   ('q \<Rightarrow> 'j qheap \<Rightarrow> (nat option \<times> 'q \<times> 'j qheap) option res) \<Rightarrow> ('q \<Rightarrow> 'q) \<Rightarrow> 'q \<Rightarrow>
   'q \<Rightarrow> 'j qheap \<Rightarrow> nat list \<Rightarrow> nat list \<Rightarrow> bool"
  for push pop close q0 where
  run_init: "queue_run push pop close q0 q0 h [] []"
| run_push: "queue_run push pop close q0 q h ins outs \<Longrightarrow> h p \<noteq> None \<Longrightarrow>
    p \<notin> set (drop (length outs) ins) \<Longrightarrow> push q h p = Ok (b, q', h') \<Longrightarrow>
    queue_run push pop close q0 q' h' (if b then ins @ [p] else ins) outs"
| run_pop: "queue_run push pop close q0 q h ins outs \<Longrightarrow> pop q h = Ok (Some (Some p, q', h')) \<Longrightarrow>
    queue_run push pop close q0 q' h' ins (outs @ [p])"
| run_close: "queue_run push pop close q0 q h ins outs \<Longrightarrow> queue_run push pop close q0 (close q) h ins outs"
| run_other: "queue_run push pop close q0 q h ins outs \<Longrightarrow>
    (\<And>p. p \<in> set (drop (length outs) ins) \<Longrightarrow> h' p = h p) \<Longrightarrow> queue_run push pop close q0 q h' ins outs"

context job_fifo
begin

text \<open>Nothing is lost, duplicated or reordered.\<close>

lemma run_holds:
  assumes "queue_run push pop close q0 q h ins outs" "\<And>h. holds h q0 []"
  shows "\<exists>xs. ins = outs @ xs \<and> holds h q xs \<and> room q = room q0"
  using assms(1)
proof induction
  case (run_push q h ins outs p b q' h')
  then obtain xs where xs: "ins = outs @ xs" "holds h q xs" "room q = room q0" by blast
  with run_push have "p \<notin> set xs" by simp
  from push_law [OF xs(2) run_push(2) this] run_push(4) xs show ?case by auto
next
  case (run_pop q h ins outs p q' h')
  then obtain xs where xs: "ins = outs @ xs" "holds h q xs" "room q = room q0" by blast
  show ?case
  proof (cases xs)
    case Nil
    then show ?thesis using pop_empty xs(2) run_pop(2) by (auto split: if_splits)
  next
    case (Cons x ys)
    then show ?thesis using pop_law xs run_pop(2) by fastforce
  qed
next
  case (run_other q h ins outs h')
  then show ?case using holds_frame by auto
qed (use assms(2) close_law in auto)

end

section \<open>The linked lists implement it\<close>

definition nexts :: "'j qheap \<Rightarrow> nat \<Rightarrow> nat option option" where
  "nexts h p = map_option qn_next (h p)"

definition queue_list :: "'j qheap \<Rightarrow> job_queue \<Rightarrow> nat list \<Rightarrow> bool" where
  "queue_list h q xs \<longleftrightarrow> chain (nexts h) (q_head q) xs \<and> distinct xs \<and>
     q_tail q = (if xs = [] then None else Some (last xs)) \<and> q_count q = of_nat (length xs)"

lemma chain_snoc:
  "chain c a xs \<Longrightarrow> distinct xs \<Longrightarrow> xs \<noteq> [] \<Longrightarrow> p \<notin> set xs \<Longrightarrow>
    chain (c(p \<mapsto> None, last xs \<mapsto> Some p)) a (xs @ [p])"
proof (induction xs arbitrary: a)
  case (Cons x xs)
  show ?case
  proof (cases "xs = []")
    case True
    then show ?thesis using Cons by auto
  next
    case False
    then have l: "last xs \<noteq> x" "last (x # xs) = last xs" using Cons.prems(2) by auto
    obtain q where q: "c x = Some q" "chain c q xs" using Cons.prems(1) by (auto split: option.splits)
    define c' where "c' = c(p \<mapsto> None, last xs \<mapsto> Some p)"
    have "chain c' q (xs @ [p])"
      unfolding c'_def by (rule Cons.IH) (use q Cons.prems False in simp_all)
    moreover have "c' x = Some q" using l(1) q(1) Cons.prems(4) by (simp add: c'_def)
    ultimately show ?thesis unfolding l(2) c'_def [symmetric] using Cons.prems(1) by simp
  qed
qed simp

lemma set_next_Some:
  "h p \<noteq> None \<Longrightarrow> \<exists>h'. set_next p v h = Ok h' \<and> nexts h' = (nexts h)(p \<mapsto> v) \<and>
    relinks {p} h h' \<and> dom h' = dom h"
  by (cases "h p") (auto simp: set_next_def nexts_def relinks_def fun_eq_iff intro!: exI [of _ "h(p \<mapsto> (the (h p))\<lparr>qn_next := v\<rparr>)"] split: if_splits)

lemma link_tail_list:
  assumes "queue_list h q xs" "h p \<noteq> None" "p \<notin> set xs"
  shows "\<exists>q' h'. link_tail q h p = Ok (q', h') \<and> queue_list h' q' (xs @ [p]) \<and>
    relinks (insert p (set xs)) h h' \<and>
    q_cap q' = q_cap q \<and> q_shutdown q' = q_shutdown q \<and> q_notify_fd q' = q_notify_fd q"
proof (cases "xs = []")
  case True
  then show ?thesis
    using assms set_next_Some [of h p None] by (auto simp: link_tail_def queue_list_def)
next
  case False
  obtain h1 where h1: "set_next p None h = Ok h1" "nexts h1 = (nexts h)(p \<mapsto> None)"
      "relinks {p} h h1" "dom h1 = dom h"
    using set_next_Some [of h p None] assms(2) by blast
  have "h (last xs) \<noteq> None"
    using chain_mem [of "nexts h" "q_head q" xs "last xs"] assms(1) False by (auto simp: queue_list_def nexts_def)
  then have "h1 (last xs) \<noteq> None" using h1(4) by (metis domIff)
  then obtain h2 where h2: "set_next (last xs) (Some p) h1 = Ok h2" "nexts h2 = (nexts h1)(last xs \<mapsto> Some p)"
      "relinks {last xs} h1 h2"
    using set_next_Some [of h1 "last xs" "Some p"] by blast
  have "chain (nexts h2) (q_head q) (xs @ [p])"
    using chain_snoc [of "nexts h" "q_head q" xs p] assms False h1(2) h2(2) by (simp add: queue_list_def)
  then show ?thesis
    using assms False h1 h2 relinks_trans [OF h1(3) h2(3), of "insert p (set xs)"]
    by (auto simp: link_tail_def queue_list_def add.commute)
qed

lemma unlink_head_list:
  assumes "queue_list h q (x # xs)"
  shows "\<exists>q'. q_head q = Some x \<and> h x \<noteq> None \<and> unlink_head q h x = Ok q' \<and> queue_list h q' xs \<and>
    q_cap q' = q_cap q \<and> q_shutdown q' = q_shutdown q \<and> q_notify_fd q' = q_notify_fd q"
proof -
  obtain n where n: "h x = Some n" "chain (nexts h) (qn_next n) xs"
    using assms by (auto simp: queue_list_def nexts_def split: option.splits)
  then have "qn_next n = None \<longleftrightarrow> xs = []" by (cases xs) auto
  then show ?thesis using assms n by (auto simp: unlink_head_def get_next_def queue_list_def)
qed

lemma queue_list_frame:
  "queue_list h q xs \<Longrightarrow> (\<And>p. p \<in> set xs \<Longrightarrow> h' p = h p) \<Longrightarrow> queue_list h' q xs"
  using chain_frame [of xs "nexts h'" "nexts h" "q_head q"] by (auto simp: queue_list_def nexts_def)

text \<open>
  A queue with a capacity also stays within it, which makes the comparison of the 32 bit counter
  with the capacity exact. Without one (\<^verbatim>\<open>cap\<close> 0) the counter may wrap, and is not looked at.
\<close>

definition queue_holds :: "'j qheap \<Rightarrow> job_queue \<Rightarrow> nat list \<Rightarrow> bool" where
  "queue_holds h q xs \<longleftrightarrow> queue_list h q xs \<and> (q_cap q \<noteq> 0 \<longrightarrow> length xs \<le> unat (q_cap q))"

definition queue_room :: "job_queue \<Rightarrow> nat \<Rightarrow> bool" where
  "queue_room q n \<longleftrightarrow> q_cap q = 0 \<or> n < unat (q_cap q)"

definition srv_queue_holds :: "'j qheap \<Rightarrow> job_queue \<Rightarrow> nat list \<Rightarrow> bool" where
  "srv_queue_holds h q xs \<longleftrightarrow> queue_list h q xs \<and> length xs \<le> unat (q_cap q)"

definition srv_queue_room :: "job_queue \<Rightarrow> nat \<Rightarrow> bool" where
  "srv_queue_room q n \<longleftrightarrow> n < unat (q_cap q)"

lemma room_cong:
  "q_cap q' = q_cap q \<Longrightarrow> queue_room q' = queue_room q" "q_cap q' = q_cap q \<Longrightarrow> srv_queue_room q' = srv_queue_room q"
  by (auto simp: queue_room_def srv_queue_room_def fun_eq_iff)

lemma link_tail_room:
  assumes "queue_list h q xs" "h p \<noteq> None" "p \<notin> set xs"
  shows "\<exists>q' h'. link_tail q h p = Ok (q', h') \<and> queue_list h' q' (xs @ [p]) \<and>
    relinks (insert p (set xs)) h h' \<and> q_cap q' = q_cap q \<and>
    queue_room q' = queue_room q \<and> srv_queue_room q' = srv_queue_room q \<and> q_shutdown q' = q_shutdown q"
  using link_tail_list [OF assms] room_cong by metis

lemma unlink_head_room:
  assumes "queue_list h q (x # xs)"
  shows "\<exists>q'. q_head q = Some x \<and> h x \<noteq> None \<and> unlink_head q h x = Ok q' \<and> queue_list h q' xs \<and> q_cap q' = q_cap q \<and>
    queue_room q' = queue_room q \<and> srv_queue_room q' = srv_queue_room q \<and> q_shutdown q' = q_shutdown q"
  using unlink_head_list [OF assms] room_cong by metis

lemma count_exact:
  assumes "queue_list h q xs" "length xs \<le> unat (q_cap q)"
  shows "q_cap q \<le> q_count q \<longleftrightarrow> \<not> length xs < unat (q_cap q)"
proof -
  have "unat (q_cap q) < 2 ^ 32" using unsigned_less [of "q_cap q"] by simp
  then have "length xs < 2 ^ 32" using assms(2) by simp
  then have "unat (q_count q) = length xs" using assms(1) by (simp add: queue_list_def unat_of_nat take_bit_nat_eq_self)
  then show ?thesis by (simp add: word_le_nat_alt not_less)
qed

interpretation xq: job_fifo queue_push queue_pop_wait queue_shutdown queue_holds queue_room q_shutdown
proof
  fix h :: "'a qheap" and q xs p
  assume a: "queue_holds h q xs" "h p \<noteq> None" "p \<notin> set xs"
  have "queue_push q h p = (if q_shutdown q \<or> \<not> queue_room q (length xs) then Ok (False, q, h)
      else res_bind (link_tail q h p) (\<lambda>(q', h'). Ok (True, q', h')))"
    using a count_exact [of h q xs] by (auto simp: queue_push_def queue_room_def queue_holds_def)
  then show "\<exists>q' h'. queue_push q h p = Ok (\<not> q_shutdown q \<and> queue_room q (length xs), q', h') \<and>
      queue_holds h' q' (if \<not> q_shutdown q \<and> queue_room q (length xs) then xs @ [p] else xs) \<and>
      relinks (insert p (set xs)) h h' \<and> queue_room q' = queue_room q \<and> q_shutdown q' = q_shutdown q"
    using link_tail_room [of h q xs p] a by (auto simp: queue_holds_def queue_room_def [of q])
next
  fix h :: "'a qheap" and q x xs
  assume a: "queue_holds h q (x # xs)"
  then obtain q' where q': "q_head q = Some x" "h x \<noteq> None" "unlink_head q h x = Ok q'" "queue_list h q' xs"
      "q_cap q' = q_cap q" "queue_room q' = queue_room q" "q_shutdown q' = q_shutdown q"
    using unlink_head_room [of h q x xs] by (auto simp: queue_holds_def)
  obtain h' where h': "set_next x None h = Ok h'" "nexts h' = (nexts h)(x \<mapsto> None)"
      "relinks {x} h h'"
    using set_next_Some [of h x None] q'(2) by blast
  have "x \<notin> set xs" using a by (simp add: queue_holds_def queue_list_def)
  then have "chain (nexts h') (q_head q') xs \<longleftrightarrow> chain (nexts h) (q_head q') xs"
    by (intro chain_frame) (auto simp: h'(2))
  then show "\<exists>q' h'. queue_pop_wait q h = Ok (Some (Some x, q', h')) \<and> queue_holds h' q' xs \<and>
      relinks {x} h h' \<and> queue_room q' = queue_room q \<and> q_shutdown q' = q_shutdown q"
    using a q' h' by (auto simp: queue_pop_wait_def queue_holds_def queue_list_def)
next
  fix h h' :: "'a qheap" and q xs
  assume "queue_holds h q xs" "\<And>p. p \<in> set xs \<Longrightarrow> h' p = h p"
  then show "queue_holds h' q xs" using queue_list_frame [of h q xs h'] by (simp add: queue_holds_def)
qed (auto simp: queue_pop_wait_def queue_holds_def queue_list_def queue_shutdown_def queue_room_def fun_eq_iff)

interpretation sq: job_fifo srv_queue_push srv_queue_pop_wait srv_queue_shutdown srv_queue_holds srv_queue_room q_shutdown
proof
  fix h :: "'a qheap" and q xs p
  assume a: "srv_queue_holds h q xs" "h p \<noteq> None" "p \<notin> set xs"
  have "srv_queue_push q h p = (if q_shutdown q \<or> \<not> srv_queue_room q (length xs) then Ok (False, q, h)
      else res_bind (link_tail q h p) (\<lambda>(q', h'). Ok (True, q', h')))"
    using a count_exact [of h q xs] by (auto simp: srv_queue_push_def srv_queue_room_def srv_queue_holds_def)
  then show "\<exists>q' h'. srv_queue_push q h p = Ok (\<not> q_shutdown q \<and> srv_queue_room q (length xs), q', h') \<and>
      srv_queue_holds h' q' (if \<not> q_shutdown q \<and> srv_queue_room q (length xs) then xs @ [p] else xs) \<and>
      relinks (insert p (set xs)) h h' \<and> srv_queue_room q' = srv_queue_room q \<and> q_shutdown q' = q_shutdown q"
    using link_tail_room [of h q xs p] a by (auto simp: srv_queue_holds_def srv_queue_room_def [of q])
next
  fix h :: "'a qheap" and q x xs
  assume a: "srv_queue_holds h q (x # xs)"
  then show "\<exists>q' h'. srv_queue_pop_wait q h = Ok (Some (Some x, q', h')) \<and> srv_queue_holds h' q' xs \<and>
      relinks {x} h h' \<and> srv_queue_room q' = srv_queue_room q \<and> q_shutdown q' = q_shutdown q"
    using unlink_head_room [of h q x xs] by (auto simp: srv_queue_pop_wait_def srv_queue_holds_def)
next
  fix h h' :: "'a qheap" and q xs
  assume "srv_queue_holds h q xs" "\<And>p. p \<in> set xs \<Longrightarrow> h' p = h p"
  then show "srv_queue_holds h' q xs" using queue_list_frame [of h q xs h'] by (simp add: srv_queue_holds_def)
qed (auto simp: srv_queue_pop_wait_def srv_queue_holds_def queue_list_def srv_queue_shutdown_def srv_queue_room_def fun_eq_iff)

section \<open>Notification\<close>

text \<open>
  A done queue between the workers and its loop thread. A worker enqueues and then writes to the
  eventfd, two steps that others may come between; the loop thread reads the eventfd and then
  detaches the list, again two steps. \<open>d_writers\<close> counts the workers between their two steps,
  \<open>d_draining\<close> says that the loop thread is between its two.
\<close>

record 'j done_state =
  d_queue :: job_queue
  d_heap :: "'j qheap"
  d_event :: u64
  d_writers :: nat
  d_draining :: bool

inductive done_run :: "job_queue \<Rightarrow> 'j done_state \<Rightarrow> nat list \<Rightarrow> nat list \<Rightarrow> bool" for q0 where
  done_init: "done_run q0 \<lparr>d_queue = q0, d_heap = h, d_event = 0, d_writers = 0, d_draining = False\<rparr> [] []"
| done_push: "done_run q0 s ins outs \<Longrightarrow> d_heap s p \<noteq> None \<Longrightarrow> p \<notin> set (drop (length outs) ins) \<Longrightarrow>
    queue_push (d_queue s) (d_heap s) p = Ok (b, q', h') \<Longrightarrow>
    done_run q0 (s\<lparr>d_queue := q', d_heap := h',
      d_writers := d_writers s + (if queue_notifies (d_queue s) b then 1 else 0)\<rparr>) (if b then ins @ [p] else ins) outs"
| done_write: "done_run q0 s ins outs \<Longrightarrow> 0 < d_writers s \<Longrightarrow>
    done_run q0 (s\<lparr>d_event := eventfd_write (d_event s), d_writers := d_writers s - 1\<rparr>) ins outs"
| done_read: "done_run q0 s ins outs \<Longrightarrow> \<not> d_draining s \<Longrightarrow>
    done_run q0 (s\<lparr>d_event := drain_eventfd (d_event s), d_draining := True\<rparr>) ins outs"
| done_drain: "done_run q0 s ins outs \<Longrightarrow> d_draining s \<Longrightarrow> queue_drain (d_queue s) = (first, q') \<Longrightarrow>
    chain (nexts (d_heap s)) first ps \<Longrightarrow>
    done_run q0 (s\<lparr>d_queue := q', d_draining := False\<rparr>) ins (outs @ ps)"
| done_other: "done_run q0 s ins outs \<Longrightarrow> (\<And>p. p \<in> set (drop (length outs) ins) \<Longrightarrow> h' p = d_heap s p) \<Longrightarrow>
    done_run q0 (s\<lparr>d_heap := h'\<rparr>) ins outs"

lemma chain_unique: "chain c p xs \<Longrightarrow> chain c p ys \<Longrightarrow> xs = ys"
proof (induction xs arbitrary: p ys)
  case Nil
  then show ?case by (cases ys) auto
next
  case (Cons x xs)
  then show ?case by (cases ys) (auto split: option.splits)
qed

lemma queue_push_notify: "queue_push q h p = Ok (b, q', h') \<Longrightarrow> q_notify_fd q' = q_notify_fd q"
  by (auto simp: queue_push_def link_tail_def split: if_splits option.splits)

lemma eventfd_write_pos: "eventfd_write c \<noteq> 0"
proof -
  have "c + 1 \<noteq> 0" if "c < 0xFFFFFFFFFFFFFFFE"
  proof
    assume "c + 1 = 0"
    then have "c = - 1" by (simp add: eq_neg_iff_add_eq_0)
    then show False using that by simp
  qed
  then show ?thesis by (auto simp: eventfd_write_def)
qed

text \<open>The worker's order, enqueue and then write, and the loop's, read and then detach, together keep this.\<close>

definition done_inv :: "job_queue \<Rightarrow> 'j done_state \<Rightarrow> nat list \<Rightarrow> bool" where
  "done_inv q0 s xs \<longleftrightarrow> queue_holds (d_heap s) (d_queue s) xs \<and> q_notify_fd (d_queue s) = q_notify_fd q0 \<and>
     (xs = [] \<or> d_event s \<noteq> 0 \<or> 0 < d_writers s \<or> d_draining s)"

lemma done_run_inv:
  assumes "done_run q0 s ins outs" "\<And>h :: 'j qheap. queue_holds h q0 []" "0 \<le> q_notify_fd q0"
  shows "\<exists>xs. ins = outs @ xs \<and> done_inv q0 (s :: 'j done_state) xs"
  using assms(1)
proof induction
  case (done_init h)
  then show ?case using assms(2) by (simp add: done_inv_def)
next
  case (done_push s ins outs p b q' h')
  then obtain xs where xs: "ins = outs @ xs" "done_inv q0 s xs" by blast
  then have "p \<notin> set xs" using done_push(3) by simp
  with xq.push_law [of "d_heap s" "d_queue s" xs p] done_push(2,4) xs(2)
  have "queue_holds h' q' (if b then xs @ [p] else xs)" by (auto simp: done_inv_def)
  moreover have "q_notify_fd q' = q_notify_fd q0"
    using queue_push_notify [OF done_push(4)] xs(2) by (simp add: done_inv_def)
  ultimately show ?case using xs assms(3) by (auto simp: done_inv_def queue_notifies_def)
next
  case (done_drain s ins outs l q' ps)
  then obtain xs where xs: "ins = outs @ xs" "done_inv q0 s xs" by blast
  then have "chain (nexts (d_heap s)) l xs"
    using done_drain(3) by (auto simp: done_inv_def queue_holds_def queue_list_def queue_drain_def)
  then have "ps = xs" using chain_unique done_drain(4) by blast
  then show ?case using xs done_drain(3) by (auto simp: done_inv_def queue_holds_def queue_list_def queue_drain_def)
next
  case (done_other s ins outs h')
  then obtain xs where "ins = outs @ xs" "done_inv q0 s xs" by blast
  then show ?case using xq.holds_frame done_other(2) by (auto simp: done_inv_def)
qed (auto simp: done_inv_def eventfd_write_pos)

lemma queue_init_holds: "queue_holds h (queue_init cap fd) []" "srv_queue_holds h (srv_queue_init cap) []"
  by (simp_all add: queue_holds_def srv_queue_holds_def queue_list_def queue_init_def srv_queue_init_def)

section \<open>Properties\<close>

text \<open>C32: The pending queue hands out jobs in the order they were accepted, each once. Whatever pushes,
  pops and shutdowns the threads make, in any order, and whatever they do to jobs that are not
  queued, the jobs accepted so far are those handed out followed by those in the queue. There are
  never more than the capacity. The next pop returns the oldest of them, waits when there is none,
  or reports the shutdown when the queue is empty and closed; the next push is refused exactly when
  the queue is shut down or at its capacity. No operation follows a dangling pointer.\<close>

theorem pending_queue_fifo:
  assumes "queue_run queue_push queue_pop_wait queue_shutdown (queue_init cap fd) q h ins outs"
  shows "\<exists>xs. ins = outs @ xs \<and> (cap \<noteq> 0 \<longrightarrow> length xs \<le> unat cap) \<and>
    (case xs of
       [] \<Rightarrow> queue_pop_wait q h = Ok (if q_shutdown q then Some (None, q, h) else None)
     | x # _ \<Rightarrow> \<exists>q' h'. queue_pop_wait q h = Ok (Some (Some x, q', h'))) \<and>
    (\<forall>p. h p \<noteq> None \<and> p \<notin> set xs \<longrightarrow> (\<exists>q' h'. queue_push q h p =
       Ok (\<not> q_shutdown q \<and> (cap = 0 \<or> length xs < unat cap), q', h')))"
proof -
  obtain xs where xs: "ins = outs @ xs" "queue_holds h q xs" "queue_room q = queue_room (queue_init cap fd)"
    using xq.run_holds [OF assms queue_init_holds(1)] by blast
  have room: "queue_room q n \<longleftrightarrow> cap = 0 \<or> n < unat cap" for n
    unfolding xs(3) by (simp add: queue_room_def queue_init_def)
  have "q_cap q = cap"
    using assms by induction (auto simp: queue_init_def queue_push_def queue_pop_wait_def queue_shutdown_def
        link_tail_def unlink_head_def Let_def split: if_splits option.splits)
  then show ?thesis
    using xs xq.push_law [OF xs(2)] xq.pop_law [of h q] xq.pop_empty [of h q] room
    by (intro exI [of _ xs]) (auto simp: queue_holds_def split: list.split, blast+)
qed

text \<open>C33: No wakeup of a loop thread is lost. However the workers' pushes and eventfd writes interleave with
  the loop's reads and drains, a job that is in the done queue while no worker is about to write and
  the loop is not about to drain finds the eventfd readable, so the next \<^verbatim>\<open>poll\<close> returns at once; and
  a drain detaches exactly the jobs that were pushed and not yet taken, in their order.\<close>

theorem done_queue_wakes:
  assumes "done_run (queue_init 0 fd) s ins outs" "0 \<le> fd"
  shows "\<exists>xs. ins = outs @ xs \<and> chain (nexts (d_heap s)) (fst (queue_drain (d_queue s))) xs \<and>
    (xs \<noteq> [] \<and> d_writers s = 0 \<and> \<not> d_draining s \<longrightarrow> d_event s \<noteq> 0)"
proof -
  have "0 \<le> q_notify_fd (queue_init 0 fd)" using assms(2) by (simp add: queue_init_def)
  from done_run_inv [OF assms(1) queue_init_holds(1) this] show ?thesis
    by (auto simp: done_inv_def queue_drain_def queue_holds_def queue_list_def)
qed

definition demo_node :: "unit qnode" where
  "demo_node = \<lparr>qn_next = None, qn_job = ()\<rparr>"

definition demo_queue :: job_queue where
  "demo_queue = \<lparr>q_head = Some 5, q_tail = Some 5, q_count = 1, q_cap = 1, q_shutdown = False, q_notify_fd = 3\<rparr>"

lemma demo_push: "queue_push (queue_init 1 3) [5 \<mapsto> demo_node] 5 = Ok (True, demo_queue, [5 \<mapsto> demo_node])"
  by (simp add: queue_push_def link_tail_def set_next_def queue_init_def demo_queue_def demo_node_def)

theorem pending_queue_fifo_witness:
  "\<exists>xs. [5] = [] @ xs \<and> (1 \<noteq> (0 :: u32) \<longrightarrow> length xs \<le> unat (1 :: u32)) \<and>
    (case xs of
       [] \<Rightarrow> queue_pop_wait demo_queue [5 \<mapsto> demo_node] =
         Ok (if q_shutdown demo_queue then Some (None, demo_queue, [5 \<mapsto> demo_node]) else None)
     | x # _ \<Rightarrow> \<exists>q' h'. queue_pop_wait demo_queue [5 \<mapsto> demo_node] = Ok (Some (Some x, q', h'))) \<and>
    (\<forall>p. [5 \<mapsto> demo_node] p \<noteq> None \<and> p \<notin> set xs \<longrightarrow> (\<exists>q' h'. queue_push demo_queue [5 \<mapsto> demo_node] p =
       Ok (\<not> q_shutdown demo_queue \<and> (1 = (0 :: u32) \<or> length xs < unat (1 :: u32)), q', h')))"
proof (rule pending_queue_fifo [where fd = 3])
  show "queue_run queue_push queue_pop_wait queue_shutdown (queue_init 1 3) demo_queue [5 \<mapsto> demo_node] [5] []"
    using run_push [OF run_init [of queue_push queue_pop_wait queue_shutdown "queue_init 1 3" "[5 \<mapsto> demo_node]"], of 5] demo_push by simp
qed

theorem done_queue_wakes_witness:
  "\<exists>xs. [5] = [] @ xs \<and> chain (nexts [5 \<mapsto> demo_node]) (fst (queue_drain (demo_queue\<lparr>q_cap := 0\<rparr>))) xs \<and>
    (xs \<noteq> [] \<and> (0 :: nat) = 0 \<and> \<not> False \<longrightarrow> (1 :: u64) \<noteq> 0)"
proof -
  have p: "queue_push (queue_init 0 3) [5 \<mapsto> demo_node] 5 = Ok (True, demo_queue\<lparr>q_cap := 0\<rparr>, [5 \<mapsto> demo_node])"
    by (simp add: queue_push_def link_tail_def set_next_def queue_init_def demo_queue_def demo_node_def)
  have "done_run (queue_init 0 3) \<lparr>d_queue = demo_queue\<lparr>q_cap := 0\<rparr>, d_heap = [5 \<mapsto> demo_node], d_event = 0,
      d_writers = 1, d_draining = False\<rparr> [5] []"
    using done_push [OF done_init [of "queue_init 0 3" "[5 \<mapsto> demo_node]"], of 5 True "demo_queue\<lparr>q_cap := 0\<rparr>" "[5 \<mapsto> demo_node]"] p
    by (simp add: queue_notifies_def) (simp add: queue_init_def)
  from done_write [OF this] have "done_run (queue_init 0 3) \<lparr>d_queue = demo_queue\<lparr>q_cap := 0\<rparr>, d_heap = [5 \<mapsto> demo_node],
      d_event = 1, d_writers = 0, d_draining = False\<rparr> [5] []"
    by (simp add: eventfd_write_def)
  from done_queue_wakes [OF this] show ?thesis by simp
qed

end
