(* ===== verification/XskWorkers.thy ===== *)
theory XskWorkers
  imports XskRings JobQueue DnsBackend
begin

text \<open>
  Jobs between the packet loops and the workers (\<^verbatim>\<open>af_xdp_user.c\<close>): the loops push parsed jobs on the
  shared pending queue, the workers resolve them and push them on the done queue of the loop they
  came from, and each loop detaches its done queue.

  Jobs live in one heap. A critical section and a backend call are one step each; the writes a worker
  makes to a job it holds are part of the step that resolves it.
\<close>

section \<open>Definitions\<close>

definition MAX_XSKS :: nat where "MAX_XSKS = 16"
definition XSK_MAX_PENDING :: u32 where "XSK_MAX_PENDING = 4096"

record 's workers =
  wk_pending :: job_queue
  wk_done :: "job_queue list"
  wk_heap :: "dns_job qheap"
  wk_held :: "nat list"
  wk_backend :: 's
  wk_resolved_ok :: u64
  wk_resolved_drop :: u64

text \<open>The queues as \<^verbatim>\<open>main\<close> sets them up: \<open>fds\<close> has the eventfd of each loop.\<close>

definition workers_init :: "int list \<Rightarrow> 's \<Rightarrow> 's workers" where
  "workers_init fds backend = \<lparr>wk_pending = queue_init XSK_MAX_PENDING (- 1), wk_done = map (queue_init 0) fds,
     wk_heap = Map.empty, wk_held = [], wk_backend = backend, wk_resolved_ok = 0, wk_resolved_drop = 0\<rparr>"

text \<open>A loop hands over a job at address \<open>p\<close>, or frees it when the queue does not take it.\<close>

definition loop_push :: "nat \<Rightarrow> dns_job \<Rightarrow> 's workers \<Rightarrow> (bool \<times> 's workers) res" where
  "loop_push p job st =
     (let h = (wk_heap st)(p \<mapsto> \<lparr>qn_next = None, qn_job = job\<rparr>) in
      res_bind (queue_push (wk_pending st) h p) (\<lambda>(ok, q', h1).
        let st1 = st\<lparr>wk_pending := q', wk_heap := h1\<rparr> in
        if ok then Ok (True, st1)
        else res_bind (free_job p h1) (\<lambda>h2. Ok (False, st1\<lparr>wk_heap := h2\<rparr>))))"

definition xsk_worker_take :: "'s workers \<Rightarrow> ('s workers \<times> bool) option res" where
  "xsk_worker_take st = res_bind (queue_pop_wait (wk_pending st) (wk_heap st)) (\<lambda>r.
     case r of
       None \<Rightarrow> Ok None
     | Some (job, q', h') \<Rightarrow>
         let st1 = st\<lparr>wk_pending := q', wk_heap := h'\<rparr> in
         (case job of
            None \<Rightarrow> Ok (Some (st1, False))
          | Some p \<Rightarrow> Ok (Some (st1\<lparr>wk_held := wk_held st @ [p]\<rparr>, True))))"

definition xsk_worker_serve :: "'s service \<Rightarrow> nat \<Rightarrow> 's workers \<Rightarrow> 's workers res option" where
  "xsk_worker_serve respond p st =
     (case wk_heap st p of
        None \<Rightarrow> Some Fault
      | Some n \<Rightarrow>
          let job = qn_job n;
              discard = (\<lambda>st1. res_bind (free_job p (wk_heap st1)) (\<lambda>h'.
                          Ok (st1\<lparr>wk_heap := h', wk_held := remove1 p (wk_held st1)\<rparr>))) in
          (case respond (j_query job) DNS_MAX_MSG_LEN True (wk_backend st) of
             None \<Rightarrow> None
           | Some (Fault, b) \<Rightarrow> Some Fault
           | Some (Err, b) \<Rightarrow>
               Some (discard (st\<lparr>wk_backend := b, wk_resolved_drop := wk_resolved_drop st + 1\<rparr>))
           | Some (Ok resp, b) \<Rightarrow>
               if length resp = 0 then
                 Some (discard (st\<lparr>wk_backend := b, wk_resolved_drop := wk_resolved_drop st + 1\<rparr>))
               else
                 let h = (wk_heap st)(p \<mapsto> n\<lparr>qn_job := job\<lparr>j_resp := resp\<rparr>\<rparr>);
                     st1 = st\<lparr>wk_backend := b, wk_heap := h, wk_resolved_ok := wk_resolved_ok st + 1\<rparr>;
                     i = unat (j_loop_idx job) in
                 if length (wk_done st1) \<le> i then Some Fault
                 else Some (res_bind (queue_push (wk_done st1 ! i) h p) (\<lambda>(ok, q', h1).
                   let st2 = st1\<lparr>wk_done := (wk_done st1)[i := q'], wk_heap := h1\<rparr> in
                   if ok then Ok (st2\<lparr>wk_held := remove1 p (wk_held st2)\<rparr>) else discard st2))))"

text \<open>
  A loop walks the list it detached and frees each job after use; the jobs are what it transmits.
  The walk takes fuel, and running out is a \<open>Fault\<close>.
\<close>

fun walk_jobs :: "nat \<Rightarrow> nat option \<Rightarrow> dns_job qheap \<Rightarrow> (dns_job list \<times> dns_job qheap) res" where
  "walk_jobs n None h = Ok ([], h)"
| "walk_jobs 0 (Some p) h = Fault"
| "walk_jobs (Suc n) (Some p) h =
     (case h p of
        None \<Rightarrow> Fault
      | Some nd \<Rightarrow> res_bind (free_job p h) (\<lambda>h1.
                   res_bind (walk_jobs n (qn_next nd) h1) (\<lambda>(js, h2). Ok (qn_job nd # js, h2))))"

definition loop_drain :: "nat \<Rightarrow> nat \<Rightarrow> 's workers \<Rightarrow> (dns_job list \<times> 's workers) res" where
  "loop_drain fuel i st =
     (if length (wk_done st) \<le> i then Fault
      else let (first, q') = queue_drain (wk_done st ! i) in
        res_bind (walk_jobs fuel first (wk_heap st)) (\<lambda>(js, h').
          Ok (js, st\<lparr>wk_done := (wk_done st)[i := q'], wk_heap := h'\<rparr>)))"

section \<open>Runs\<close>

text \<open>
  \<open>ins\<close> are the jobs handed over by the loops; \<open>outs\<close> the jobs transmitted, each with the loop that did.
  A job a loop hands over is one that \<^verbatim>\<open>parse_frame\<close> made for that loop.
\<close>

inductive workers_run :: "('i \<Rightarrow> 's service) \<Rightarrow> int list \<Rightarrow> 's \<Rightarrow> 's workers \<Rightarrow> dns_job list \<Rightarrow> (nat \<times> dns_job) list \<Rightarrow> bool"
  for respond fds backend where
  wk_start: "workers_run respond fds backend (workers_init fds backend) [] []"
| wk_push: "workers_run respond fds backend st ins outs \<Longrightarrow> wk_heap st p = None \<Longrightarrow> i < length fds \<Longrightarrow>
    parse_frame True now pkt i = Ok (Some job) \<Longrightarrow> loop_push p job st = Ok (ok, st') \<Longrightarrow>
    workers_run respond fds backend st' (ins @ [job]) outs"
| wk_take: "workers_run respond fds backend st ins outs \<Longrightarrow> xsk_worker_take st = Ok (Some (st', alive)) \<Longrightarrow>
    workers_run respond fds backend st' ins outs"
| wk_serve: "workers_run respond fds backend st ins outs \<Longrightarrow> p \<in> set (wk_held st) \<Longrightarrow>
    xsk_worker_serve (respond k) p st = Some (Ok st') \<Longrightarrow> workers_run respond fds backend st' ins outs"
| wk_drain: "workers_run respond fds backend st ins outs \<Longrightarrow> i < length fds \<Longrightarrow> loop_drain fuel i st = Ok (js, st') \<Longrightarrow>
    workers_run respond fds backend st' ins (outs @ map (Pair i) js)"
| wk_stop: "workers_run respond fds backend st ins outs \<Longrightarrow>
    workers_run respond fds backend (st\<lparr>wk_pending := queue_shutdown (wk_pending st)\<rparr>) ins outs"

text \<open>A job as a loop may transmit it: one that came in on that loop, with a reply to its query.\<close>

definition transmits :: "dns_job list \<Rightarrow> nat \<Rightarrow> dns_job \<Rightarrow> bool" where
  "transmits ins i job \<longleftrightarrow> (\<exists>j \<in> set ins. job = j\<lparr>j_resp := j_resp job\<rparr> \<and> unat (j_loop_idx j) = i \<and>
     reply_to (j_query j) (j_resp job) \<and> job_ok job)"

text \<open>\<open>xs\<close> are the pending jobs and \<open>yss\<close> the jobs of each done queue.\<close>

definition workers_inv ::
  "('s \<Rightarrow> bool) \<Rightarrow> int list \<Rightarrow> 's workers \<Rightarrow> dns_job list \<Rightarrow> nat list \<Rightarrow> nat list list \<Rightarrow> bool" where
  "workers_inv ready fds st ins xs yss \<longleftrightarrow>
     ready (wk_backend st) \<and> queue_holds (wk_heap st) (wk_pending st) xs \<and>
     length (wk_done st) = length fds \<and> length yss = length fds \<and>
     (\<forall>i < length fds. queue_holds (wk_heap st) (wk_done st ! i) (yss ! i)) \<and>
     (\<forall>i < length fds. \<not> q_shutdown (wk_done st ! i) \<and> (\<forall>n. queue_room (wk_done st ! i) n)) \<and>
     distinct (xs @ wk_held st @ concat yss) \<and> dom (wk_heap st) = set (xs @ wk_held st @ concat yss) \<and>
     (\<forall>p \<in> set (xs @ wk_held st). qn_job (the (wk_heap st p)) \<in> set ins) \<and>
     (\<forall>i < length fds. \<forall>p \<in> set (yss ! i). transmits ins i (qn_job (the (wk_heap st p)))) \<and>
     (\<forall>j \<in> set ins. job_ok j \<and> unat (j_loop_idx j) < length fds)"

lemma mset_concat_update:
  "i < length yss \<Longrightarrow> mset (concat (yss[i := ys])) + mset (yss ! i) = mset (concat yss) + mset ys"
proof (induction yss arbitrary: i)
  case (Cons y yss)
  then show ?case by (cases i) (auto simp: ac_simps)
qed simp

lemma concat_disjoint:
  "distinct (concat yss) \<Longrightarrow> i < length yss \<Longrightarrow> k < length yss \<Longrightarrow> i \<noteq> k \<Longrightarrow> set (yss ! i) \<inter> set (yss ! k) = {}"
proof (induction yss arbitrary: i k)
  case (Cons y yss)
  have "set y \<inter> set (yss ! j) = {}" if "j < length yss" for j using Cons.prems(1) nth_mem [OF that] by auto
  then show ?case using Cons by (cases i; cases k) (auto simp: Int_commute)
qed simp

lemma done_frame:
  assumes "\<forall>i < length yss. queue_holds h (qs ! i) (yss ! i)" "\<And>p. p \<in> set (concat yss) \<Longrightarrow> h' p = h p"
  shows "\<forall>i < length yss. queue_holds h' (qs ! i) (yss ! i)"
proof (intro allI impI)
  fix i assume i: "i < length yss"
  then have sub: "set (yss ! i) \<subseteq> set (concat yss)" using nth_mem by fastforce
  show "queue_holds h' (qs ! i) (yss ! i)"
    by (rule xq.holds_frame [OF assms(1) [rule_format, OF i] assms(2) [OF subsetD [OF sub]]])
qed

text \<open>The queries of the live jobs: the jobs as they were handed over, before a reply was written to them.\<close>

definition unanswered :: "dns_job \<Rightarrow> dns_job" where
  "unanswered job = job\<lparr>j_resp := []\<rparr>"

definition live :: "dns_job qheap \<Rightarrow> dns_job multiset" where
  "live h = image_mset (\<lambda>p. unanswered (qn_job (the (h p)))) (mset_set (dom h))"

lemma live_relinks: "relinks S h h' \<Longrightarrow> live h' = live h"
  unfolding live_def relinks_jobs(1)
  by (intro image_mset_cong) (metis elem_mset_set infinite_set_mset_mset_set empty_iff relinks_jobs(2))

lemma live_insert:
  assumes "finite (dom h)" "p \<notin> dom h"
  shows "live (h(p \<mapsto> n)) = add_mset (unanswered (qn_job n)) (live h)"
proof -
  have "image_mset (\<lambda>q. unanswered (qn_job (the ((h(p \<mapsto> n)) q)))) (mset_set (dom h)) = live h"
    unfolding live_def by (intro image_mset_cong) (use assms in auto)
  then show ?thesis using assms by (simp add: live_def)
qed

lemma live_delete:
  assumes "finite (dom h)" "h p = Some n"
  shows "live h = add_mset (unanswered (qn_job n)) (live (h(p := None)))"
  using live_insert [of "h(p := None)" p n] assms by (simp add: fun_upd_idem)

lemma live_replace:
  assumes "finite (dom h)" "h p = Some n" "unanswered (qn_job n') = unanswered (qn_job n)"
  shows "live (h(p \<mapsto> n')) = live h"
  using live_insert [of "h(p := None)" p n'] live_delete [OF assms(1,2)] assms by simp

lemma live_delete_list:
  assumes "finite (dom h)" "distinct ps" "set ps \<subseteq> dom h"
  shows "live h = live (\<lambda>p. if p \<in> set ps then None else h p) + mset (map (\<lambda>p. unanswered (qn_job (the (h p)))) ps)"
  using assms
proof (induction ps arbitrary: h)
  case (Cons p ps)
  obtain n where n: "h p = Some n" using Cons.prems(3) by auto
  define h1 where "h1 = h(p := None)"
  have same: "map (\<lambda>q. unanswered (qn_job (the (h1 q)))) ps = map (\<lambda>q. unanswered (qn_job (the (h q)))) ps"
    using Cons.prems(2) by (auto simp: h1_def)
  have eq: "(\<lambda>q. if q \<in> set ps then None else h1 q) = (\<lambda>q. if q \<in> set (p # ps) then None else h q)" by (auto simp: h1_def)
  have "live h1 = live (\<lambda>q. if q \<in> set ps then None else h1 q) + mset (map (\<lambda>q. unanswered (qn_job (the (h1 q)))) ps)"
  proof (rule Cons.IH)
    have dom: "dom h1 = dom h - {p}" by (simp add: h1_def)
    show "finite (dom h1)" "distinct ps" "set ps \<subseteq> dom h1" using Cons.prems unfolding dom by auto
  qed
  then show ?case using live_delete [OF Cons.prems(1) n, folded h1_def] n unfolding same eq by simp
qed simp

lemma walk_jobs_ok:
  "chain (nexts h) a ps \<Longrightarrow> distinct ps \<Longrightarrow> length ps \<le> fuel \<Longrightarrow>
    walk_jobs fuel a h = Ok (map (\<lambda>p. qn_job (the (h p))) ps, \<lambda>p. if p \<in> set ps then None else h p)"
proof (induction ps arbitrary: a h fuel)
  case (Cons p ps)
  obtain nd where nd: "h p = Some nd" "a = Some p" "chain (nexts h) (qn_next nd) ps"
    using Cons.prems(1) nexts_def [of h p] by (cases "h p") auto
  obtain n where fuel: "fuel = Suc n" "length ps \<le> n" using Cons.prems(3) by (cases fuel) auto
  define h1 where "h1 = h(p := None)"
  have "chain (nexts h1) (qn_next nd) ps \<longleftrightarrow> chain (nexts h) (qn_next nd) ps"
    by (rule chain_frame) (use Cons.prems(2) in \<open>auto simp: nexts_def h1_def\<close>)
  then have "walk_jobs n (qn_next nd) h1 = Ok (map (\<lambda>q. qn_job (the (h1 q))) ps, \<lambda>q. if q \<in> set ps then None else h1 q)"
    using Cons.IH [of h1 "qn_next nd" n] nd(3) Cons.prems(2) fuel(2) by simp
  moreover have "map (\<lambda>q. qn_job (the (h1 q))) ps = map (\<lambda>q. qn_job (the (h q))) ps"
    using Cons.prems(2) by (auto simp: h1_def)
  moreover have "(\<lambda>q. if q \<in> set ps then None else h1 q) = (\<lambda>q. if q \<in> set (p # ps) then None else h q)"
    by (auto simp: h1_def)
  ultimately show ?case using nd fuel(1) by (simp add: free_job_def h1_def [symmetric])
qed simp

lemma walk_jobs_fuel:
  "chain (nexts h) a ps \<Longrightarrow> distinct ps \<Longrightarrow> walk_jobs fuel a h = Ok r \<Longrightarrow> length ps \<le> fuel"
proof (induction ps arbitrary: a h fuel r)
  case (Cons p ps)
  obtain nd where nd: "h p = Some nd" "a = Some p" "chain (nexts h) (qn_next nd) ps"
    using Cons.prems(1) nexts_def [of h p] by (cases "h p") auto
  obtain n where fuel: "fuel = Suc n" using Cons.prems(3) nd(2) by (cases fuel) auto
  define h1 where "h1 = h(p := None)"
  have "chain (nexts h1) (qn_next nd) ps \<longleftrightarrow> chain (nexts h) (qn_next nd) ps"
    by (rule chain_frame) (use Cons.prems(2) in \<open>auto simp: nexts_def h1_def\<close>)
  moreover obtain r1 where "walk_jobs n (qn_next nd) h1 = Ok r1"
    using Cons.prems(3) nd(1,2) fuel by (auto simp: free_job_def h1_def)
  ultimately have "length ps \<le> n" using Cons.IH [of h1 "qn_next nd" n r1] nd(3) Cons.prems(2) by simp
  then show ?case using fuel by simp
qed simp

lemma transmits_mono: "transmits ins i job \<Longrightarrow> transmits (ins @ js) i job"
  by (auto simp: transmits_def)

text \<open>What remains to be shown of the invariant when the queues and the heap have changed.\<close>

lemma workers_invI:
  assumes "ready (wk_backend st)" "queue_holds (wk_heap st) (wk_pending st) xs"
    "length (wk_done st) = length fds" "length yss = length fds" "\<forall>i < length yss. queue_holds (wk_heap st) (wk_done st ! i) (yss ! i)"
    "\<forall>i < length fds. \<not> q_shutdown (wk_done st ! i) \<and> (\<forall>n. queue_room (wk_done st ! i) n)"
    "distinct (xs @ wk_held st @ concat yss)" "dom (wk_heap st) = set (xs @ wk_held st @ concat yss)"
    "\<And>p. p \<in> set (xs @ wk_held st) \<Longrightarrow> qn_job (the (wk_heap st p)) \<in> set ins"
    "\<And>i p. i < length fds \<Longrightarrow> p \<in> set (yss ! i) \<Longrightarrow> transmits ins i (qn_job (the (wk_heap st p)))"
    "\<And>j. j \<in> set ins \<Longrightarrow> job_ok j \<and> unat (j_loop_idx j) < length fds"
  shows "workers_inv ready fds st ins xs yss"
  using assms unfolding workers_inv_def by auto

lemma inv_member:
  assumes "workers_inv ready fds st ins xs yss" "i < length fds" "p \<in> set (yss ! i)"
  shows "p \<in> set (concat yss)" "p \<in> dom (wk_heap st)"
proof -
  have "yss ! i \<in> set yss" using assms(1,2) by (simp add: workers_inv_def)
  then show "p \<in> set (concat yss)" using assms(3) by auto
  then show "p \<in> dom (wk_heap st)" using assms(1) by (simp add: workers_inv_def)
qed

lemma wk_push_inv:
  assumes inv: "workers_inv ready fds st ins xs yss" and fresh: "wk_heap st p = None"
    and job: "job_ok job" "unat (j_loop_idx job) < length fds"
  shows "\<exists>ok st' xs'. loop_push p job st = Ok (ok, st') \<and> workers_inv ready fds st' (ins @ [job]) xs' yss \<and>
    live (wk_heap st') \<subseteq># add_mset (unanswered job) (live (wk_heap st))"
proof -
  let ?q = "wk_pending st" and ?h1 = "(wk_heap st)(p \<mapsto> \<lparr>qn_next = None, qn_job = job\<rparr>)"
  have dom: "dom (wk_heap st) = set (xs @ wk_held st @ concat yss)" and len: "length yss = length fds"
    using inv by (simp_all add: workers_inv_def)
  have fin: "finite (dom (wk_heap st))" unfolding dom by simp
  have d: "p \<notin> set (xs @ wk_held st @ concat yss)" "distinct (xs @ wk_held st @ concat yss)"
    using inv domIff [of p "wk_heap st"] fresh unfolding dom by (simp_all add: workers_inv_def)
  have h: "queue_holds ?h1 ?q xs"
    by (rule xq.holds_frame [of "wk_heap st"]) (use inv d in \<open>auto simp: workers_inv_def\<close>)
  define ok where "ok = (\<not> q_shutdown ?q \<and> queue_room ?q (length xs))"
  obtain q' h2 where push: "queue_push ?q ?h1 p = Ok (ok, q', h2)" "queue_holds h2 q' (if ok then xs @ [p] else xs)"
      "relinks (insert p (set xs)) ?h1 h2"
    using xq.push_law [OF h, of p] d unfolding ok_def by auto
  have dom2: "dom h2 = insert p (dom (wk_heap st))" using relinks_jobs(1) [OF push(3)] by simp
  have J: "qn_job (the (h2 r)) = qn_job (the (wk_heap st r))" if "r \<in> dom (wk_heap st)" for r
    using relinks_jobs(2) [OF push(3), of r] that fresh by auto
  have Jp: "qn_job (the (h2 p)) = job" using relinks_jobs(2) [OF push(3), of p] by simp
  define h3 where "h3 = (if ok then h2 else h2(p := None))"
  let ?st = "st\<lparr>wk_pending := q', wk_heap := h3\<rparr>" and ?xs = "if ok then xs @ [p] else xs"
  have "h2 p \<noteq> None" using dom2 by auto
  then have "loop_push p job st = Ok (ok, ?st)"
    using push(1) by (auto simp: loop_push_def free_job_def h3_def Let_def split: option.split)
  moreover have "live h2 = add_mset (unanswered job) (live (wk_heap st))"
    using live_relinks [OF push(3)] live_insert [OF fin, of p "\<lparr>qn_next = None, qn_job = job\<rparr>"] fresh by (simp add: domIff)
  moreover from this have "live (h2(p := None)) = live (wk_heap st)"
    using live_delete [of h2 p "the (h2 p)"] Jp dom2 fin \<open>h2 p \<noteq> None\<close> by simp
  ultimately have "loop_push p job st = Ok (ok, ?st)" "live (wk_heap ?st) \<subseteq># add_mset (unanswered job) (live (wk_heap st))"
    by (auto simp: h3_def)
  moreover have "workers_inv ready fds ?st (ins @ [job]) ?xs yss"
  proof (rule workers_invI)
    have "queue_holds h3 q' ?xs" by (rule xq.holds_frame [OF push(2)]) (use d in \<open>auto simp: h3_def\<close>)
    then show "queue_holds (wk_heap ?st) (wk_pending ?st) ?xs" by simp
    have "\<forall>i < length yss. queue_holds h3 (wk_done st ! i) (yss ! i)"
    proof (rule done_frame)
      show "\<forall>i < length yss. queue_holds (wk_heap st) (wk_done st ! i) (yss ! i)" using inv len by (simp add: workers_inv_def)
      fix r assume "r \<in> set (concat yss)"
      then have "r \<notin> insert p (set xs)" using d by auto
      then show "h3 r = wk_heap st r" using push(3) by (auto simp: relinks_def h3_def)
    qed
    then show "\<forall>i < length yss. queue_holds (wk_heap ?st) (wk_done ?st ! i) (yss ! i)" by simp
    show "dom (wk_heap ?st) = set (?xs @ wk_held ?st @ concat yss)"
      using dom2 dom d(1) by (auto simp: h3_def)
    fix r assume r: "r \<in> set (?xs @ wk_held ?st)"
    then show "qn_job (the (wk_heap ?st r)) \<in> set (ins @ [job])"
      using inv J [of r] Jp dom d(1) by (auto simp: h3_def workers_inv_def split: if_splits)
  next
    fix i r assume "i < length fds" "r \<in> set (yss ! i)"
    then have "transmits ins i (qn_job (the (wk_heap st r)))" "r \<in> dom (wk_heap st)" "r \<noteq> p"
      using inv inv_member [OF inv] d(1) by (auto simp: workers_inv_def)
    then show "transmits (ins @ [job]) i (qn_job (the (wk_heap ?st r)))" using J transmits_mono by (simp add: h3_def)
  qed (use inv d job len in \<open>auto simp: workers_inv_def split: if_splits\<close>)
  ultimately show ?thesis by blast
qed

lemma wk_take_inv:
  assumes inv: "workers_inv ready fds st ins xs yss"
  shows "case xs of
      [] \<Rightarrow> xsk_worker_take st = Ok (if q_shutdown (wk_pending st) then Some (st, False) else None)
    | x # ys \<Rightarrow> \<exists>st'. xsk_worker_take st = Ok (Some (st', True)) \<and> workers_inv ready fds st' ins ys yss \<and>
        live (wk_heap st') = live (wk_heap st)"
proof (cases xs)
  case Nil
  then show ?thesis
    using inv xq.pop_empty [of "wk_heap st" "wk_pending st"] by (simp add: workers_inv_def xsk_worker_take_def)
next
  case (Cons x ys)
  then obtain q' h' where pop: "queue_pop_wait (wk_pending st) (wk_heap st) = Ok (Some (Some x, q', h'))"
      "queue_holds h' q' ys" "relinks {x} (wk_heap st) h'"
    using inv xq.pop_law [of "wk_heap st" "wk_pending st" x ys] by (auto simp: workers_inv_def)
  have d: "distinct (xs @ wk_held st @ concat yss)" "dom (wk_heap st) = set (xs @ wk_held st @ concat yss)" "length yss = length fds"
    using inv by (simp_all add: workers_inv_def)
  note J = relinks_jobs [OF pop(3)]
  let ?st = "st\<lparr>wk_pending := q', wk_heap := h', wk_held := wk_held st @ [x]\<rparr>"
  have "xsk_worker_take st = Ok (Some (?st, True))" using pop(1) by (simp add: xsk_worker_take_def)
  moreover have "workers_inv ready fds ?st ins ys yss"
  proof (rule workers_invI)
    have "\<forall>i < length yss. queue_holds h' (wk_done st ! i) (yss ! i)"
    proof (rule done_frame)
      show "\<forall>i < length yss. queue_holds (wk_heap st) (wk_done st ! i) (yss ! i)" using inv d(3) by (simp add: workers_inv_def)
      fix r assume "r \<in> set (concat yss)"
      then have "r \<notin> {x}" using d(1) Cons by auto
      then show "h' r = wk_heap st r" using pop(3) by (auto simp: relinks_def)
    qed
    then show "\<forall>i < length yss. queue_holds (wk_heap ?st) (wk_done ?st ! i) (yss ! i)" by simp
    show "dom (wk_heap ?st) = set (ys @ wk_held ?st @ concat yss)" using J(1) d(2) Cons by auto
    fix r assume "r \<in> set (ys @ wk_held ?st)"
    then have "r \<in> set (xs @ wk_held st)" using Cons by auto
    then show "qn_job (the (wk_heap ?st r)) \<in> set ins" using inv J(2) d(2) by (auto simp: workers_inv_def)
  next
    fix i r assume "i < length fds" "r \<in> set (yss ! i)"
    then show "transmits ins i (qn_job (the (wk_heap ?st r)))"
      using inv inv_member [OF inv] J(2) by (auto simp: workers_inv_def)
  qed (use inv pop d Cons in \<open>auto simp: workers_inv_def\<close>)
  ultimately show ?thesis using Cons live_relinks [OF pop(3)] by auto
qed

lemma wk_discard_inv:
  assumes inv: "workers_inv ready fds st ins xs yss" and p: "p \<in> set (wk_held st)"
  shows "\<exists>h. free_job p (wk_heap st) = Ok h \<and>
    workers_inv ready fds (st\<lparr>wk_heap := h, wk_held := remove1 p (wk_held st)\<rparr>) ins xs yss \<and>
    live h \<subseteq># live (wk_heap st)"
proof -
  have d: "distinct (xs @ wk_held st @ concat yss)" "dom (wk_heap st) = set (xs @ wk_held st @ concat yss)" "length yss = length fds"
    using inv by (simp_all add: workers_inv_def)
  let ?h = "(wk_heap st)(p := None)" and ?held = "remove1 p (wk_held st)"
  let ?st = "st\<lparr>wk_heap := ?h, wk_held := ?held\<rparr>"
  have out: "p \<notin> set (xs @ ?held @ concat yss)" using d(1) p by auto
  obtain n where "wk_heap st p = Some n" using d(2) p by auto
  then have "free_job p (wk_heap st) = Ok ?h" "live ?h \<subseteq># live (wk_heap st)"
    using live_delete [of "wk_heap st" p n] d(2) by (simp_all add: free_job_def)
  moreover have "workers_inv ready fds ?st ins xs yss"
  proof (rule workers_invI)
    have "queue_holds ?h (wk_pending st) xs"
      by (rule xq.holds_frame [of "wk_heap st"]) (use inv out in \<open>auto simp: workers_inv_def\<close>)
    then show "queue_holds (wk_heap ?st) (wk_pending ?st) xs" by simp
    have "\<forall>i < length yss. queue_holds ?h (wk_done st ! i) (yss ! i)"
      by (rule done_frame [of _ "wk_heap st"]) (use inv d(3) out in \<open>auto simp: workers_inv_def\<close>)
    then show "\<forall>i < length yss. queue_holds (wk_heap ?st) (wk_done ?st ! i) (yss ! i)" by simp
    show "dom (wk_heap ?st) = set (xs @ wk_held ?st @ concat yss)" using d(1,2) p by auto
    show "distinct (xs @ wk_held ?st @ concat yss)" using d(1) by (auto dest: notin_set_remove1)
    fix r assume "r \<in> set (xs @ wk_held ?st)"
    then show "qn_job (the (wk_heap ?st r)) \<in> set ins"
      using inv out by (auto simp: workers_inv_def dest: notin_set_remove1)
  next
    fix i r assume "i < length fds" "r \<in> set (yss ! i)"
    then show "transmits ins i (qn_job (the (wk_heap ?st r)))"
      using inv inv_member(1) [OF inv] out by (auto simp: workers_inv_def)
  qed (use inv d in \<open>auto simp: workers_inv_def\<close>)
  ultimately show ?thesis by auto
qed

text \<open>A worker that has a reply puts the job on the done queue of the loop it came from.\<close>

lemma wk_finish_inv:
  assumes inv: "workers_inv ready fds st ins xs yss" and p: "p \<in> set (wk_held st)" "wk_heap st p = Some n"
    and resp: "reply_to (j_query (qn_job n)) resp" "length resp \<le> DNS_MAX_MSG_LEN"
  defines "i \<equiv> unat (j_loop_idx (qn_job n))" and "h \<equiv> (wk_heap st)(p \<mapsto> n\<lparr>qn_job := (qn_job n)\<lparr>j_resp := resp\<rparr>\<rparr>)"
  shows "i < length (wk_done st) \<and> (\<exists>q' h1. queue_push (wk_done st ! i) h p = Ok (True, q', h1) \<and>
    workers_inv ready fds (st\<lparr>wk_done := (wk_done st)[i := q'], wk_heap := h1, wk_held := remove1 p (wk_held st)\<rparr>) ins xs
      (yss[i := yss ! i @ [p]]) \<and> live h1 = live (wk_heap st))"
proof -
  have d: "distinct (xs @ wk_held st @ concat yss)" "dom (wk_heap st) = set (xs @ wk_held st @ concat yss)"
    "length yss = length fds" "length (wk_done st) = length fds"
    using inv by (simp_all add: workers_inv_def)
  have "qn_job (the (wk_heap st p)) \<in> set ins" using inv p(1) by (simp add: workers_inv_def)
  then have job: "qn_job n \<in> set ins" using p(2) by simp
  then have jok: "job_ok (qn_job n)" and i: "i < length fds" using inv by (auto simp: workers_inv_def i_def)
  have yi: "set (yss ! i) \<subseteq> set (concat yss)" using inv_member(1) [OF inv i] by blast
  have out: "p \<notin> set xs" "p \<notin> set (concat yss)" using d(1) p(1) by auto
  then have outi: "p \<notin> set (yss ! i)" using yi by blast
  have "queue_holds h (wk_done st ! i) (yss ! i)"
    by (rule xq.holds_frame [of "wk_heap st"]) (use inv i outi in \<open>auto simp: workers_inv_def h_def\<close>)
  moreover have "\<not> q_shutdown (wk_done st ! i) \<and> queue_room (wk_done st ! i) (length (yss ! i))"
    using inv i by (simp add: workers_inv_def)
  ultimately obtain q' h1 where push: "queue_push (wk_done st ! i) h p = Ok (True, q', h1)" "queue_holds h1 q' (yss ! i @ [p])"
      "relinks (insert p (set (yss ! i))) h h1" "queue_room q' = queue_room (wk_done st ! i)" "q_shutdown q' = q_shutdown (wk_done st ! i)"
    using xq.push_law [of h "wk_done st ! i" "yss ! i" p] outi by (auto simp: h_def)
  have keep: "h1 r = wk_heap st r" if "r \<noteq> p" "r \<notin> set (yss ! i)" for r
    using push(3) that by (auto simp: relinks_def h_def)
  have J: "qn_job (the (h1 r)) = qn_job (the (wk_heap st r))" if "r \<in> dom (wk_heap st)" "r \<noteq> p" for r
    using relinks_jobs(2) [OF push(3), of r] that by (auto simp: h_def)
  have Jp: "qn_job (the (h1 p)) = (qn_job n)\<lparr>j_resp := resp\<rparr>" using relinks_jobs(2) [OF push(3), of p] by (simp add: h_def)
  let ?yss = "yss[i := yss ! i @ [p]]" and ?held = "remove1 p (wk_held st)"
  let ?st = "st\<lparr>wk_done := (wk_done st)[i := q'], wk_heap := h1, wk_held := ?held\<rparr>"
  have "mset (concat ?yss) = mset (concat yss) + {#p#}"
    using mset_concat_update [of i yss "yss ! i @ [p]"] i d(3) by simp
  then have m: "mset (xs @ ?held @ concat ?yss) = mset (xs @ wk_held st @ concat yss)" using p(1) by simp
  have "workers_inv ready fds ?st ins xs ?yss"
  proof (rule workers_invI)
    have "set xs \<inter> set (concat yss) = {}" using d(1) by auto
    then have "h1 r = wk_heap st r" if "r \<in> set xs" for r using keep [of r] out(1) yi that by blast
    moreover have "queue_holds (wk_heap st) (wk_pending st) xs" using inv by (simp add: workers_inv_def)
    ultimately have "queue_holds h1 (wk_pending st) xs" by (rule xq.holds_frame [rotated])
    then show "queue_holds (wk_heap ?st) (wk_pending ?st) xs" by simp
    show "\<forall>k < length ?yss. queue_holds (wk_heap ?st) (wk_done ?st ! k) (?yss ! k)"
    proof (intro allI impI)
      fix k assume k: "k < length ?yss"
      show "queue_holds (wk_heap ?st) (wk_done ?st ! k) (?yss ! k)"
      proof (cases "k = i")
        case True
        then show ?thesis using push(2) i d by simp
      next
        case False
        have "set (yss ! k) \<inter> set (yss ! i) = {}" using concat_disjoint [of yss k i] d i k False by simp
        moreover have "p \<notin> set (yss ! k)" using out(2) k d(3) inv_member(1) [OF inv, of k] by auto
        ultimately have "h1 r = wk_heap st r" if "r \<in> set (yss ! k)" for r using keep [of r] that by blast
        moreover have "queue_holds (wk_heap st) (wk_done st ! k) (yss ! k)" using inv k d(3) by (simp add: workers_inv_def)
        ultimately have "queue_holds h1 (wk_done st ! k) (yss ! k)" by (rule xq.holds_frame [rotated])
        then show ?thesis using False by simp
      qed
    qed
    show "\<forall>k < length fds. \<not> q_shutdown (wk_done ?st ! k) \<and> (\<forall>n. queue_room (wk_done ?st ! k) n)"
      using inv push(4,5) d(4) i by (auto simp: workers_inv_def nth_list_update)
    show "distinct (xs @ wk_held ?st @ concat ?yss)" using mset_eq_imp_distinct_iff [OF m] d(1) by simp
    show "dom (wk_heap ?st) = set (xs @ wk_held ?st @ concat ?yss)"
      using relinks_jobs(1) [OF push(3)] mset_eq_setD [OF m] d(2) p by (simp add: h_def insert_absorb)
    fix r assume r: "r \<in> set (xs @ wk_held ?st)"
    then have "r \<in> set (xs @ wk_held st)" "r \<noteq> p" using out(1) d(1) by (auto dest: notin_set_remove1)
    then show "qn_job (the (wk_heap ?st r)) \<in> set ins" using inv J [of r] d(2) by (auto simp: workers_inv_def)
  next
    fix k r assume k: "k < length fds" "r \<in> set (?yss ! k)"
    show "transmits ins k (qn_job (the (wk_heap ?st r)))"
    proof (cases "r = p")
      case True
      then have "k = i" using k out(2) inv_member(1) [OF inv k(1), of p] by (cases "k = i") auto
      then show ?thesis using True Jp job resp jok by (auto simp: transmits_def i_def job_ok_def intro!: bexI [of _ "qn_job n"])
    next
      case False
      then have "r \<in> set (yss ! k)" using k d(3) by (cases "k = i") auto
      then show ?thesis using inv J [OF inv_member(2) [OF inv k(1)] False] k(1) by (auto simp: workers_inv_def)
    qed
  qed (use inv d in \<open>auto simp: workers_inv_def\<close>)
  moreover have "live h1 = live (wk_heap st)"
    using live_relinks [OF push(3)] live_replace [of "wk_heap st" p n] d(2) p(2) by (simp add: h_def unanswered_def)
  ultimately show ?thesis using push(1) i d(4) by auto
qed

lemma wk_serve_inv:
  assumes inv: "workers_inv ready fds st ins xs yss" and p: "p \<in> set (wk_held st)" and svc: "dns_service respond ready"
  shows "xsk_worker_serve respond p st = None \<or>
    (\<exists>st' yss'. xsk_worker_serve respond p st = Some (Ok st') \<and> workers_inv ready fds st' ins xs yss' \<and>
      live (wk_heap st') \<subseteq># live (wk_heap st))"
proof -
  have "p \<in> dom (wk_heap st)" and rd: "ready (wk_backend st)" using inv p by (auto simp: workers_inv_def)
  then obtain n where n: "wk_heap st p = Some n" by blast
  show ?thesis
  proof (cases "respond (j_query (qn_job n)) DNS_MAX_MSG_LEN True (wk_backend st)")
    case None
    then show ?thesis using n by (simp add: xsk_worker_serve_def)
  next
    case (Some rb)
    then obtain r b where r: "respond (j_query (qn_job n)) DNS_MAX_MSG_LEN True (wk_backend st) = Some (r, b)" by (cases rb) auto
    have b: "ready b" "r \<noteq> Fault"
      using dns_service.respond_keeps [OF svc rd _ r] by (simp_all add: DNS_MAX_MSG_LEN_def)
    have inv1: "workers_inv ready fds (st\<lparr>wk_backend := b, wk_resolved_drop := wk_resolved_drop st + 1\<rparr>) ins xs yss"
        "workers_inv ready fds (st\<lparr>wk_backend := b, wk_resolved_ok := wk_resolved_ok st + 1\<rparr>) ins xs yss"
      using inv b(1) by (simp_all add: workers_inv_def)
    show ?thesis
    proof (cases r)
      case Err
      from wk_discard_inv [OF inv1(1), of p] p
      show ?thesis using n r Err by (auto simp: xsk_worker_serve_def)
    next
      case (Ok resp)
      have re: "reply_to (j_query (qn_job n)) resp" "length resp \<le> DNS_MAX_MSG_LEN"
        using dns_service.respond_reply [OF svc rd _ r [unfolded Ok]] by (simp_all add: DNS_MAX_MSG_LEN_def)
      then have "length resp \<noteq> 0" by (auto simp: reply_to_def DNS_HDR_LEN_def)
      let ?i = "unat (j_loop_idx (qn_job n))"
      obtain q' h1 where fin: "queue_push (wk_done st ! ?i) ((wk_heap st)(p \<mapsto> n\<lparr>qn_job := (qn_job n)\<lparr>j_resp := resp\<rparr>\<rparr>)) p = Ok (True, q', h1)"
          "?i < length (wk_done st)" "live h1 = live (wk_heap st)"
          "workers_inv ready fds (st\<lparr>wk_backend := b, wk_resolved_ok := wk_resolved_ok st + 1,
            wk_done := (wk_done st)[?i := q'], wk_heap := h1, wk_held := remove1 p (wk_held st)\<rparr>) ins xs (yss[?i := yss ! ?i @ [p]])"
        using wk_finish_inv [OF inv1(2) _ _ re, of p] n p by auto
      show ?thesis using n r Ok fin \<open>length resp \<noteq> 0\<close> by (auto simp: xsk_worker_serve_def)
    qed (use b in simp)
  qed
qed

lemma wk_drain_inv:
  assumes inv: "workers_inv ready fds st ins xs yss" and i: "i < length fds" and fuel: "length (yss ! i) \<le> fuel"
  shows "\<exists>js st'. loop_drain fuel i st = Ok (js, st') \<and> workers_inv ready fds st' ins xs (yss[i := []]) \<and>
    (\<forall>j \<in> set js. transmits ins i j) \<and> live (wk_heap st) = live (wk_heap st') + mset (map unanswered js)"
proof -
  have d: "distinct (xs @ wk_held st @ concat yss)" "dom (wk_heap st) = set (xs @ wk_held st @ concat yss)"
    "length yss = length fds" "length (wk_done st) = length fds"
    using inv by (simp_all add: workers_inv_def)
  let ?ys = "yss ! i" and ?q = "wk_done st ! i"
  define js where "js = map (\<lambda>p. qn_job (the (wk_heap st p))) ?ys"
  define h where "h = (\<lambda>p. if p \<in> set ?ys then None else wk_heap st p)"
  define q where "q = snd (queue_drain ?q)"
  have yi: "set ?ys \<subseteq> set (concat yss)" using inv_member(1) [OF inv i] by blast
  have m: "mset (concat yss) = mset (concat (yss[i := []])) + mset ?ys" using mset_concat_update [of i yss "[]"] i d(3) by simp
  then have split: "set (concat yss) = set (concat (yss[i := []])) \<union> set ?ys" by (metis set_mset_mset set_mset_union)
  have "distinct (concat (yss[i := []]) @ ?ys)" using m d(1) mset_eq_imp_distinct_iff [of "concat yss" "concat (yss[i := []]) @ ?ys"] by simp
  then have dy: "distinct ?ys" "set (concat (yss[i := []])) \<inter> set ?ys = {}" "distinct (concat (yss[i := []]))" by simp_all
  have holds: "queue_holds (wk_heap st) ?q ?ys" using inv i by (simp add: workers_inv_def)
  then have ch: "chain (nexts (wk_heap st)) (fst (queue_drain ?q)) ?ys"
    by (auto simp: queue_holds_def queue_list_def queue_drain_def)
  have step: "loop_drain fuel i st = Ok (js, st\<lparr>wk_done := (wk_done st)[i := q], wk_heap := h\<rparr>)"
    using walk_jobs_ok [OF ch dy(1) fuel] i d(4) by (simp add: loop_drain_def case_prod_beta js_def h_def q_def)
  let ?st = "st\<lparr>wk_done := (wk_done st)[i := q], wk_heap := h\<rparr>"
  have keep: "h r = wk_heap st r" if "r \<in> set (xs @ wk_held st @ concat (yss[i := []]))" for r
    using that yi d(1) dy(2) by (auto simp: h_def)
  have "workers_inv ready fds ?st ins xs (yss[i := []])"
  proof (rule workers_invI)
    have "queue_holds (wk_heap st) (wk_pending st) xs" using inv by (simp add: workers_inv_def)
    then have "queue_holds h (wk_pending st) xs" by (rule xq.holds_frame) (use keep in auto)
    then show "queue_holds (wk_heap ?st) (wk_pending ?st) xs" by simp
    have "queue_holds (wk_heap st) ((wk_done st)[i := q] ! k) (yss[i := []] ! k)" if "k < length fds" for k
      using inv that holds d i
      by (cases "k = i") (auto simp: workers_inv_def q_def queue_drain_def queue_holds_def queue_list_def)
    then have "\<forall>k < length (yss[i := []]). queue_holds (wk_heap st) ((wk_done st)[i := q] ! k) (yss[i := []] ! k)"
      unfolding length_list_update d(3) by blast
    then have "\<forall>k < length (yss[i := []]). queue_holds h ((wk_done st)[i := q] ! k) (yss[i := []] ! k)"
      by (rule done_frame) (rule keep, unfold set_append, blast)
    then show "\<forall>k < length (yss[i := []]). queue_holds (wk_heap ?st) (wk_done ?st ! k) (yss[i := []] ! k)" by simp
    show "\<forall>k < length fds. \<not> q_shutdown (wk_done ?st ! k) \<and> (\<forall>n. queue_room (wk_done ?st ! k) n)"
      using inv d(4) i by (auto simp: workers_inv_def nth_list_update q_def queue_drain_def queue_room_def)
    show "distinct (xs @ wk_held ?st @ concat (yss[i := []]))" using d(1) dy(3) split by auto
    have "dom h = dom (wk_heap st) - set ?ys" by (auto simp: h_def split: if_splits)
    then show "dom (wk_heap ?st) = set (xs @ wk_held ?st @ concat (yss[i := []]))"
      using d(1,2) split dy(2) by auto
    fix r assume "r \<in> set (xs @ wk_held ?st)"
    then show "qn_job (the (wk_heap ?st r)) \<in> set ins" using inv keep [of r] by (auto simp: workers_inv_def)
  next
    fix k r assume k: "k < length fds" "r \<in> set (yss[i := []] ! k)"
    then have "k \<noteq> i" "r \<in> set (yss ! k)" using d(3) i by (auto simp: nth_list_update split: if_splits)
    moreover have "r \<in> set (concat (yss[i := []]))" using k d(3) nth_mem [of k "yss[i := []]"] by auto
    ultimately show "transmits ins k (qn_job (the (wk_heap ?st r)))" using inv k keep [of r] by (auto simp: workers_inv_def)
  qed (use inv d in \<open>auto simp: workers_inv_def\<close>)
  moreover have "\<forall>j \<in> set js. transmits ins i j" using inv i by (auto simp: js_def workers_inv_def)
  moreover have "live (wk_heap st) = live h + mset (map unanswered js)"
    using live_delete_list [of "wk_heap st" ?ys] dy(1) yi d(2) by (auto simp: h_def js_def o_def)
  ultimately show ?thesis using step by auto
qed

lemma drain_fuel:
  assumes "workers_inv ready fds st ins xs yss" "i < length fds" "loop_drain fuel i st = Ok r"
  shows "length (yss ! i) \<le> fuel"
proof (rule walk_jobs_fuel)
  show "chain (nexts (wk_heap st)) (fst (queue_drain (wk_done st ! i))) (yss ! i)"
    using assms(1,2) by (auto simp: workers_inv_def queue_holds_def queue_list_def queue_drain_def)
  have "distinct (concat yss)" "yss ! i \<in> set yss" using assms(1,2) by (auto simp: workers_inv_def)
  then show "distinct (yss ! i)" by (auto simp: distinct_concat_iff)
  have "walk_jobs fuel (fst (queue_drain (wk_done st ! i))) (wk_heap st) \<in> range Ok"
    using assms by (auto simp: loop_drain_def workers_inv_def case_prod_beta split: if_splits)
  then show "walk_jobs fuel (fst (queue_drain (wk_done st ! i))) (wk_heap st) =
      Ok (inv Ok (walk_jobs fuel (fst (queue_drain (wk_done st ! i))) (wk_heap st)))" by (simp add: f_inv_into_f)
qed

lemma concat_nils [simp]: "concat (map (\<lambda>_. []) xs) = []"
  by simp

lemma workers_start: "ready backend \<Longrightarrow> workers_inv ready fds (workers_init fds backend) [] [] (map (\<lambda>_. []) fds)"
proof -
  assume r: "ready backend"
  have "\<not> q_shutdown (queue_init 0 fd) \<and> queue_room (queue_init 0 fd) n" for fd n
    by (simp add: queue_init_def queue_room_def)
  then show ?thesis using r unfolding workers_inv_def workers_init_def by (auto simp: queue_init_holds(1))
qed

lemma parsed_job:
  assumes "parse_frame True now pkt i = Ok (Some job)" "i < MAX_XSKS"
  shows "job_ok job" "unat (j_loop_idx job) = i" "unanswered job = job"
  using assms frame_job_ok [of pkt now i]
  by (auto simp: parse_frame_eval frame_job_def unanswered_def unat_of_nat MAX_XSKS_def split: if_splits)

lemma workers_run_inv:
  assumes "workers_run respond fds backend st ins outs" "\<And>k. dns_service (respond k) ready" "ready backend" "length fds \<le> MAX_XSKS"
  shows "(\<exists>xs yss. workers_inv ready fds st ins xs yss) \<and> (\<forall>(i, job) \<in> set outs. transmits ins i job) \<and>
    live (wk_heap st) + mset (map (\<lambda>(i, job). unanswered job) outs) \<subseteq># mset ins"
  using assms(1)
proof induction
  case wk_start
  then show ?case using workers_start [of ready, OF assms(3)] by (auto simp: workers_init_def live_def)
next
  case (wk_push st ins outs p i now pkt job ok st')
  have job: "job_ok job" "unat (j_loop_idx job) < length fds" "unanswered job = job"
    using parsed_job [OF wk_push(4)] wk_push(3) assms(4) by auto
  obtain xs yss where "workers_inv ready fds st ins xs yss" using wk_push by blast
  from wk_push_inv [OF this wk_push(2) job(1,2)] obtain xs'
    where "workers_inv ready fds st' (ins @ [job]) xs' yss" "live (wk_heap st') \<subseteq># add_mset job (live (wk_heap st))"
    using wk_push(5) job(3) by auto
  moreover from this(2) wk_push.IH have
    "live (wk_heap st') + mset (map (\<lambda>(i, job). unanswered job) outs) \<subseteq># mset (ins @ [job])"
    by (auto elim: subset_mset.order_trans intro: subset_mset.order_trans [OF subset_mset.add_right_mono])
  ultimately show ?case using wk_push.IH transmits_mono by blast
next
  case (wk_take st ins outs st' alive)
  then obtain xs yss where "workers_inv ready fds st ins xs yss" by blast
  from wk_take_inv [OF this] this wk_take show ?case by (cases xs) (auto split: if_splits)
next
  case (wk_serve st ins outs p k st')
  then obtain xs yss where "workers_inv ready fds st ins xs yss" by blast
  from wk_serve_inv [OF this wk_serve(2) assms(2), of k] wk_serve(3) obtain yss'
    where "workers_inv ready fds st' ins xs yss'" "live (wk_heap st') \<subseteq># live (wk_heap st)" by auto
  then show ?case using wk_serve.IH by (blast intro: subset_mset.order_trans [OF subset_mset.add_right_mono])
next
  case (wk_drain st ins outs i fuel js st')
  then obtain xs yss where inv: "workers_inv ready fds st ins xs yss" by blast
  have fuel: "length (yss ! i) \<le> fuel" using drain_fuel [OF inv wk_drain(2,3)] .
  from wk_drain_inv [OF inv wk_drain(2) fuel] wk_drain(3)
  have "workers_inv ready fds st' ins xs (yss[i := []])" "\<forall>j \<in> set js. transmits ins i j"
    "live (wk_heap st) = live (wk_heap st') + mset (map unanswered js)" by auto
  then show ?case using wk_drain.IH by (auto simp: o_def ac_simps)
next
  case (wk_stop st ins outs)
  then obtain xs yss where "workers_inv ready fds st ins xs yss" by blast
  then have "workers_inv ready fds (st\<lparr>wk_pending := queue_shutdown (wk_pending st)\<rparr>) ins xs yss"
    using xq.close_law [of "wk_heap st" "wk_pending st" xs] by (simp add: workers_inv_def)
  then show ?case using wk_stop.IH by auto
qed

text \<open>No step that a thread may take next leaves the memory it owns, and a loop's walk over its list ends.\<close>

definition workers_safe :: "('i \<Rightarrow> 's service) \<Rightarrow> int list \<Rightarrow> 's workers \<Rightarrow> bool" where
  "workers_safe respond fds st \<longleftrightarrow> is_ok (xsk_worker_take st) \<and>
     (\<forall>p i now pkt job. wk_heap st p = None \<longrightarrow> i < length fds \<longrightarrow> parse_frame True now pkt i = Ok (Some job) \<longrightarrow>
        is_ok (loop_push p job st)) \<and>
     (\<forall>p k. p \<in> set (wk_held st) \<longrightarrow> (case xsk_worker_serve (respond k) p st of None \<Rightarrow> True | Some r \<Rightarrow> is_ok r)) \<and>
     (\<forall>i < length fds. is_ok (loop_drain (card (dom (wk_heap st))) i st))"

lemma workers_inv_safe:
  assumes inv: "workers_inv ready fds st ins xs yss" and svc: "\<And>k. dns_service (respond k) ready" and n: "length fds \<le> MAX_XSKS"
  shows "workers_safe respond fds st"
proof -
  have "is_ok (xsk_worker_take st)" using wk_take_inv [OF inv] by (cases xs) auto
  moreover have "is_ok (loop_push p job st)"
    if "wk_heap st p = None" "i < length fds" "parse_frame True now pkt i = Ok (Some job)" for p i now pkt job
    using wk_push_inv [OF inv that(1)] parsed_job [OF that(3)] that(2) n by force
  moreover have "case xsk_worker_serve (respond k) p st of None \<Rightarrow> True | Some r \<Rightarrow> is_ok r" if "p \<in> set (wk_held st)" for p k
    using wk_serve_inv [OF inv that svc, of k] by auto
  moreover have "is_ok (loop_drain (card (dom (wk_heap st))) i st)" if i: "i < length fds" for i
  proof -
    have "distinct (concat yss)" "yss ! i \<in> set yss" "finite (dom (wk_heap st))" using inv i by (auto simp: workers_inv_def)
    then have "distinct (yss ! i)" "finite (dom (wk_heap st))" by (auto simp: distinct_concat_iff)
    moreover have "set (yss ! i) \<subseteq> dom (wk_heap st)" using inv_member(2) [OF inv i] by blast
    ultimately have "length (yss ! i) \<le> card (dom (wk_heap st))" using card_mono distinct_card by metis
    from wk_drain_inv [OF inv i this] show ?thesis by auto
  qed
  ultimately show ?thesis by (auto simp: workers_safe_def)
qed

section \<open>Properties\<close>


section \<open>Witnesses\<close>


end
