(* ===== verification/XskMain.thy ===== *)
theory XskMain
  imports XskEnv XskWorkers
begin

text \<open>
  The life of the AF_XDP resolver (\<^verbatim>\<open>main\<close> of \<^verbatim>\<open>af_xdp_user.c\<close>): the check of the queue configuration, one
  program for the interface, one socket, done queue and eventfd per rx queue, teardown on every path
  out, and the totals of the statistics.

  Options are a record, already parsed. The results of the calls \<^verbatim>\<open>main\<close> makes are an argument; what the
  loop threads do to their sockets while the program runs is another.
\<close>

section \<open>Definitions\<close>

text \<open>Arithmetic on \<^verbatim>\<open>int\<close>: overflow is undefined.\<close>

definition c_int :: "int \<Rightarrow> int res" where
  "c_int x = (if - (2 ^ 31) \<le> x \<and> x < 2 ^ 31 then Ok x else Fault)"

text \<open>The options without the two that only the loop threads read, \<^verbatim>\<open>busy_poll\<close> and \<^verbatim>\<open>verbose\<close>.\<close>

record options =
  op_queue_id :: int
  op_nqueues :: int
  op_pin :: bool
  op_zerocopy :: bool
  op_need_wakeup :: bool
  op_allow_multiqueue :: bool
  op_ifname :: "bytes option"
  op_bpf_obj :: "bytes option"
  op_progname :: "bytes option"
  op_mode :: nat

definition clamp :: "int \<Rightarrow> int \<Rightarrow> int" where
  "clamp hi n = (let n1 = (if n < 1 then 1 else n) in if hi < n1 then hi else n1)"

subsection \<open>The queue configuration\<close>

text \<open>\<open>dir\<close> has the names in the sysfs directory, \<open>None\<close> when it cannot be opened.\<close>

definition nic_rx_queues :: "bytes list option \<Rightarrow> int" where
  "nic_rx_queues dir =
     (case dir of
        None \<Rightarrow> - 1
      | Some ents \<Rightarrow> let n = length (filter (\<lambda>e. take 3 e = ascii ''rx-'') ents) in if n \<noteq> 0 then int n else - 1)"

definition check_queue_config :: "bytes list option \<Rightarrow> bool \<Rightarrow> int \<Rightarrow> int \<Rightarrow> bool res" where
  "check_queue_config dir allow_multiqueue first_q nq_want =
     (let nq = nic_rx_queues dir in
      if nq < 0 then Ok True
      else res_bind (c_int (first_q + nq_want)) (\<lambda>last_q.
        if nq < last_q then Ok False
        else if nq_want = nq then Ok True
        else Ok allow_multiqueue))"

subsection \<open>Set-up\<close>

record loop_ctx =
  l_env :: xsk_env
  l_done_q :: job_queue
  l_done_eventfd :: int
  l_idx :: nat
  l_queue_id :: int
  l_cpu :: int

text \<open>Static storage, with the descriptors set to \<^verbatim>\<open>-1\<close>.\<close>

definition loop_zero :: loop_ctx where
  "loop_zero = \<lparr>l_env = env_zero,
     l_done_q = \<lparr>q_head = None, q_tail = None, q_count = 0, q_cap = 0, q_shutdown = False, q_notify_fd = 0\<rparr>,
     l_done_eventfd = - 1, l_idx = 0, l_queue_id = 0, l_cpu = 0\<rparr>"

record main_answers =
  ma_dir :: "bytes list option"
  ma_load :: load_answers
  ma_eventfd :: "nat \<Rightarrow> int"
  ma_sock :: "nat \<Rightarrow> sock_answers"
  ma_backend :: int

definition setup_loop :: "main_answers \<Rightarrow> options \<Rightarrow> nat \<Rightarrow> loop_ctx list \<Rightarrow> (bool \<times> loop_ctx list \<times> event list) res" where
  "setup_loop a opt i loops =
     res_bind (c_int (op_queue_id opt + int i)) (\<lambda>queue_id.
     let lp = (loops ! i)\<lparr>l_env := (if 0 < i then xsk_env_clone_program (l_env (loops ! 0)) else l_env (loops ! i)),
                l_idx := i, l_queue_id := queue_id, l_cpu := (if op_pin opt then int i else - 1),
                l_done_eventfd := ma_eventfd a i\<rparr> in
     if ma_eventfd a i < 0 then Ok (False, loops[i := lp], [])
     else let lp1 = lp\<lparr>l_done_q := queue_init 0 (ma_eventfd a i)\<rparr> in
       res_bind (xsk_env_setup_socket (ma_sock a i) (l_env lp1) queue_id (op_zerocopy opt) (op_need_wakeup opt)) (\<lambda>(r, env', ev).
       Ok (r = 0, loops[i := lp1\<lparr>l_env := env'\<rparr>], EventfdOpen (ma_eventfd a i) # ev)))"

fun setup_loops ::
  "main_answers \<Rightarrow> options \<Rightarrow> nat list \<Rightarrow> loop_ctx list \<Rightarrow> (bool \<times> loop_ctx list \<times> event list) res" where
  "setup_loops a opt [] loops = Ok (True, loops, [])"
| "setup_loops a opt (i # is) loops =
     res_bind (setup_loop a opt i loops) (\<lambda>(ok, loops1, ev).
     if \<not> ok then Ok (False, loops1, ev)
     else res_bind (setup_loops a opt is loops1) (\<lambda>(ok2, loops2, ev2). Ok (ok2, loops2, ev @ ev2)))"

text \<open>How far \<^verbatim>\<open>main\<close> gets: it returns 1, it goes to \<^verbatim>\<open>err_teardown\<close>, or it runs.\<close>

datatype progress = Refused | Aborted | Running

definition main_nloops :: "options \<Rightarrow> nat" where
  "main_nloops opt = nat (clamp (int MAX_XSKS) (op_nqueues opt))"

definition main_setup :: "main_answers \<Rightarrow> options \<Rightarrow> (progress \<times> loop_ctx list \<times> event list) res" where
  "main_setup a opt =
     (case op_ifname opt of None \<Rightarrow> Ok (Refused, [], []) | Some ifname \<Rightarrow>
     res_bind (check_queue_config (ma_dir a) (op_allow_multiqueue opt) (op_queue_id opt) (int (main_nloops opt))) (\<lambda>ok.
     if \<not> ok then Ok (Refused, [], [])
     else let (r, env, ev) = xsk_env_load_program (ma_load a) ifname (op_bpf_obj opt) (op_progname opt) (op_mode opt) in
       if r \<noteq> 0 then Ok (Refused, [], ev)
       else let loops0 = replicate MAX_XSKS loop_zero in
         res_bind (setup_loops a opt [0..<main_nloops opt] (loops0[0 := (loops0 ! 0)\<lparr>l_env := env\<rparr>])) (\<lambda>(ok, loops, ev2).
         Ok (if ok \<and> ma_backend a = 0 then Running else Aborted, loops, ev @ ev2))))"

subsection \<open>Teardown\<close>

definition teardown_loop :: "loop_ctx \<Rightarrow> event list" where
  "teardown_loop lp =
     (if e_xsk (l_env lp) \<noteq> None \<or> e_prog (l_env lp) \<noteq> None then snd (xsk_env_teardown (l_env lp)) else []) @
     (if 0 \<le> l_done_eventfd lp then [EventfdClose (l_done_eventfd lp)] else [])"

text \<open>\<open>serve i\<close> is what loop \<open>i\<close>'s thread has made of its socket's state when it ends.\<close>

definition serve_loop :: "(nat \<Rightarrow> xsk_socket_info \<Rightarrow> xsk_socket_info) \<Rightarrow> loop_ctx \<Rightarrow> loop_ctx" where
  "serve_loop serve lp = lp\<lparr>l_env := (l_env lp)\<lparr>e_xsk := map_option (\<lambda>(p, s, x). (p, s, serve (l_idx lp) x)) (e_xsk (l_env lp))\<rparr>\<rparr>"

definition af_xdp_main :: "(nat \<Rightarrow> xsk_socket_info \<Rightarrow> xsk_socket_info) \<Rightarrow> main_answers \<Rightarrow> options \<Rightarrow> (int \<times> event list) res" where
  "af_xdp_main serve a opt =
     res_bind (main_setup a opt) (\<lambda>(pr, loops, ev).
     case pr of
       Refused \<Rightarrow> Ok (1, ev)
     | Aborted \<Rightarrow> Ok (0, ev @ concat (map teardown_loop (take (main_nloops opt) loops)))
     | Running \<Rightarrow> Ok (0, ev @ concat (map (teardown_loop \<circ> serve_loop serve) (take (main_nloops opt) loops))))"

subsection \<open>Totals\<close>

definition stats_add :: "xsk_stats \<Rightarrow> xsk_stats \<Rightarrow> xsk_stats" where
  "stats_add t s = \<lparr>st_rx_packets = st_rx_packets t + st_rx_packets s, st_rx_bytes = st_rx_bytes t + st_rx_bytes s,
     st_tx_packets = st_tx_packets t + st_tx_packets s, st_tx_bytes = st_tx_bytes t + st_tx_bytes s,
     st_rx_dropped = st_rx_dropped t + st_rx_dropped s, st_tx_no_slot = st_tx_no_slot t + st_tx_no_slot s,
     st_tx_no_frame = st_tx_no_frame t + st_tx_no_frame s, st_queue_full = st_queue_full t + st_queue_full s\<rparr>"

definition stats_totals :: "loop_ctx list \<Rightarrow> xsk_stats \<times> u32" where
  "stats_totals loops = fold (\<lambda>lp (t, frames_free).
     case e_xsk (l_env lp) of
       None \<Rightarrow> (t, frames_free)
     | Some (p, s, x) \<Rightarrow> (stats_add t (x_stats x), frames_free + of_nat (xsk_free_frame_count x))) loops
     (\<lparr>st_rx_packets = 0, st_rx_bytes = 0, st_tx_packets = 0, st_tx_bytes = 0, st_rx_dropped = 0,
       st_tx_no_slot = 0, st_tx_no_frame = 0, st_queue_full = 0\<rparr>, 0)"

section \<open>Teardown releases what the loops hold\<close>

definition loop_held :: "loop_ctx \<Rightarrow> resource set" where
  "loop_held lp = sock_held (l_env lp) \<union> prog_held (l_env lp) \<union> (if 0 \<le> l_done_eventfd lp then {Efd (l_done_eventfd lp)} else {})"

definition owns :: "loop_ctx \<Rightarrow> handle set" where
  "owns lp = \<Union> (handles ` loop_held lp)"

lemma held_no_efd: "r \<in> sock_held env \<union> prog_held env \<Longrightarrow> HEfd fd \<notin> handles r"
  by (auto simp: sock_held_def prog_held_def split: option.splits if_splits)

lemma teardown_loop_spec:
  assumes "env_whole (l_env lp)"
  shows "track (teardown_loop lp) (loop_held lp) = Some {} \<and> (\<forall>e \<in> set (teardown_loop lp). names e \<subseteq> owns lp)"
proof -
  define sev where "sev = (if e_xsk (l_env lp) \<noteq> None \<or> e_prog (l_env lp) \<noteq> None then snd (xsk_env_teardown (l_env lp)) else [])"
  define E where "E = (if 0 \<le> l_done_eventfd lp then {Efd (l_done_eventfd lp)} else {})"
  let ?R = "sock_held (l_env lp) \<union> prog_held (l_env lp)"
  have s: "track sev ?R = Some {} \<and> (\<forall>e \<in> set sev. \<exists>r \<in> ?R. names e \<subseteq> handles r)"
  proof (cases "e_xsk (l_env lp) \<noteq> None \<or> e_prog (l_env lp) \<noteq> None")
    case True
    then show ?thesis using teardown_spec [OF assms] by (auto simp: sev_def)
  next
    case False
    then show ?thesis by (auto simp: sev_def sock_held_def prog_held_def split: option.split)
  qed
  have "track sev (?R \<union> E) = Some ({} \<union> E)"
  proof (rule track_frame [OF conjunct1 [OF s]], intro ballI)
    fix r e assume "r \<in> E" "e \<in> set sev"
    then show "handles r \<inter> names e = {}" using s held_no_efd by (fastforce simp: E_def split: if_splits)
  qed
  then have "track (teardown_loop lp) (loop_held lp) = Some {}"
    unfolding teardown_loop_def sev_def [symmetric] loop_held_def E_def [symmetric] track_append by (simp add: E_def)
  moreover have "\<forall>e \<in> set (teardown_loop lp). names e \<subseteq> owns lp"
    using s unfolding teardown_loop_def sev_def [symmetric] owns_def loop_held_def by (fastforce split: if_splits)
  ultimately show ?thesis by blast
qed

lemma teardown_all_spec:
  assumes "\<forall>lp \<in> set lps. env_whole (l_env lp)" "\<forall>i < length lps. \<forall>j < i. owns (lps ! i) \<inter> owns (lps ! j) = {}"
  shows "track (concat (map teardown_loop lps)) (\<Union> (loop_held ` set lps)) = Some {}"
  using assms
proof (induction lps)
  case (Cons lp lps)
  let ?F = "\<Union> (loop_held ` set lps)"
  have lp: "track (teardown_loop lp) (loop_held lp) = Some {}" "\<forall>e \<in> set (teardown_loop lp). names e \<subseteq> owns lp"
    using teardown_loop_spec [of lp] Cons.prems(1) by auto
  have apart: "owns l \<inter> owns lp = {}" if l: "l \<in> set lps" for l
  proof -
    obtain i where "i < length lps" "l = lps ! i" using l by (auto simp: in_set_conv_nth)
    then show ?thesis using Cons.prems(2) [rule_format, of "Suc i" 0] by simp
  qed
  have "track (teardown_loop lp) (loop_held lp \<union> ?F) = Some ({} \<union> ?F)"
  proof (rule track_frame [OF lp(1)], intro ballI)
    fix r e assume "r \<in> ?F" "e \<in> set (teardown_loop lp)"
    then show "handles r \<inter> names e = {}" using apart lp(2) by (fastforce simp: owns_def)
  qed
  moreover have "track (concat (map teardown_loop lps)) ?F = Some {}"
  proof (rule Cons.IH)
    show "\<forall>i < length lps. \<forall>j < i. owns (lps ! i) \<inter> owns (lps ! j) = {}"
      using Cons.prems(2) by (metis Suc_less_eq length_Cons nth_Cons_Suc)
  qed (use Cons.prems(1) in simp)
  ultimately show ?case by (simp add: track_append)
qed simp

section \<open>Set-up acquires what the loops hold\<close>

text \<open>
  The names the calls for loop \<open>i\<close> return. Live objects have different addresses, handles and
  descriptors, so the calls for different loops return different ones.
\<close>

definition loop_names :: "main_answers \<Rightarrow> nat \<Rightarrow> handle set" where
  "loop_names a i = sock_names (ma_sock a i) \<union> (if 0 \<le> ma_eventfd a i then {HEfd (ma_eventfd a i)} else {})"

definition answers_fresh :: "nat \<Rightarrow> main_answers \<Rightarrow> bool" where
  "answers_fresh n a \<longleftrightarrow> (\<forall>i < n. distinct (sock_addrs (ma_sock a i)) \<and> (\<forall>j < i. loop_names a i \<inter> loop_names a j = {}))"

definition may_own :: "main_answers \<Rightarrow> nat \<Rightarrow> handle set" where
  "may_own a i = loop_names a i \<union> (if i = 0 then range HProg else {})"

definition loops_inv :: "main_answers \<Rightarrow> nat \<Rightarrow> nat \<Rightarrow> loop_ctx list \<Rightarrow> bool" where
  "loops_inv a n k loops \<longleftrightarrow> n \<le> length loops \<and>
     (\<forall>i < n. env_whole (l_env (loops ! i)) \<and> owns (loops ! i) \<subseteq> may_own a i \<and> (0 < i \<longrightarrow> e_prog (l_env (loops ! i)) = None) \<and>
        (k \<le> i \<longrightarrow> no_socket (l_env (loops ! i)) \<and> l_done_eventfd (loops ! i) < 0))"

definition total_held :: "nat \<Rightarrow> loop_ctx list \<Rightarrow> resource set" where
  "total_held n loops = (\<Union>i < n. loop_held (loops ! i))"

definition loop_up :: "main_answers \<Rightarrow> options \<Rightarrow> nat \<Rightarrow> loop_ctx \<Rightarrow> bool" where
  "loop_up a opt i lp \<longleftrightarrow> l_idx lp = i \<and> l_queue_id lp = op_queue_id opt + int i \<and> e_queue_id (l_env lp) = l_queue_id lp \<and>
     0 \<le> l_done_eventfd lp \<and> l_done_q lp = queue_init 0 (l_done_eventfd lp) \<and>
     (\<exists>p s x. e_xsk (l_env lp) = Some (p, s, x) \<and>
        seed_frames (sa_lib (ma_sock a i)) (xsk_zero (op_need_wakeup opt) (sa_mem (ma_sock a i))) = Ok x)"

lemma acquire_names: "acquire e R = Some R' \<Longrightarrow> r \<in> R' \<Longrightarrow> r \<in> R \<or> handles r \<subseteq> names e"
  by (cases e) (auto split: if_splits)

lemma track_names: "track es R = Some R' \<Longrightarrow> r \<in> R' \<Longrightarrow> r \<in> R \<or> (\<exists>e \<in> set es. handles r \<subseteq> names e)"
proof (induction es arbitrary: R)
  case (Cons e es)
  then obtain R1 where "acquire e R = Some R1" "track es R1 = Some R'" by (auto split: option.splits)
  then show ?case using Cons.IH Cons.prems(2) acquire_names [of e R R1 r] by fastforce
qed simp

lemma no_socket_held: "no_socket env \<Longrightarrow> sock_held env = {} \<and> env_whole env"
  by (simp add: no_socket_def sock_held_def env_whole_def)

lemma may_own_apart: "answers_fresh n a \<Longrightarrow> i < n \<Longrightarrow> j < n \<Longrightarrow> i \<noteq> j \<Longrightarrow> may_own a i \<inter> may_own a j = {}"
proof -
  assume a: "answers_fresh n a" "i < n" "j < n" "i \<noteq> j"
  have "loop_names a i \<inter> loop_names a j = {}" using a by (cases i j rule: linorder_cases) (auto simp: answers_fresh_def)
  moreover have "HProg g \<notin> loop_names a k" for g k by (auto simp: loop_names_def sock_names_def)
  ultimately show ?thesis using a(4) by (auto simp: may_own_def split: if_splits)
qed

text \<open>Replacing one loop changes what that loop holds.\<close>

lemma total_update:
  assumes inv: "loops_inv a n k loops" and fresh: "answers_fresh n a" and k: "k < n"
    and ev: "track ev (loop_held (loops ! k)) = Some (loop_held lp)" "\<forall>e \<in> set ev. names e \<subseteq> may_own a k"
  shows "track ev (total_held n loops) = Some (total_held n (loops[k := lp]))"
proof -
  define F where "F = (\<Union>i \<in> {..<n} - {k}. loop_held (loops ! i))"
  have "\<forall>r \<in> F. \<forall>e \<in> set ev. handles r \<inter> names e = {}"
  proof (intro ballI)
    fix r e assume "r \<in> F" and e: "e \<in> set ev"
    then obtain i where i: "i < n" "i \<noteq> k" "r \<in> loop_held (loops ! i)" by (auto simp: F_def)
    have "handles r \<subseteq> owns (loops ! i)" using i(3) by (auto simp: owns_def)
    then have "handles r \<subseteq> may_own a i" using inv i(1) by (auto simp: loops_inv_def)
    then show "handles r \<inter> names e = {}" using may_own_apart [OF fresh i(1) k i(2)] ev(2) e by blast
  qed
  from track_frame [OF ev(1) this] have "track ev (loop_held (loops ! k) \<union> F) = Some (loop_held lp \<union> F)" .
  moreover have "total_held n loops = loop_held (loops ! k) \<union> F" using k by (auto simp: total_held_def F_def)
  moreover have "total_held n (loops[k := lp]) = loop_held lp \<union> F"
    using k inv by (auto simp: total_held_def F_def loops_inv_def nth_list_update split: if_splits)
  ultimately show ?thesis by simp
qed

lemma clone_facts: "no_socket (xsk_env_clone_program src)" "e_prog (xsk_env_clone_program src) = None"
  by (simp_all add: xsk_env_clone_program_def env_zero_def no_socket_def)

lemma loops_inv_update:
  assumes "loops_inv a n k loops" "env_whole (l_env lp)" "owns lp \<subseteq> may_own a k" "0 < k \<Longrightarrow> e_prog (l_env lp) = None"
  shows "loops_inv a n (Suc k) (loops[k := lp])"
  unfolding loops_inv_def
proof (intro conjI allI impI)
  fix i assume i: "i < n"
  have len: "n \<le> length loops" using assms(1) by (simp add: loops_inv_def)
  show "env_whole (l_env (loops[k := lp] ! i))" "owns (loops[k := lp] ! i) \<subseteq> may_own a i"
    using assms i len by (cases "i = k"; simp add: loops_inv_def)+
  show "e_prog (l_env (loops[k := lp] ! i)) = None" if "0 < i" using assms i len that by (cases "i = k") (auto simp: loops_inv_def)
  assume "Suc k \<le> i"
  then show "no_socket (l_env (loops[k := lp] ! i))" "l_done_eventfd (loops[k := lp] ! i) < 0"
    using assms(1) i by (auto simp: loops_inv_def)
qed (use assms(1) in \<open>simp add: loops_inv_def\<close>)

lemma setup_loop_inv:
  assumes inv: "loops_inv a n k loops" and fresh: "answers_fresh n a" and k: "k < n" "n \<le> MAX_XSKS"
    and q: "- (2 ^ 31) \<le> op_queue_id opt" "op_queue_id opt + 16 < 2 ^ 31"
  shows "\<exists>ok lp ev. setup_loop a opt k loops = Ok (ok, loops[k := lp], ev) \<and> loops_inv a n (Suc k) (loops[k := lp]) \<and>
    track ev (total_held n loops) = Some (total_held n (loops[k := lp])) \<and> (ok \<longrightarrow> loop_up a opt k lp)"
proof -
  let ?q = "op_queue_id opt + int k"
  have cq: "c_int ?q = Ok ?q" using q k by (simp add: c_int_def MAX_XSKS_def)
  define env where "env = (if 0 < k then xsk_env_clone_program (l_env (loops ! 0)) else l_env (loops ! k))"
  have old: "no_socket (l_env (loops ! k))" "l_done_eventfd (loops ! k) < 0" "owns (loops ! k) \<subseteq> may_own a k"
    "0 < k \<Longrightarrow> e_prog (l_env (loops ! k)) = None" using inv k by (auto simp: loops_inv_def)
  have env: "no_socket env" "0 < k \<Longrightarrow> e_prog env = None" "prog_held env = prog_held (l_env (loops ! k))"
    using old clone_facts by (auto simp: env_def prog_held_def)
  have held: "loop_held (loops ! k) = prog_held env" using old(1,2) env(3) no_socket_held by (simp add: loop_held_def)
  define lp where "lp = (loops ! k)\<lparr>l_env := env, l_idx := k, l_queue_id := ?q, l_cpu := (if op_pin opt then int k else - 1),
    l_done_eventfd := ma_eventfd a k\<rparr>"
  have pown: "\<Union> (handles ` prog_held env) \<subseteq> may_own a k" using old(3) unfolding owns_def held .
  show ?thesis
  proof (cases "ma_eventfd a k < 0")
    case True
    have lp: "loop_held lp = prog_held env" "l_env lp = env" using True env(1) no_socket_held by (simp_all add: lp_def loop_held_def)
    have "setup_loop a opt k loops = Ok (False, loops[k := lp], [])" using True cq by (simp add: setup_loop_def lp_def env_def)
    moreover have "loops_inv a n (Suc k) (loops[k := lp])"
      by (rule loops_inv_update [OF inv]) (use lp env no_socket_held pown in \<open>auto simp: owns_def\<close>)
    moreover have "track [] (total_held n loops) = Some (total_held n (loops[k := lp]))"
      by (rule total_update [OF inv fresh k(1)]) (simp_all add: lp held)
    ultimately show ?thesis by blast
  next
    case False
    have da: "distinct (sock_addrs (ma_sock a k))" using fresh k(1) by (simp add: answers_fresh_def)
    obtain r env' ev where su: "xsk_env_setup_socket (ma_sock a k) env ?q (op_zerocopy opt) (op_need_wakeup opt) = Ok (r, env', ev)"
        "set_up (ma_sock a k) (op_need_wakeup opt) ?q env r env' ev" using setup_socket_spec [OF da env(1)] by blast
    let ?lp = "lp\<lparr>l_done_q := queue_init 0 (ma_eventfd a k), l_env := env'\<rparr>"
    let ?E = "{Efd (ma_eventfd a k)}" and ?ev = "EventfdOpen (ma_eventfd a k) # ev"
    have ph: "prog_held env' = prog_held env" using su(2) same_prog_held by (simp add: set_up_def)
    have held': "loop_held ?lp = sock_held env' \<union> (prog_held env \<union> ?E)" using False by (auto simp: loop_held_def lp_def ph)
    have nms: "\<forall>e \<in> set ev. names e \<subseteq> sock_names (ma_sock a k)" and tr: "track ev {} = Some (sock_held env')"
      using su(2) by (simp_all add: set_up_def)
    have "track ev ({} \<union> (prog_held env \<union> ?E)) = Some (sock_held env' \<union> (prog_held env \<union> ?E))"
      by (rule track_frame [OF tr]) (use nms in \<open>auto simp: prog_held_def sock_names_def split: option.splits if_splits\<close>)
    then have "track ?ev (loop_held (loops ! k)) = Some (loop_held ?lp)"
      unfolding held held' using held_no_efd [of "Efd (ma_eventfd a k)" env "ma_eventfd a k"] by auto
    moreover have "\<forall>e \<in> set ?ev. names e \<subseteq> may_own a k" using nms False by (auto simp: may_own_def loop_names_def)
    ultimately have "track ?ev (total_held n loops) = Some (total_held n (loops[k := ?lp]))"
      by (rule total_update [OF inv fresh k(1)])
    moreover have "loops_inv a n (Suc k) (loops[k := ?lp])"
    proof (rule loops_inv_update [OF inv])
      have "handles r \<subseteq> may_own a k" if "r \<in> sock_held env'" for r
        using track_names [OF tr that] nms by (fastforce simp: may_own_def loop_names_def)
      moreover have "HEfd (ma_eventfd a k) \<in> may_own a k" using False by (simp add: may_own_def loop_names_def)
      ultimately show "owns ?lp \<subseteq> may_own a k" using pown unfolding owns_def held' by auto
      show "env_whole (l_env ?lp)" using su(2) by (simp add: set_up_def)
      show "0 < k \<Longrightarrow> e_prog (l_env ?lp) = None" using su(2) env(2) by (simp add: set_up_def same_prog_def)
    qed
    moreover have "setup_loop a opt k loops = Ok (r = 0, loops[k := ?lp], ?ev)"
      using False cq su(1) by (simp add: setup_loop_def lp_def env_def)
    moreover have "r = 0 \<longrightarrow> loop_up a opt k ?lp" using su(2) False by (auto simp: loop_up_def set_up_def lp_def)
    ultimately show ?thesis by blast
  qed
qed

lemma setup_loops_inv:
  assumes "loops_inv a n k loops" "answers_fresh n a" "k \<le> n" "n \<le> MAX_XSKS"
    "- (2 ^ 31) \<le> op_queue_id opt" "op_queue_id opt + 16 < 2 ^ 31" "\<forall>i < k. loop_up a opt i (loops ! i)"
  shows "\<exists>ok loops' ev. setup_loops a opt [k..<n] loops = Ok (ok, loops', ev) \<and> (\<exists>k'. loops_inv a n k' loops') \<and>
    track ev (total_held n loops) = Some (total_held n loops') \<and> (ok \<longrightarrow> (\<forall>i < n. loop_up a opt i (loops' ! i)))"
  using assms
proof (induction "n - k" arbitrary: k loops)
  case 0
  then show ?case by auto
next
  case (Suc m)
  then have k: "k < n" by simp
  obtain ok lp ev where st: "setup_loop a opt k loops = Ok (ok, loops[k := lp], ev)" "loops_inv a n (Suc k) (loops[k := lp])"
      "track ev (total_held n loops) = Some (total_held n (loops[k := lp]))" "ok \<longrightarrow> loop_up a opt k lp"
    using setup_loop_inv [OF Suc.prems(1,2) k Suc.prems(4-6)] by blast
  have eq: "[k..<n] = k # [Suc k..<n]" using k by (simp add: upt_conv_Cons)
  show ?case
  proof (cases ok)
    case False
    then show ?thesis using st unfolding eq by auto
  next
    case True
    have "\<forall>i < Suc k. loop_up a opt i (loops[k := lp] ! i)"
      using Suc.prems(1,7) st(4) True k by (auto simp: less_Suc_eq loops_inv_def)
    moreover have "m = n - Suc k" using Suc.hyps(2) by simp
    ultimately
    obtain ok2 loops2 ev2 where "setup_loops a opt [Suc k..<n] (loops[k := lp]) = Ok (ok2, loops2, ev2)" "\<exists>k'. loops_inv a n k' loops2"
        "track ev2 (total_held n (loops[k := lp])) = Some (total_held n loops2)" "ok2 \<longrightarrow> (\<forall>i < n. loop_up a opt i (loops2 ! i))"
      using Suc.hyps(1) [of "Suc k" "loops[k := lp]"] Suc.prems(2,4-6) k st(2) by auto
    then show ?thesis using st(1,3) True unfolding eq by (auto simp: track_append)
  qed
qed

lemma serve_loop_held: "loop_held (serve_loop serve lp) = loop_held lp" "env_whole (l_env (serve_loop serve lp)) = env_whole (l_env lp)"
  by (auto simp: serve_loop_def loop_held_def sock_held_def prog_held_def env_whole_def split: option.split)

text \<open>Whatever state the loops are in, teardown leaves nothing.\<close>

lemma teardown_total:
  assumes inv: "loops_inv a n k loops" and fresh: "answers_fresh n a"
    and f: "\<And>lp. loop_held (f lp) = loop_held lp" "\<And>lp. env_whole (l_env (f lp)) = env_whole (l_env lp)"
  shows "track (concat (map (teardown_loop \<circ> f) (take n loops))) (total_held n loops) = Some {}"
proof -
  let ?lps = "map f (take n loops)"
  have len: "length ?lps = n" using inv by (simp add: loops_inv_def)
  have nth: "?lps ! i = f (loops ! i)" if "i < n" for i using that inv by (simp add: loops_inv_def)
  have own: "owns (f lp) = owns lp" for lp by (simp add: owns_def f)
  have "track (concat (map teardown_loop ?lps)) (\<Union> (loop_held ` set ?lps)) = Some {}"
  proof (rule teardown_all_spec)
    show "\<forall>lp \<in> set ?lps. env_whole (l_env lp)" using inv f(2) nth len by (auto simp: loops_inv_def in_set_conv_nth)
    show "\<forall>i < length ?lps. \<forall>j < i. owns (?lps ! i) \<inter> owns (?lps ! j) = {}"
    proof (intro allI impI)
      fix i j assume i: "i < length ?lps" and j: "j < i"
      have "owns (loops ! i) \<subseteq> may_own a i" "owns (loops ! j) \<subseteq> may_own a j" "may_own a i \<inter> may_own a j = {}"
        using inv may_own_apart [OF fresh, of i j] i j unfolding len by (auto simp: loops_inv_def)
      then have "owns (loops ! i) \<inter> owns (loops ! j) = {}" by blast
      then show "owns (?lps ! i) \<inter> owns (?lps ! j) = {}" using nth own i j len by simp
    qed
  qed
  moreover have "\<Union> (loop_held ` set ?lps) = total_held n loops"
    using nth len f(1) by (auto simp: total_held_def set_conv_nth)
  ultimately show ?thesis by simp
qed

lemma main_setup_spec:
  assumes fresh: "answers_fresh (main_nloops opt) a" and q: "- (2 ^ 31) \<le> op_queue_id opt" "op_queue_id opt + 16 < 2 ^ 31"
  shows "\<exists>pr loops ev. main_setup a opt = Ok (pr, loops, ev) \<and>
    (if pr = Refused then track ev {} = Some {}
     else (\<exists>k. loops_inv a (main_nloops opt) k loops) \<and> track ev {} = Some (total_held (main_nloops opt) loops)) \<and>
    (pr = Running \<longrightarrow> check_queue_config (ma_dir a) (op_allow_multiqueue opt) (op_queue_id opt) (int (main_nloops opt)) = Ok True \<and>
       (\<forall>i < main_nloops opt. loop_up a opt i (loops ! i)))"
proof -
  let ?n = "main_nloops opt"
  have n: "0 < ?n" "?n \<le> MAX_XSKS" by (auto simp: main_nloops_def clamp_def Let_def MAX_XSKS_def)
  have "c_int (op_queue_id opt + int ?n) = Ok (op_queue_id opt + int ?n)" using q n by (simp add: c_int_def MAX_XSKS_def)
  then have "is_ok (check_queue_config (ma_dir a) (op_allow_multiqueue opt) (op_queue_id opt) (int ?n))"
    by (simp add: check_queue_config_def Let_def)
  then obtain ok where ok: "check_queue_config (ma_dir a) (op_allow_multiqueue opt) (op_queue_id opt) (int ?n) = Ok ok"
    by (auto simp: is_ok_def split: res.splits)
  obtain r env ev where ld: "xsk_env_load_program (ma_load a) (the (op_ifname opt)) (op_bpf_obj opt) (op_progname opt) (op_mode opt) = (r, env, ev)"
    by (metis prod_cases3)
  note spec = load_program_spec [OF ld]
  show ?thesis
  proof (cases "op_ifname opt \<noteq> None \<and> ok \<and> r = 0")
    case False
    then show ?thesis using ok ld spec(1,3) by (auto simp: main_setup_def split: option.split)
  next
    case True
    let ?loops = "(replicate MAX_XSKS loop_zero)[0 := loop_zero\<lparr>l_env := env\<rparr>]"
    have zero: "no_socket env_zero" "prog_held env_zero = {}" by (simp_all add: no_socket_def env_zero_def prog_held_def)
    have held: "loop_held (?loops ! i) = (if i = 0 then prog_held env else {})" if "i < ?n" for i
      using that n spec(2) zero no_socket_held by (cases "i = 0") (simp_all add: loop_held_def loop_zero_def)
    have "owns (?loops ! i) \<subseteq> may_own a i" if "i < ?n" for i
      unfolding owns_def held [OF that] by (auto simp: may_own_def prog_held_def split: option.splits if_splits)
    moreover have "no_socket (l_env (?loops ! i)) \<and> l_done_eventfd (?loops ! i) < 0 \<and> (0 < i \<longrightarrow> e_prog (l_env (?loops ! i)) = None)"
      if "i < ?n" for i using that n spec(2) zero(1) by (cases "i = 0") (simp_all add: loop_zero_def env_zero_def)
    ultimately have inv: "loops_inv a ?n 0 ?loops" using n no_socket_held by (simp add: loops_inv_def)
    have tot: "total_held ?n ?loops = prog_held env" using held n(1) by (auto simp: total_held_def split: if_splits)
    obtain ok2 loops ev2 where sl: "setup_loops a opt [0..<?n] ?loops = Ok (ok2, loops, ev2)" "\<exists>k. loops_inv a ?n k loops"
        "track ev2 (prog_held env) = Some (total_held ?n loops)" "ok2 \<longrightarrow> (\<forall>i < ?n. loop_up a opt i (loops ! i))"
      using setup_loops_inv [OF inv fresh _ n(2) q] unfolding tot by auto
    moreover have "main_setup a opt = Ok (if ok2 \<and> ma_backend a = 0 then Running else Aborted, loops, ev @ ev2)"
      using True ok ld sl(1) by (auto simp: main_setup_def MAX_XSKS_def)
    ultimately show ?thesis using True ok spec(1)
      by (intro exI [of _ "if ok2 \<and> ma_backend a = 0 then Running else Aborted"] exI [of _ loops] exI [of _ "ev @ ev2"]) (simp add: track_append)
  qed
qed

section \<open>Totals\<close>

lemma kern_stats_sum:
  assumes "0 \<le> e_stats_map_fd env" "0 < ncpus"
  shows "xsk_env_read_kern_stats ncpus True (\<lambda>key. Some (percpu key)) env =
    Inr (map (\<lambda>key. \<Sum>c \<leftarrow> [0..<nat ncpus]. percpu key c) [0..<STAT__MAX])"
proof -
  have "fold (\<lambda>c out. out + f c) cs s = s + (\<Sum>c \<leftarrow> cs. f c)" for f :: "nat \<Rightarrow> u64" and cs s
    by (induction cs arbitrary: s) (simp_all add: algebra_simps)
  then show ?thesis using assms by (simp add: xsk_env_read_kern_stats_def)
qed

text \<open>The sockets the totals run over; the printed numbers are sums over them, at the width of the counters.\<close>

definition up_sockets :: "loop_ctx list \<Rightarrow> xsk_socket_info list" where
  "up_sockets loops = List.map_filter (\<lambda>lp. map_option (snd \<circ> snd) (e_xsk (l_env lp))) loops"

lemma stats_totals_sum:
  assumes "stats_totals loops = (t, frames_free)"
  shows "st_rx_packets t = (\<Sum>x \<leftarrow> up_sockets loops. st_rx_packets (x_stats x))"
    "st_rx_bytes t = (\<Sum>x \<leftarrow> up_sockets loops. st_rx_bytes (x_stats x))"
    "st_tx_packets t = (\<Sum>x \<leftarrow> up_sockets loops. st_tx_packets (x_stats x))"
    "st_tx_bytes t = (\<Sum>x \<leftarrow> up_sockets loops. st_tx_bytes (x_stats x))"
    "st_rx_dropped t = (\<Sum>x \<leftarrow> up_sockets loops. st_rx_dropped (x_stats x))"
    "st_tx_no_slot t = (\<Sum>x \<leftarrow> up_sockets loops. st_tx_no_slot (x_stats x))"
    "st_tx_no_frame t = (\<Sum>x \<leftarrow> up_sockets loops. st_tx_no_frame (x_stats x))"
    "st_queue_full t = (\<Sum>x \<leftarrow> up_sockets loops. st_queue_full (x_stats x))"
    "frames_free = of_nat (\<Sum>x \<leftarrow> up_sockets loops. x_frame_free x)"
proof -
  define step where "step = (\<lambda>(lp :: loop_ctx) (t, frames_free). case e_xsk (l_env lp) of None \<Rightarrow> (t, frames_free)
     | Some (p, s, x) \<Rightarrow> (stats_add t (x_stats x), frames_free + (of_nat (xsk_free_frame_count x) :: u32)))"
  have step: "fold step lps (u, m) = (v, k) \<Longrightarrow>
     v = fold (\<lambda>x t. stats_add t (x_stats x)) (up_sockets lps) u \<and> k = m + of_nat (\<Sum>x \<leftarrow> up_sockets lps. x_frame_free x)" for lps u m v k
  proof (induction lps arbitrary: u m)
    case (Cons lp lps)
    show ?case
    proof (cases "e_xsk (l_env lp)")
      case None
      then have "step lp (u, m) = (u, m)" "up_sockets (lp # lps) = up_sockets lps"
        by (simp_all add: step_def up_sockets_def map_filter_simps)
      then show ?thesis using Cons by simp
    next
      case (Some psx)
      then obtain p s x where "e_xsk (l_env lp) = Some (p, s, x)" by (cases psx) auto
      then have "step lp (u, m) = (stats_add u (x_stats x), m + of_nat (x_frame_free x))" "up_sockets (lp # lps) = x # up_sockets lps"
        by (simp_all add: step_def up_sockets_def map_filter_simps xsk_free_frame_count_def)
      then show ?thesis using Cons.IH [of "stats_add u (x_stats x)" "m + of_nat (x_frame_free x)"] Cons.prems by simp
    qed
  qed (simp add: up_sockets_def map_filter_simps)
  have proj: "g (fold (\<lambda>x t. stats_add t (x_stats x)) xs u) = g u + (\<Sum>x \<leftarrow> xs. g (x_stats x))"
    if "\<And>t s. g (stats_add t s) = g t + g s" for g :: "xsk_stats \<Rightarrow> u64" and xs u
    by (induction xs arbitrary: u) (simp_all add: that algebra_simps)
  note eq = step [OF assms [unfolded stats_totals_def, folded step_def]]
  show "st_rx_packets t = (\<Sum>x \<leftarrow> up_sockets loops. st_rx_packets (x_stats x))"
    "st_rx_bytes t = (\<Sum>x \<leftarrow> up_sockets loops. st_rx_bytes (x_stats x))"
    "st_tx_packets t = (\<Sum>x \<leftarrow> up_sockets loops. st_tx_packets (x_stats x))"
    "st_tx_bytes t = (\<Sum>x \<leftarrow> up_sockets loops. st_tx_bytes (x_stats x))"
    "st_rx_dropped t = (\<Sum>x \<leftarrow> up_sockets loops. st_rx_dropped (x_stats x))"
    "st_tx_no_slot t = (\<Sum>x \<leftarrow> up_sockets loops. st_tx_no_slot (x_stats x))"
    "st_tx_no_frame t = (\<Sum>x \<leftarrow> up_sockets loops. st_tx_no_frame (x_stats x))"
    "st_queue_full t = (\<Sum>x \<leftarrow> up_sockets loops. st_queue_full (x_stats x))"
    unfolding conjunct1 [OF eq]
    by (subst proj; simp add: stats_add_def)+
  show "frames_free = of_nat (\<Sum>x \<leftarrow> up_sockets loops. x_frame_free x)" using conjunct2 [OF eq] by simp
qed

section \<open>Properties\<close>


section \<open>Witnesses\<close>

definition demo_sock :: sock_answers where
  "demo_sock = \<lparr>sa_memalign = Some 1, sa_umem_info = Some 2, sa_umem_create = (0, 0), sa_xsk_info = Some 3,
     sa_socket = \<lambda>flags. if flags AND XDP_ZEROCOPY = 0 then (0, 0) else (- EOPNOTSUPP, 0), sa_map_update = 0,
     sa_lib = plain_lib, sa_mem = \<lambda>_. 0\<rparr>"

definition demo_answers :: main_answers where
  "demo_answers = \<lparr>ma_dir = Some [ascii ''rx-0'', ascii ''tx-0''],
     ma_load = \<lparr>la_ifindex = 2, la_create = \<lambda>_ _. (0, 7), la_attach = 0, la_xsks_map = Some 5, la_stats_map = None\<rparr>,
     ma_eventfd = \<lambda>i. 6 + int i, ma_sock = \<lambda>_. demo_sock, ma_backend = 0\<rparr>"

definition demo_options :: options where
  "demo_options = \<lparr>op_queue_id = 0, op_nqueues = 1, op_pin = True, op_zerocopy = True, op_need_wakeup = True,
     op_allow_multiqueue = False, op_ifname = Some (ascii ''eth0''), op_bpf_obj = Some (ascii ''af_xdp_kern.o''), op_progname = None, op_mode = 1\<rparr>"


end
