(* ===== verification/UdpServer.thy ===== *)
theory UdpServer
  imports JobQueue DnsBackend ResolverStub "HOL-Library.Multiset"
begin

text \<open>
  The plain UDP transport (\<^verbatim>\<open>server.c\<close>): one thread receives datagrams into jobs and pushes them on
  the pending queue, the workers pop them, call the backend and send the reply.

  The state has the queue, the heap of jobs, the jobs in the hands of workers, the backend's state,
  the counters, and the log of \<^verbatim>\<open>sendto\<close> calls. What \<^verbatim>\<open>malloc\<close>, \<^verbatim>\<open>recvfrom\<close> and \<^verbatim>\<open>sendto\<close> return are
  arguments. A call of the backend is one step; \<open>None\<close> is a call that does not return.
\<close>

section \<open>Definitions\<close>

definition MAX_PENDING :: u32 where "MAX_PENDING = 4096"
definition RECV_BUF :: nat where "RECV_BUF = 1500"

record udp_job =
  uj_client :: bytes
  uj_msg :: bytes

record 's udp_server =
  sv_queue :: job_queue
  sv_heap :: "udp_job qheap"
  sv_held :: "nat list"
  sv_backend :: 's
  sv_sent :: "(bytes \<times> bytes \<times> bool) list"
  sv_rx_count :: u64
  sv_tx_count :: u64
  sv_drop_parse :: u64
  sv_drop_backlog :: u64

definition server_init :: "'s \<Rightarrow> 's udp_server" where
  "server_init backend = \<lparr>sv_queue = srv_queue_init MAX_PENDING, sv_heap = Map.empty, sv_held = [],
     sv_backend = backend, sv_sent = [], sv_rx_count = 0, sv_tx_count = 0, sv_drop_parse = 0, sv_drop_backlog = 0\<rparr>"

text \<open>
  One turn of the receive loop: the address \<^verbatim>\<open>malloc\<close> returned and the datagram \<^verbatim>\<open>recvfrom\<close> read, with
  its sender; \<open>None\<close> for the one that failed. The kernel cuts a datagram at the size of the buffer.
\<close>

definition server_recv :: "nat option \<Rightarrow> (bytes \<times> bytes) option \<Rightarrow> 's udp_server \<Rightarrow> 's udp_server res" where
  "server_recv malloc recvfrom st =
     (case malloc of
        None \<Rightarrow> Ok st
      | Some p \<Rightarrow>
          let h = (sv_heap st)(p \<mapsto> \<lparr>qn_next = None, qn_job = \<lparr>uj_client = [], uj_msg = []\<rparr>\<rparr>) in
          (case recvfrom of
             None \<Rightarrow> res_bind (free_job p h) (\<lambda>h'. Ok (st\<lparr>sv_heap := h'\<rparr>))
           | Some (client, dgram) \<Rightarrow>
               let h1 = h(p \<mapsto> \<lparr>qn_next = None, qn_job = \<lparr>uj_client = client, uj_msg = take RECV_BUF dgram\<rparr>\<rparr>);
                   st1 = st\<lparr>sv_rx_count := sv_rx_count st + 1\<rparr> in
               res_bind (srv_queue_push (sv_queue st1) h1 p) (\<lambda>(ok, q', h2).
                 let st2 = st1\<lparr>sv_queue := q', sv_heap := h2\<rparr> in
                 if \<not> ok then
                   res_bind (free_job p h2) (\<lambda>h3.
                     Ok (st2\<lparr>sv_heap := h3, sv_drop_backlog := sv_drop_backlog st2 + 1\<rparr>))
                 else Ok st2)))"

text \<open>A worker takes a job: \<open>Ok None\<close> when it stays waiting, and \<open>Ok (Some (st, False))\<close> when it ends.\<close>

definition worker_take :: "'s udp_server \<Rightarrow> ('s udp_server \<times> bool) option res" where
  "worker_take st = res_bind (srv_queue_pop_wait (sv_queue st) (sv_heap st)) (\<lambda>r.
     case r of
       None \<Rightarrow> Ok None
     | Some (job, q', h') \<Rightarrow>
         let st1 = st\<lparr>sv_queue := q', sv_heap := h'\<rparr> in
         (case job of
            None \<Rightarrow> Ok (Some (st1, False))
          | Some p \<Rightarrow> Ok (Some (st1\<lparr>sv_held := sv_held st @ [p]\<rparr>, True))))"

text \<open>And deals with it; \<open>sent\<close> is whether \<^verbatim>\<open>sendto\<close> returned a positive count.\<close>

definition worker_serve :: "'s service \<Rightarrow> bool \<Rightarrow> nat \<Rightarrow> 's udp_server \<Rightarrow> 's udp_server res option" where
  "worker_serve respond sent p st =
     (case sv_heap st p of
        None \<Rightarrow> Some Fault
      | Some n \<Rightarrow>
          let job = qn_job n;
              finish = (\<lambda>st1. res_bind (free_job p (sv_heap st1)) (\<lambda>h'.
                         Ok (st1\<lparr>sv_heap := h', sv_held := remove1 p (sv_held st1)\<rparr>))) in
          (case respond (uj_msg job) DNS_MAX_MSG_LEN True (sv_backend st) of
             None \<Rightarrow> None
           | Some (Fault, b) \<Rightarrow> Some Fault
           | Some (Err, b) \<Rightarrow>
               Some (finish (st\<lparr>sv_backend := b, sv_drop_parse := sv_drop_parse st + 1\<rparr>))
           | Some (Ok resp, b) \<Rightarrow>
               if resp \<noteq> [] then
                 Some (finish (st\<lparr>sv_backend := b, sv_sent := sv_sent st @ [(uj_client job, resp, sent)],
                                  sv_tx_count := (if sent then sv_tx_count st + 1 else sv_tx_count st)\<rparr>))
               else Some (finish (st\<lparr>sv_backend := b, sv_drop_parse := sv_drop_parse st + 1\<rparr>))))"

section \<open>Runs of the server\<close>

text \<open>
  The threads' steps in any order, for a backend whose calls may differ in what they see of the
  outside world (\<open>i\<close>). The list has the datagrams received, as jobs.
\<close>

inductive server_run :: "('i \<Rightarrow> 's service) \<Rightarrow> 's \<Rightarrow> 's udp_server \<Rightarrow> udp_job list \<Rightarrow> bool"
  for respond backend where
  srv_start: "server_run respond backend (server_init backend) []"
| srv_recv: "server_run respond backend st js \<Longrightarrow>
    (case malloc of None \<Rightarrow> True | Some p \<Rightarrow> sv_heap st p = None) \<Longrightarrow> server_recv malloc dgram st = Ok st' \<Longrightarrow>
    server_run respond backend st' (case (malloc, dgram) of
      (Some _, Some (client, m)) \<Rightarrow> js @ [\<lparr>uj_client = client, uj_msg = take RECV_BUF m\<rparr>] | _ \<Rightarrow> js)"
| srv_take: "server_run respond backend st js \<Longrightarrow> worker_take st = Ok (Some (st', alive)) \<Longrightarrow>
    server_run respond backend st' js"
| srv_serve: "server_run respond backend st js \<Longrightarrow> p \<in> set (sv_held st) \<Longrightarrow>
    worker_serve (respond i) sent p st = Some (Ok st') \<Longrightarrow> server_run respond backend st' js"
| srv_stop: "server_run respond backend st js \<Longrightarrow>
    server_run respond backend (st\<lparr>sv_queue := srv_queue_shutdown (sv_queue st)\<rparr>) js"

text \<open>
  The invariant: the live jobs are those in the queue and those held by workers, each once; every
  datagram received is live, was answered or was dropped; and the counters say how many.
\<close>

definition answers :: "udp_job \<Rightarrow> bytes \<times> bytes \<times> bool \<Rightarrow> bool" where
  "answers job r \<longleftrightarrow> (case r of (client, resp, _) \<Rightarrow>
     client = uj_client job \<and> reply_to (uj_msg job) resp \<and> length resp \<le> DNS_MAX_MSG_LEN)"

definition live_jobs :: "udp_job qheap \<Rightarrow> nat list \<Rightarrow> udp_job multiset" where
  "live_jobs h ps = image_mset (\<lambda>p. qn_job (the (h p))) (mset ps)"

definition server_inv :: "('s \<Rightarrow> bool) \<Rightarrow> 's udp_server \<Rightarrow> udp_job list \<Rightarrow> nat list \<Rightarrow> udp_job list \<Rightarrow> udp_job list \<Rightarrow> bool" where
  "server_inv ready st js xs ds as \<longleftrightarrow>
     ready (sv_backend st) \<and>
     srv_queue_holds (sv_heap st) (sv_queue st) xs \<and>
     srv_queue_room (sv_queue st) = srv_queue_room (srv_queue_init MAX_PENDING) \<and>
     distinct (xs @ sv_held st) \<and> dom (sv_heap st) = set (xs @ sv_held st) \<and>
     mset js = mset as + mset ds + live_jobs (sv_heap st) (xs @ sv_held st) \<and>
     list_all2 answers as (sv_sent st) \<and>
     sv_rx_count st = of_nat (length js) \<and>
     sv_tx_count st = of_nat (length (filter (\<lambda>(_, _, sent). sent) (sv_sent st))) \<and>
     sv_drop_parse st + sv_drop_backlog st = of_nat (length ds)"

lemma live_jobs_relinks: "relinks S h h' \<Longrightarrow> set ps \<subseteq> dom h \<Longrightarrow> live_jobs h' ps = live_jobs h ps"
  unfolding live_jobs_def by (intro image_mset_cong) (auto simp: relinks_jobs(2) subset_iff)

lemma live_jobs_frame: "(\<And>p. p \<in> set ps \<Longrightarrow> h' p = h p) \<Longrightarrow> live_jobs h' ps = live_jobs h ps"
  unfolding live_jobs_def by (intro image_mset_cong) simp

lemma live_jobs_append [simp]: "live_jobs h (ps @ qs) = live_jobs h ps + live_jobs h qs"
  by (simp add: live_jobs_def)

lemma live_jobs_Cons [simp]:
  "live_jobs h [] = {#}" "live_jobs h (p # ps) = add_mset (qn_job (the (h p))) (live_jobs h ps)"
  by (simp_all add: live_jobs_def)

lemma recv_inv:
  assumes inv: "server_inv ready st js xs ds as" and fresh: "sv_heap st p = None"
  shows "\<exists>st' xs' ds'. server_recv (Some p) (Some (client, m)) st = Ok st' \<and>
    server_inv ready st' (js @ [\<lparr>uj_client = client, uj_msg = take RECV_BUF m\<rparr>]) xs' ds' as"
proof -
  let ?job = "\<lparr>uj_client = client, uj_msg = take RECV_BUF m\<rparr>"
  let ?q = "sv_queue st" and ?h1 = "(sv_heap st)(p \<mapsto> \<lparr>qn_next = None, qn_job = ?job\<rparr>)"
  have d: "p \<notin> set xs" "p \<notin> set (sv_held st)" using inv fresh by (auto simp: server_inv_def)
  have h: "srv_queue_holds ?h1 ?q xs"
    by (rule sq.holds_frame [of "sv_heap st"]) (use inv d in \<open>auto simp: server_inv_def\<close>)
  define ok where "ok = (\<not> q_shutdown ?q \<and> srv_queue_room ?q (length xs))"
  obtain q' h2 where push: "srv_queue_push ?q ?h1 p = Ok (ok, q', h2)" "srv_queue_holds h2 q' (if ok then xs @ [p] else xs)"
      "relinks (insert p (set xs)) ?h1 h2" "srv_queue_room q' = srv_queue_room ?q"
    using sq.push_law [OF h _ d(1)] unfolding ok_def by auto
  note jobs = relinks_jobs(1) [OF push(3)] live_jobs_relinks [OF push(3)]
  have dom2: "dom h2 = set (p # xs @ sv_held st)" using jobs(1) inv by (auto simp: server_inv_def)
  have live: "live_jobs h2 (xs @ sv_held st) = live_jobs (sv_heap st) (xs @ sv_held st)"
  proof (rule trans)
    show "live_jobs h2 (xs @ sv_held st) = live_jobs ?h1 (xs @ sv_held st)" by (rule jobs(2)) (use dom2 jobs(1) in auto)
    show "live_jobs ?h1 (xs @ sv_held st) = live_jobs (sv_heap st) (xs @ sv_held st)"
      by (rule live_jobs_frame) (use d in auto)
  qed
  have "live_jobs h2 [p] = {#?job#}" using jobs(2) [of "[p]"] by simp
  moreover have "dom h2 = dom (sv_heap st) \<union> {p}" using jobs(1) by auto
  ultimately show ?thesis
  proof (cases ok)
    case True
    let ?st = "st\<lparr>sv_rx_count := sv_rx_count st + 1, sv_queue := q', sv_heap := h2\<rparr>"
    have "server_recv (Some p) (Some (client, m)) st = Ok ?st" using push(1) True by (simp add: server_recv_def)
    moreover have "server_inv ready ?st (js @ [?job]) (xs @ [p]) ds as"
      using inv push True d dom2 live \<open>live_jobs h2 [p] = {#?job#}\<close> by (auto simp: server_inv_def)
    ultimately show ?thesis by blast
  next
    case False
    have "h2 p \<noteq> None" using dom2 by auto
    then obtain n where n: "h2 p = Some n" by auto
    let ?st = "st\<lparr>sv_rx_count := sv_rx_count st + 1, sv_queue := q', sv_heap := h2(p := None),
      sv_drop_backlog := sv_drop_backlog st + 1\<rparr>"
    have "server_recv (Some p) (Some (client, m)) st = Ok ?st"
      using push(1) False n by (simp add: server_recv_def free_job_def)
    moreover have "srv_queue_holds (h2(p := None)) q' xs"
      by (rule sq.holds_frame [of h2]) (use push(2) False d in auto)
    moreover have "live_jobs (h2(p := None)) (xs @ sv_held st) = live_jobs h2 (xs @ sv_held st)"
      by (rule live_jobs_frame) (use d in auto)
    ultimately have "server_inv ready ?st (js @ [?job]) xs (ds @ [?job]) as"
      using inv push(4) d dom2 live by (auto simp: server_inv_def)
    with \<open>server_recv (Some p) (Some (client, m)) st = Ok ?st\<close> show ?thesis by blast
  qed
qed

lemma recv_nothing:
  assumes "server_inv ready st js xs ds as" "sv_heap st p = None"
  shows "server_recv (Some p) None st = Ok st"
  using assms(2) by (simp add: server_recv_def free_job_def fun_upd_idem)

lemma take_inv:
  assumes inv: "server_inv ready st js xs ds as"
  shows "case xs of
      [] \<Rightarrow> worker_take st = Ok (if q_shutdown (sv_queue st) then Some (st, False) else None)
    | x # ys \<Rightarrow> \<exists>st'. worker_take st = Ok (Some (st', True)) \<and> sv_held st' = sv_held st @ [x] \<and>
        server_inv ready st' js ys ds as"
proof (cases xs)
  case Nil
  then show ?thesis
    using inv sq.pop_empty [of "sv_heap st" "sv_queue st"] by (simp add: server_inv_def worker_take_def)
next
  case (Cons x ys)
  then obtain q' h' where pop: "srv_queue_pop_wait (sv_queue st) (sv_heap st) = Ok (Some (Some x, q', h'))"
      "srv_queue_holds h' q' ys" "relinks {x} (sv_heap st) h'"
      "srv_queue_room q' = srv_queue_room (sv_queue st)"
    using inv sq.pop_law [of "sv_heap st" "sv_queue st" x ys] by (auto simp: server_inv_def)
  note jobs = relinks_jobs(1) [OF pop(3)] live_jobs_relinks [OF pop(3)]
  let ?st = "st\<lparr>sv_queue := q', sv_heap := h', sv_held := sv_held st @ [x]\<rparr>"
  have "worker_take st = Ok (Some (?st, True))" using pop(1) by (simp add: worker_take_def)
  moreover have "live_jobs h' (xs @ sv_held st) = live_jobs (sv_heap st) (xs @ sv_held st)"
    using jobs(2) inv by (simp add: server_inv_def)
  then have "live_jobs h' (ys @ sv_held st @ [x]) = live_jobs (sv_heap st) (xs @ sv_held st)"
    unfolding Cons by (simp add: live_jobs_def)
  then have "server_inv ready ?st js ys ds as"
    using inv pop jobs(1) Cons by (auto simp: server_inv_def simp del: live_jobs_append)
  ultimately show ?thesis using Cons by auto
qed

lemma serve_inv:
  assumes inv: "server_inv ready st js xs ds as" and p: "p \<in> set (sv_held st)" and svc: "dns_service respond ready"
  shows "worker_serve respond sent p st = None \<or>
    (\<exists>st' ds' as'. worker_serve respond sent p st = Some (Ok st') \<and> server_inv ready st' js xs ds' as')"
proof -
  obtain n where n: "sv_heap st p = Some n" using inv p by (auto simp: server_inv_def)
  have d: "p \<notin> set xs" "p \<notin> set (remove1 p (sv_held st))" "distinct (xs @ remove1 p (sv_held st))"
    using inv p by (auto simp: server_inv_def dest: notin_set_remove1)
  let ?h = "(sv_heap st)(p := None)" and ?held = "remove1 p (sv_held st)"
  have holds: "srv_queue_holds ?h (sv_queue st) xs"
    by (rule sq.holds_frame [of "sv_heap st"]) (use inv d in \<open>auto simp: server_inv_def\<close>)
  have live: "live_jobs (sv_heap st) (xs @ sv_held st) = live_jobs ?h (xs @ ?held) + {#qn_job n#}"
  proof -
    have "mset (xs @ sv_held st) = mset (xs @ ?held) + mset [p]" using p by simp
    then have "live_jobs (sv_heap st) (xs @ sv_held st) = live_jobs (sv_heap st) (xs @ ?held) + live_jobs (sv_heap st) [p]"
      unfolding live_jobs_def by (simp only: image_mset_union)
    moreover have "live_jobs ?h (xs @ ?held) = live_jobs (sv_heap st) (xs @ ?held)"
      by (rule live_jobs_frame) (use d in auto)
    ultimately show ?thesis using n by simp
  qed
  have dom: "dom ?h = set (xs @ ?held)" using inv p d by (auto simp: server_inv_def)
  show ?thesis
  proof (cases "respond (uj_msg (qn_job n)) DNS_MAX_MSG_LEN True (sv_backend st)")
    case None
    then show ?thesis using n by (simp add: worker_serve_def)
  next
    case (Some rb)
    obtain r b where rb: "rb = (r, b)" by (cases rb)
    have ok: "ready b" "r \<noteq> Fault"
      using dns_service.respond_keeps [OF svc, of "sv_backend st" DNS_MAX_MSG_LEN] inv Some rb
      by (auto simp: server_inv_def DNS_MAX_MSG_LEN_def)
    show ?thesis
    proof (cases "\<exists>resp. r = Ok resp \<and> resp \<noteq> []")
      case True
      then obtain resp where resp: "r = Ok resp" "resp \<noteq> []" by blast
      let ?r = "(uj_client (qn_job n), resp, sent)"
      have a: "answers (qn_job n) ?r"
        using dns_service.respond_reply [OF svc, of "sv_backend st" DNS_MAX_MSG_LEN] inv Some rb resp
        by (auto simp: server_inv_def answers_def DNS_MAX_MSG_LEN_def)
      let ?st = "st\<lparr>sv_backend := b, sv_sent := sv_sent st @ [?r],
        sv_tx_count := (if sent then sv_tx_count st + 1 else sv_tx_count st), sv_heap := ?h, sv_held := ?held\<rparr>"
      have "worker_serve respond sent p st = Some (Ok ?st)"
        using n Some rb resp by (simp add: worker_serve_def free_job_def)
      moreover have "server_inv ready ?st js xs ds (as @ [qn_job n])"
        using inv ok holds live dom d a by (auto simp: server_inv_def list_all2_appendI)
      ultimately show ?thesis by blast
    next
      case False
      let ?st = "st\<lparr>sv_backend := b, sv_drop_parse := sv_drop_parse st + 1, sv_heap := ?h, sv_held := ?held\<rparr>"
      have "worker_serve respond sent p st = Some (Ok ?st)"
        using n Some rb ok False by (cases r) (auto simp: worker_serve_def free_job_def)
      moreover have "server_inv ready ?st js xs (ds @ [qn_job n]) as"
        using inv ok holds live dom d by (auto simp: server_inv_def)
      ultimately show ?thesis by blast
    qed
  qed
qed

lemma server_run_inv:
  assumes "server_run respond backend st js" "\<And>i. dns_service (respond i) ready" "ready backend"
  shows "\<exists>xs ds as. server_inv ready st js xs ds as"
  using assms(1)
proof induction
  case srv_start
  have "server_inv ready (server_init backend) [] [] [] []"
    using assms(3) queue_init_holds(2) by (simp add: server_inv_def server_init_def)
  then show ?case by blast
next
  case (srv_recv st js malloc dgram st')
  then obtain xs ds as where inv: "server_inv ready st js xs ds as" by blast
  show ?case
  proof (cases "malloc = None \<or> dgram = None")
    case True
    then have "st' = st" using srv_recv(2,3) recv_nothing [OF inv, of "the malloc"]
      by (cases malloc) (auto simp: server_recv_def free_job_def fun_upd_idem)
    then show ?thesis using inv True by (auto split: option.splits)
  next
    case False
    then obtain p client m where "malloc = Some p" "dgram = Some (client, m)" by auto
    then show ?thesis using recv_inv [OF inv, of p client m] srv_recv(2,3) by auto
  qed
next
  case (srv_take st js st' alive)
  then obtain xs ds as where "server_inv ready st js xs ds as" by blast
  from take_inv [OF this] this srv_take(2) show ?case by (cases xs) (auto split: if_splits)
next
  case (srv_serve st js p i sent st')
  then obtain xs ds as where "server_inv ready st js xs ds as" by blast
  from serve_inv [OF this srv_serve(2) assms(2), of i sent] srv_serve(3) show ?case by auto
next
  case (srv_stop st js)
  then obtain xs ds as where "server_inv ready st js xs ds as" by blast
  then have "server_inv ready (st\<lparr>sv_queue := srv_queue_shutdown (sv_queue st)\<rparr>) js xs ds as"
    using sq.close_law [of "sv_heap st" "sv_queue st" xs] by (simp add: server_inv_def)
  then show ?case by blast
qed

text \<open>The threads can always go on: no step of a run leaves the memory it owns.\<close>

definition server_safe :: "('i \<Rightarrow> 's service) \<Rightarrow> 's udp_server \<Rightarrow> bool" where
  "server_safe respond st \<longleftrightarrow> is_ok (worker_take st) \<and>
     (\<forall>p dgram. sv_heap st p = None \<longrightarrow> is_ok (server_recv (Some p) dgram st)) \<and>
     (\<forall>p i sent. p \<in> set (sv_held st) \<longrightarrow> (case worker_serve (respond i) sent p st of None \<Rightarrow> True | Some r \<Rightarrow> is_ok r))"

lemma server_inv_safe:
  assumes inv: "server_inv ready st js xs ds as" and svc: "\<And>i. dns_service (respond i) ready"
  shows "server_safe respond st"
proof -
  have "is_ok (worker_take st)" using take_inv [OF inv] by (cases xs) auto
  moreover have "is_ok (server_recv (Some p) dgram st)" if "sv_heap st p = None" for p dgram
  proof (cases dgram)
    case (Some cm)
    then show ?thesis using recv_inv [OF inv that, of "fst cm" "snd cm"] by auto
  qed (simp add: recv_nothing [OF inv that])
  moreover have "case worker_serve (respond i) sent p st of None \<Rightarrow> True | Some r \<Rightarrow> is_ok r"
    if "p \<in> set (sv_held st)" for p i sent using serve_inv [OF inv that svc, of i sent] by auto
  ultimately show ?thesis by (auto simp: server_safe_def)
qed

section \<open>Properties\<close>

text \<open>C34: The UDP server answers each client once and loses no query unnoticed. In every state its
  threads can reach, over the recursive backend started empty, the datagrams received are, as a
  multiset, those answered, those dropped and those still queued or in the hands of a worker. Each
  \<^verbatim>\<open>sendto\<close> went to the sender of a different one of the answered datagrams, with a reply to its
  query of at most \<^verbatim>\<open>DNS_MAX_MSG_LEN\<close> bytes. The counters say how many datagrams came in, how many
  replies the kernel took and how many queries were dropped. The backlog is within \<^verbatim>\<open>MAX_PENDING\<close>, the
  live jobs are exactly the pending ones, so that none leaks, and no further step faults.\<close>

theorem udp_server_answers:
  assumes "\<forall>h p. calloc h = Some p \<longrightarrow> h p = None"
    and "server_run (recursive_backend calloc) (dns_backend_init env \<lparr>rv_cache = cache_static, rv_state = s\<rparr>) st js"
  shows "\<exists>as ds. mset js = mset as + mset ds + image_mset (\<lambda>p. qn_job (the (sv_heap st p))) (mset_set (dom (sv_heap st))) \<and>
    list_all2 answers as (sv_sent st) \<and>
    sv_rx_count st = of_nat (length js) \<and>
    sv_tx_count st = of_nat (length (filter (\<lambda>(_, _, sent). sent) (sv_sent st))) \<and>
    sv_drop_parse st + sv_drop_backlog st = of_nat (length ds) \<and>
    card (dom (sv_heap st)) \<le> 4096 + length (sv_held st) \<and>
    server_safe (recursive_backend calloc) st"
proof -
  have "backend_ready calloc (dns_backend_init env \<lparr>rv_cache = cache_static, rv_state = s\<rparr>)"
    using assms(1) backend_init_inv by (simp add: backend_ready_def)
  from server_run_inv [OF assms(2) recursive_service this] obtain xs ds as where
    inv: "server_inv (backend_ready calloc) st js xs ds as" by blast
  have d: "distinct (xs @ sv_held st)" "dom (sv_heap st) = set (xs @ sv_held st)" using inv by (auto simp: server_inv_def)
  have live: "live_jobs (sv_heap st) (xs @ sv_held st) =
      image_mset (\<lambda>p. qn_job (the (sv_heap st p))) (mset_set (dom (sv_heap st)))"
    unfolding live_jobs_def d(2) using mset_set_set [OF d(1)] by simp
  have "srv_queue_room (sv_queue st) n \<longleftrightarrow> n < 4096" for n
    using inv by (simp add: server_inv_def srv_queue_room_def srv_queue_init_def MAX_PENDING_def)
  from this [of 4096] have "unat (q_cap (sv_queue st)) \<le> 4096" by (simp add: srv_queue_room_def)
  then have "length xs \<le> 4096" using inv by (simp add: server_inv_def srv_queue_holds_def)
  then have "card (dom (sv_heap st)) \<le> 4096 + length (sv_held st)" unfolding d(2) distinct_card [OF d(1)] by simp
  moreover have "server_safe (recursive_backend calloc) st" by (rule server_inv_safe [OF inv recursive_service])
  ultimately show ?thesis
    using inv live by (intro exI [of _ as] exI [of _ ds]) (simp add: server_inv_def del: live_jobs_append)
qed

definition demo_server :: "unit resolver \<Rightarrow> unit resolver udp_server" where
  "demo_server b = (server_init b)\<lparr>sv_rx_count := 1,
     sv_queue := \<lparr>q_head = Some 0, q_tail = Some 0, q_count = 1, q_cap = 4096, q_shutdown = False, q_notify_fd = - 1\<rparr>,
     sv_heap := [0 \<mapsto> \<lparr>qn_next = None, qn_job = \<lparr>uj_client = [10], uj_msg = [1, 2]\<rparr>\<rparr>]\<rparr>"

theorem udp_server_answers_witness:
  "\<exists>b. \<exists>as ds. mset [\<lparr>uj_client = [10], uj_msg = [1, 2]\<rparr>] =
      mset as + mset ds + image_mset (\<lambda>p. qn_job (the (sv_heap (demo_server b) p))) (mset_set (dom (sv_heap (demo_server b)))) \<and>
    list_all2 answers as (sv_sent (demo_server b)) \<and>
    card (dom (sv_heap (demo_server b))) \<le> 4096 + length (sv_held (demo_server b)) \<and>
    server_safe (recursive_backend any_free) (demo_server b)"
proof -
  have free: "\<forall>h p. any_free h = Some p \<longrightarrow> h p = None"
    by (auto simp: any_free_def intro: someI split: if_splits)
  let ?b = "dns_backend_init None \<lparr>rv_cache = cache_static, rv_state = first_state\<rparr>"
  have "server_recv (Some 0) (Some ([10], [1, 2])) (server_init ?b) = Ok (demo_server ?b)"
    by (simp add: server_recv_def server_init_def demo_server_def srv_queue_push_def srv_queue_init_def MAX_PENDING_def
        link_tail_def set_next_def RECV_BUF_def)
  from srv_recv [OF srv_start [of "recursive_backend any_free" ?b] _ this]
  have "server_run (recursive_backend any_free) ?b (demo_server ?b) [\<lparr>uj_client = [10], uj_msg = [1, 2]\<rparr>]"
    by (simp add: server_init_def RECV_BUF_def)
  from udp_server_answers [OF free this] show ?thesis by blast
qed

end
