(* ===== verification/DnsTcp.thy ===== *)
theory DnsTcp
  imports DnsBackend
begin

text \<open>
  DNS over TCP (\<^verbatim>\<open>dns_tcp.c\<close>): the framing of messages on a connection, the loop that serves one
  connection, the table of connections, the accept loop, and start and stop of the server.

  A connected socket is two scripts and a log: what the calls of \<^verbatim>\<open>recv\<close> will see, what the calls of
  \<^verbatim>\<open>send\<close> will do, and the bytes sent so far. The scripts are arguments of the theorems, so these hold
  however TCP cuts the stream into segments, and wherever signals and errors strike.
\<close>

section \<open>Sockets\<close>

text \<open>The end of the script, and an empty segment, are the peer closing.\<close>

datatype recv_event = Data bytes | RecvIntr | RecvFail
datatype recv_result = Received bytes | RecvEINTR | RecvError

fun recv :: "recv_event list \<Rightarrow> nat \<Rightarrow> recv_result \<times> recv_event list" where
  "recv [] n = (Received [], [])"
| "recv (Data bs # es) n = (Received (take n bs), if length bs \<le> n then es else Data (drop n bs) # es)"
| "recv (RecvIntr # es) n = (RecvEINTR, es)"
| "recv (RecvFail # es) n = (RecvError, es)"

text \<open>\<open>Accept k\<close> is a call that takes at most \<open>k\<close> bytes; past the script the kernel takes everything.\<close>

datatype send_event = Accept nat | SendIntr | SendFail
datatype send_result = Sent nat | SendEINTR | SendError

fun send :: "send_event list \<Rightarrow> bytes \<Rightarrow> send_result \<times> send_event list" where
  "send [] bs = (Sent (length bs), [])"
| "send (Accept k # es) bs = (Sent (min k (length bs)), es)"
| "send (SendIntr # es) bs = (SendEINTR, es)"
| "send (SendFail # es) bs = (SendError, es)"

record tcp_conn =
  tc_in :: "recv_event list"
  tc_sends :: "send_event list"
  tc_out :: bytes

section \<open>Definitions\<close>

definition DNS_TCP_MAX_CONNS :: nat where "DNS_TCP_MAX_CONNS = 128"

record tcp_server =
  ts_conn_fds :: "int list"
  ts_active_conns :: int
  ts_stop :: bool
  ts_accepted :: u64
  ts_rejected :: u64
  ts_queries :: u64
  ts_answered :: u64

subsection \<open>The connection table\<close>

fun free_slot :: "int list \<Rightarrow> nat option" where
  "free_slot [] = None"
| "free_slot (fd # fds) = (if fd = - 1 then Some 0 else map_option Suc (free_slot fds))"

definition conn_reserve :: "int \<Rightarrow> tcp_server \<Rightarrow> nat option \<times> tcp_server" where
  "conn_reserve fd srv = (case free_slot (ts_conn_fds srv) of
     None \<Rightarrow> (None, srv)
   | Some slot \<Rightarrow> (Some slot, srv\<lparr>ts_conn_fds := (ts_conn_fds srv)[slot := fd],
                                ts_active_conns := ts_active_conns srv + 1\<rparr>))"

text \<open>
  The part of \<^verbatim>\<open>conn_release\<close> under the lock, which also closes the descriptor, and the decrement
  after it: other threads may run in between.
\<close>

definition release_slot :: "nat \<Rightarrow> tcp_server \<Rightarrow> tcp_server res" where
  "release_slot slot srv = (if slot < length (ts_conn_fds srv)
     then Ok (srv\<lparr>ts_conn_fds := (ts_conn_fds srv)[slot := - 1]\<rparr>) else Fault)"

definition release_count :: "tcp_server \<Rightarrow> tcp_server" where
  "release_count srv = srv\<lparr>ts_active_conns := ts_active_conns srv - 1\<rparr>"

subsection \<open>Framing\<close>

definition recv_work :: "recv_event list \<Rightarrow> nat" where
  "recv_work es = sum_list (map (\<lambda>e. case e of Data bs \<Rightarrow> Suc (length bs) | _ \<Rightarrow> 1) es)"

lemma recv_work_simps [simp]: "recv_work [] = 0" "recv_work (Data bs # es) = Suc (length bs) + recv_work es"
  "recv_work (RecvIntr # es) = Suc (recv_work es)" "recv_work (RecvFail # es) = Suc (recv_work es)"
  by (simp_all add: recv_work_def)

lemma recv_work_less:
  assumes "recv es n = (r, es')" "r \<noteq> Received []"
  shows "recv_work es' < recv_work es"
proof (cases "(es, n)" rule: recv.cases)
  case (2 bs es1 m)
  then have "0 < m \<and> bs \<noteq> []" using assms by auto
  then show ?thesis using 2 assms by (auto split: if_splits)
qed (use assms in auto)

text \<open>\<open>buf\<close> is what has been read so far into a buffer of \<open>cap\<close> bytes; \<open>None\<close> is \<^verbatim>\<open>false\<close>.\<close>

function read_loop :: "nat \<Rightarrow> nat \<Rightarrow> bytes \<Rightarrow> recv_event list \<Rightarrow> (bytes option \<times> recv_event list) res" where
  "read_loop cap n buf es =
     (if length buf < n then
        (case recv es (n - length buf) of
           (Received [], es') \<Rightarrow> Ok (None, es')
         | (Received (b # bs), es') \<Rightarrow> res_bind (buf_append cap buf (b # bs)) (\<lambda>buf'. read_loop cap n buf' es')
         | (RecvEINTR, es') \<Rightarrow> read_loop cap n buf es'
         | (RecvError, es') \<Rightarrow> Ok (None, es'))
      else Ok (Some buf, es))"
  by pat_completeness auto
termination
  by (relation "measure (\<lambda>(cap, n, buf, es). recv_work es)") (auto dest: recv_work_less [OF sym])

declare read_loop.simps [simp del]

definition read_full :: "nat \<Rightarrow> nat \<Rightarrow> recv_event list \<Rightarrow> (bytes option \<times> recv_event list) res" where
  "read_full cap n es = read_loop cap n [] es"

text \<open>\<open>sent\<close> bytes of \<open>bs\<close> have gone out.\<close>

function write_loop :: "bytes \<Rightarrow> nat \<Rightarrow> tcp_conn \<Rightarrow> bool \<times> tcp_conn" where
  "write_loop bs sent c =
     (if sent < length bs then
        (case send (tc_sends c) (drop sent bs) of
           (SendEINTR, es') \<Rightarrow> write_loop bs sent (c\<lparr>tc_sends := es'\<rparr>)
         | (SendError, es') \<Rightarrow> (False, c\<lparr>tc_sends := es'\<rparr>)
         | (Sent w, es') \<Rightarrow> write_loop bs (sent + w)
                              (c\<lparr>tc_sends := es', tc_out := tc_out c @ take w (drop sent bs)\<rparr>))
      else (True, c))"
  by pat_completeness auto

lemma send_shrinks:
  "send es bs = (r, es') \<Longrightarrow> length es' < length es \<or> es = [] \<and> r = Sent (length bs) \<and> es' = []"
  by (cases "(es, bs)" rule: send.cases) auto

termination write_loop
proof (relation "measures [\<lambda>(bs, sent, c). length (tc_sends c), \<lambda>(bs, sent, c). length bs - sent]", goal_cases)
  case 1
  show ?case by simp
next
  case (2 bs sent c r es' w)
  then show ?case using send_shrinks [of "tc_sends c" "drop sent bs" r es'] by auto
next
  case (3 bs sent c r es')
  then show ?case using send_shrinks [of "tc_sends c" "drop sent bs" r es'] by auto
qed

declare write_loop.simps [simp del]

definition write_full :: "bytes \<Rightarrow> tcp_conn \<Rightarrow> bool \<times> tcp_conn" where
  "write_full bs c = write_loop bs 0 c"

subsection \<open>One connection\<close>

text \<open>
  One turn of the loop of \<^verbatim>\<open>conn_main\<close>; the flag says whether there is another. \<open>None\<close> is a backend
  call that does not return.
\<close>

definition conn_turn :: "'s service \<Rightarrow> tcp_server \<Rightarrow> tcp_conn \<Rightarrow> 's \<Rightarrow> (bool \<times> tcp_server \<times> tcp_conn \<times> 's) res option" where
  "conn_turn respond srv c s =
     (case read_full 2 2 (tc_in c) of
        Fault \<Rightarrow> Some Fault
      | Err \<Rightarrow> Some Err
      | Ok (None, es) \<Rightarrow> Some (Ok (False, srv, c\<lparr>tc_in := es\<rparr>, s))
      | Ok (Some lenbuf, es) \<Rightarrow>
          let mlen = be16 (lenbuf ! 0) (lenbuf ! 1) in
          if mlen = 0 then Some (Ok (False, srv, c\<lparr>tc_in := es\<rparr>, s))
          else (case read_full DNS_MAX_TCP_MSG_LEN (unat mlen) es of
             Fault \<Rightarrow> Some Fault
           | Err \<Rightarrow> Some Err
           | Ok (None, es1) \<Rightarrow> Some (Ok (False, srv, c\<lparr>tc_in := es1\<rparr>, s))
           | Ok (Some query, es1) \<Rightarrow>
               let srv1 = srv\<lparr>ts_queries := ts_queries srv + 1\<rparr>; c1 = c\<lparr>tc_in := es1\<rparr> in
               (case respond query DNS_MAX_TCP_MSG_LEN False s of
                  None \<Rightarrow> None
                | Some (Fault, s1) \<Rightarrow> Some Fault
                | Some (Err, s1) \<Rightarrow> Some (Ok (True, srv1, c1, s1))
                | Some (Ok resp, s1) \<Rightarrow>
                    if length resp = 0 \<or> DNS_MAX_TCP_MSG_LEN < length resp then Some (Ok (True, srv1, c1, s1))
                    else let outlen = [of_nat (drop_bit 8 (length resp)), of_nat (length resp)] in
                      (case write_full outlen c1 of
                         (False, c2) \<Rightarrow> Some (Ok (False, srv1, c2, s1))
                       | (True, c2) \<Rightarrow>
                           (case write_full resp c2 of
                              (False, c3) \<Rightarrow> Some (Ok (False, srv1, c3, s1))
                            | (True, c3) \<Rightarrow>
                                Some (Ok (True, srv1\<lparr>ts_answered := ts_answered srv1 + 1\<rparr>, c3, s1)))))))"

lemma read_loop_work:
  "read_loop cap n buf es = Ok (Some r, es') \<Longrightarrow> recv_work es' \<le> recv_work es \<and> (length buf < n \<longrightarrow> recv_work es' < recv_work es)"
proof (induction cap n buf es rule: read_loop.induct)
  case (1 cap n buf es)
  note step = 1(3) [unfolded read_loop.simps [of cap n buf es]]
  show ?case
  proof (cases "length buf < n")
    case True
    obtain r0 es0 where r0: "recv es (n - length buf) = (r0, es0)" by fastforce
    note less = recv_work_less [OF r0]
    show ?thesis
    proof (cases r0)
      case (Received bs)
      then show ?thesis using 1(1) [OF True r0 [symmetric]] step True r0 less by (cases bs) auto
    next
      case RecvEINTR
      then show ?thesis using 1(2) [OF True r0 [symmetric]] step True r0 less by auto
    qed (use step True r0 in auto)
  qed (use step in auto)
qed

lemma write_loop_in: "tc_in (snd (write_loop bs sent c)) = tc_in c"
proof (induction bs sent c rule: write_loop.induct)
  case (1 bs sent c)
  then show ?case
    by (subst write_loop.simps) (auto split: prod.split send_result.split)
qed

lemma write_full_in: "write_full bs c = (ok, c') \<Longrightarrow> tc_in c' = tc_in c"
  using write_loop_in [of bs 0 c] by (simp add: write_full_def)

lemma read_full_work: "read_full cap n es = Ok (Some r, es') \<Longrightarrow> recv_work es' \<le> recv_work es"
  "read_full cap 2 es = Ok (Some r, es') \<Longrightarrow> recv_work es' < recv_work es"
  using read_loop_work [of cap n "[]" es r es'] read_loop_work [of cap 2 "[]" es r es'] by (auto simp: read_full_def)

lemma conn_turn_work:
  "conn_turn respond srv c s = Some (Ok (True, srv', c', s')) \<Longrightarrow> recv_work (tc_in c') < recv_work (tc_in c)"
  by (fastforce simp: conn_turn_def Let_def dest: read_full_work write_full_in
      split: res.splits option.splits prod.splits if_splits bool.splits)

text \<open>Call \<open>k\<close> of the backend is \<open>respond k\<close>: what others did to the backend since the last call is part of it.\<close>

function conn_loop :: "(nat \<Rightarrow> 's service) \<Rightarrow> nat \<Rightarrow> tcp_server \<Rightarrow> tcp_conn \<Rightarrow> 's \<Rightarrow> (tcp_server \<times> tcp_conn \<times> 's) res option" where
  "conn_loop respond k srv c s =
     (case conn_turn (respond k) srv c s of
        None \<Rightarrow> None
      | Some Fault \<Rightarrow> Some Fault
      | Some Err \<Rightarrow> Some Err
      | Some (Ok (more_to_do, srv', c', s')) \<Rightarrow>
          if more_to_do then conn_loop respond (k + 1) srv' c' s' else Some (Ok (srv', c', s')))"
  by pat_completeness auto
termination
  by (relation "measure (\<lambda>(respond, k, srv, c, s). recv_work (tc_in c))") (auto dest: conn_turn_work)

declare conn_loop.simps [simp del]

text \<open>The thread of a connection: \<open>mem\<close> is whether both buffers could be allocated.\<close>

definition conn_main :: "(nat \<Rightarrow> 's service) \<Rightarrow> bool \<Rightarrow> nat \<Rightarrow> tcp_server \<Rightarrow> tcp_conn \<Rightarrow> 's \<Rightarrow> (tcp_server \<times> tcp_conn \<times> 's) res option" where
  "conn_main respond mem slot srv c s =
     (case (if mem then conn_loop respond 0 srv c s else Some (Ok (srv, c, s))) of
        None \<Rightarrow> None
      | Some Fault \<Rightarrow> Some Fault
      | Some Err \<Rightarrow> Some Err
      | Some (Ok (srv1, c1, s1)) \<Rightarrow>
          Some (res_bind (release_slot slot srv1) (\<lambda>srv2. Ok (release_count srv2, c1, s1))))"

subsection \<open>The server and its threads\<close>

text \<open>
  The process around the server record: the connection sockets that are open, the connection
  threads with their slot and descriptor, how many threads are between the two parts of
  \<^verbatim>\<open>conn_release\<close>, whether the accept thread runs, and whether the record has been freed. Closing a
  descriptor that is not open is a \<open>Fault\<close>: the number may by then belong to something else.
\<close>

record tcp_world =
  tw_srv :: tcp_server
  tw_open :: "int set"
  tw_threads :: "(nat \<times> int) list"
  tw_leaving :: nat
  tw_accepting :: bool
  tw_freed :: bool

definition close_fd :: "int \<Rightarrow> tcp_world \<Rightarrow> tcp_world res" where
  "close_fd fd w = (if fd \<in> tw_open w then Ok (w\<lparr>tw_open := tw_open w - {fd}\<rparr>) else Fault)"

definition conn_release_locked :: "nat \<Rightarrow> int \<Rightarrow> tcp_world \<Rightarrow> tcp_world res" where
  "conn_release_locked slot fd w =
     res_bind (release_slot slot (tw_srv w)) (\<lambda>srv. close_fd fd (w\<lparr>tw_srv := srv\<rparr>))"

definition conn_release :: "nat \<Rightarrow> int \<Rightarrow> tcp_world \<Rightarrow> tcp_world res" where
  "conn_release slot fd w = res_bind (conn_release_locked slot fd w) (\<lambda>w1. Ok (w1\<lparr>tw_srv := release_count (tw_srv w1)\<rparr>))"

text \<open>
  One turn of the accept loop: the descriptor \<^verbatim>\<open>accept\<close> returned, if \<^verbatim>\<open>poll\<close> reported one and it did
  not fail, and whether the context could be allocated and the thread created.
\<close>

definition accept_turn :: "int option \<Rightarrow> bool \<Rightarrow> bool \<Rightarrow> tcp_world \<Rightarrow> tcp_world res" where
  "accept_turn accepted malloc create w =
     (case accepted of
        None \<Rightarrow> Ok w
      | Some fd \<Rightarrow>
          let w1 = w\<lparr>tw_open := insert fd (tw_open w)\<rparr> in
          (case conn_reserve fd (tw_srv w1) of
             (None, srv) \<Rightarrow> close_fd fd (w1\<lparr>tw_srv := srv\<lparr>ts_rejected := ts_rejected srv + 1\<rparr>\<rparr>)
           | (Some slot, srv) \<Rightarrow>
               let w2 = w1\<lparr>tw_srv := srv\<rparr> in
               if \<not> malloc then conn_release slot fd w2
               else if \<not> create then conn_release slot fd w2
               else Ok (w2\<lparr>tw_threads := tw_threads w2 @ [(slot, fd)],
                           tw_srv := srv\<lparr>ts_accepted := ts_accepted srv + 1\<rparr>\<rparr>)))"

definition tcp_server_init :: tcp_server where
  "tcp_server_init = \<lparr>ts_conn_fds = replicate DNS_TCP_MAX_CONNS (- 1), ts_active_conns = 0, ts_stop = False,
     ts_accepted = 0, ts_rejected = 0, ts_queries = 0, ts_answered = 0\<rparr>"

text \<open>
  Start-up, given what each system call returns: the server with its listening descriptor, or
  nothing, and the descriptors closed again.
\<close>

definition dns_tcp_server_start :: "bool \<Rightarrow> int \<Rightarrow> bool \<Rightarrow> bool \<Rightarrow> bool \<Rightarrow> (tcp_server \<times> int) option \<times> int list" where
  "dns_tcp_server_start calloc socket bind listen create =
     (if \<not> calloc then (None, [])
      else if socket < 0 then (None, [])
      else if \<not> bind then (None, [socket])
      else if \<not> listen then (None, [socket])
      else if \<not> create then (None, [socket])
      else (Some (tcp_server_init, socket), []))"

text \<open>The descriptors that \<^verbatim>\<open>dns_tcp_server_stop\<close> shuts down.\<close>

definition stop_scan :: "tcp_server \<Rightarrow> int list" where
  "stop_scan srv = filter (\<lambda>fd. fd \<noteq> - 1) (ts_conn_fds srv)"

definition dns_tcp_server_stats :: "tcp_server option \<Rightarrow> (u64 \<times> u64 \<times> u64 \<times> u64) option" where
  "dns_tcp_server_stats srv = map_option (\<lambda>s. (ts_accepted s, ts_rejected s, ts_queries s, ts_answered s)) srv"

text \<open>
  The steps of the threads. \<^verbatim>\<open>accept\<close> returns a descriptor that is not open. Stopping sets the flag,
  joins the accept thread, and frees the record once the count of connections has gone to zero.
\<close>

inductive tcp_run :: "tcp_world \<Rightarrow> bool" where
  tcp_start: "dns_tcp_server_start calloc socket bind listen create = (Some (srv, lfd), []) \<Longrightarrow>
    tcp_run \<lparr>tw_srv = srv, tw_open = {}, tw_threads = [], tw_leaving = 0, tw_accepting = True, tw_freed = False\<rparr>"
| tcp_accept: "tcp_run w \<Longrightarrow> tw_accepting w \<Longrightarrow>
    (case accepted of None \<Rightarrow> True | Some fd \<Rightarrow> 0 \<le> fd \<and> fd \<notin> tw_open w) \<Longrightarrow>
    accept_turn accepted malloc create w = Ok w' \<Longrightarrow> tcp_run w'"
| tcp_serve: "tcp_run w \<Longrightarrow> tw_threads w \<noteq> [] \<Longrightarrow>
    tcp_run (w\<lparr>tw_srv := (tw_srv w)\<lparr>ts_queries := q, ts_answered := a\<rparr>\<rparr>)"
| tcp_leave: "tcp_run w \<Longrightarrow> (slot, fd) \<in> set (tw_threads w) \<Longrightarrow> conn_release_locked slot fd w = Ok w' \<Longrightarrow>
    tcp_run (w'\<lparr>tw_threads := remove1 (slot, fd) (tw_threads w'), tw_leaving := tw_leaving w' + 1\<rparr>)"
| tcp_left: "tcp_run w \<Longrightarrow> 0 < tw_leaving w \<Longrightarrow>
    tcp_run (w\<lparr>tw_srv := release_count (tw_srv w), tw_leaving := tw_leaving w - 1\<rparr>)"
| tcp_stop: "tcp_run w \<Longrightarrow> \<not> tw_freed w \<Longrightarrow> tcp_run (w\<lparr>tw_srv := (tw_srv w)\<lparr>ts_stop := True\<rparr>\<rparr>)"
| tcp_join: "tcp_run w \<Longrightarrow> ts_stop (tw_srv w) \<Longrightarrow> tcp_run (w\<lparr>tw_accepting := False\<rparr>)"
| tcp_free: "tcp_run w \<Longrightarrow> \<not> tw_accepting w \<Longrightarrow> \<not> 0 < ts_active_conns (tw_srv w) \<Longrightarrow> tcp_run (w\<lparr>tw_freed := True\<rparr>)"

section \<open>The stream\<close>

text \<open>The bytes the peer's stream delivers before it ends, fails or closes.\<close>

fun stream :: "recv_event list \<Rightarrow> bytes" where
  "stream [] = []"
| "stream (Data bs # es) = (if bs = [] then [] else bs @ stream es)"
| "stream (RecvIntr # es) = stream es"
| "stream (RecvFail # es) = []"

lemma recv_stream:
  assumes "recv es n = (r, es')" "0 < n"
  shows "case r of
      Received bs \<Rightarrow> length bs \<le> n \<and> (if bs = [] then stream es = [] else stream es = bs @ stream es')
    | RecvEINTR \<Rightarrow> stream es' = stream es
    | RecvError \<Rightarrow> stream es = []"
proof (cases "(es, n)" rule: recv.cases)
  case (2 bs es1 m)
  then show ?thesis using assms by (auto split: if_splits)
qed (use assms in auto)

lemma read_loop_stream:
  assumes "n \<le> cap" "length buf \<le> n"
  shows "if n - length buf \<le> length (stream es)
    then \<exists>es'. read_loop cap n buf es = Ok (Some (buf @ take (n - length buf) (stream es)), es') \<and>
      stream es' = drop (n - length buf) (stream es)
    else \<exists>es'. read_loop cap n buf es = Ok (None, es')"
  using assms
proof (induction cap n buf es rule: read_loop.induct)
  case (1 cap n buf es)
  show ?case
  proof (cases "length buf < n")
    case True
    obtain r0 es0 where r0: "recv es (n - length buf) = (r0, es0)" by fastforce
    note st = recv_stream [OF r0]
    show ?thesis
    proof (cases r0)
      case (Received bs)
      show ?thesis
      proof (cases bs)
        case Nil
        then show ?thesis using Received True r0 st by (subst (1 2) read_loop.simps) auto
      next
        case (Cons b bs')
        then have l: "length buf + length bs \<le> n" using Received True st by auto
        have step: "read_loop cap n buf es = read_loop cap n (buf @ bs) es0"
          using Received Cons True r0 l 1(3) by (subst read_loop.simps) (auto simp: buf_append_def)
        have s: "stream es = bs @ stream es0" using Received Cons True st by simp
        have d: "n - length (buf @ bs) = n - length buf - length bs" by simp
        have "take (n - length buf) (stream es) = bs @ take (n - length buf - length bs) (stream es0)"
          "drop (n - length buf) (stream es) = drop (n - length buf - length bs) (stream es0)"
          "n - length buf \<le> length (stream es) \<longleftrightarrow> n - length buf - length bs \<le> length (stream es0)"
          using l by (auto simp: s)
        moreover have "buf_append cap buf (b # bs') = Ok (buf @ bs)" using Cons l 1(3) by simp
        from 1(1) [OF True r0 [symmetric] Received Cons this 1(3)]
        have "if n - length (buf @ bs) \<le> length (stream es0)
          then \<exists>es'. read_loop cap n (buf @ bs) es0 = Ok (Some ((buf @ bs) @ take (n - length (buf @ bs)) (stream es0)), es') \<and>
            stream es' = drop (n - length (buf @ bs)) (stream es0)
          else \<exists>es'. read_loop cap n (buf @ bs) es0 = Ok (None, es')" using l by simp
        ultimately show ?thesis unfolding step d by (simp only: append_assoc)
      qed
    next
      case RecvEINTR
      then have "read_loop cap n buf es = read_loop cap n buf es0" using True r0 by (subst read_loop.simps) simp
      moreover have "stream es0 = stream es" using True st RecvEINTR by simp
      ultimately show ?thesis using 1(2) [OF True r0 [symmetric] RecvEINTR 1(3,4)] by (simp only:)
    next
      case RecvError
      then show ?thesis using True r0 st by (subst (1 2) read_loop.simps) auto
    qed
  qed (use 1(4) in \<open>subst (1 2) read_loop.simps, auto\<close>)
qed

lemma read_full_stream:
  assumes "n \<le> cap"
  shows "n \<le> length (stream es) \<Longrightarrow> \<exists>es'. read_full cap n es = Ok (Some (take n (stream es)), es') \<and> stream es' = drop n (stream es)"
    "\<not> n \<le> length (stream es) \<Longrightarrow> \<exists>es'. read_full cap n es = Ok (None, es')"
  using read_loop_stream [of n cap "[]" es] assms by (simp_all add: read_full_def)

text \<open>What a write puts out is a prefix of its argument, and all of it when it reports success.\<close>

lemma write_loop_out:
  "sent \<le> length bs \<Longrightarrow> \<exists>ok m es. write_loop bs sent c = (ok, c\<lparr>tc_sends := es, tc_out := tc_out c @ take m (drop sent bs)\<rparr>) \<and>
    (ok \<longrightarrow> length bs \<le> sent + m) \<and> set es \<subseteq> set (tc_sends c) \<and> (SendFail \<notin> set (tc_sends c) \<longrightarrow> ok)"
proof (induction bs sent c rule: write_loop.induct)
  case (1 bs sent c)
  show ?case
  proof (cases "sent < length bs")
    case True
    obtain r es where r: "send (tc_sends c) (drop sent bs) = (r, es)" by fastforce
    have es: "set es \<subseteq> set (tc_sends c)" "r = SendError \<Longrightarrow> SendFail \<in> set (tc_sends c)"
      "r = Sent w \<Longrightarrow> w \<le> length bs - sent" for w
      using r by (cases "(tc_sends c, drop sent bs)" rule: send.cases; auto)+
    show ?thesis
    proof (cases r)
      case (Sent w)
      let ?c = "c\<lparr>tc_sends := es, tc_out := tc_out c @ take w (drop sent bs)\<rparr>"
      have step: "write_loop bs sent c = write_loop bs (sent + w) ?c"
        using True r Sent by (subst write_loop.simps) simp
      have le: "sent + w \<le> length bs" using es(3) [OF Sent] True by linarith
      obtain ok m es' where ih: "write_loop bs (sent + w) ?c = (ok, ?c\<lparr>tc_sends := es', tc_out := tc_out ?c @ take m (drop (sent + w) bs)\<rparr>)"
          "ok \<longrightarrow> length bs \<le> sent + w + m" "set es' \<subseteq> set (tc_sends ?c)" "SendFail \<notin> set (tc_sends ?c) \<longrightarrow> ok"
        using 1(1) [OF True r [symmetric] Sent le] by auto
      have "take w (drop sent bs) @ take m (drop (sent + w) bs) = take (w + m) (drop sent bs)"
        unfolding take_add by (simp add: add.commute)
      then show ?thesis
        using ih es unfolding step by (intro exI [of _ ok] exI [of _ "w + m"] exI [of _ es']) auto
    next
      case SendEINTR
      have step: "write_loop bs sent c = write_loop bs sent (c\<lparr>tc_sends := es\<rparr>)"
        using True r SendEINTR by (subst write_loop.simps) simp
      let ?c = "c\<lparr>tc_sends := es\<rparr>"
      obtain ok m es' where "write_loop bs sent ?c = (ok, ?c\<lparr>tc_sends := es', tc_out := tc_out ?c @ take m (drop sent bs)\<rparr>)"
          "ok \<longrightarrow> length bs \<le> sent + m" "set es' \<subseteq> set (tc_sends ?c)" "SendFail \<notin> set (tc_sends ?c) \<longrightarrow> ok"
        using 1(2) [OF True r [symmetric] SendEINTR 1(3)] by blast
      then show ?thesis
        using es unfolding step by (intro exI [of _ ok] exI [of _ m] exI [of _ es']) auto
    next
      case SendError
      then show ?thesis
        using True r es by (subst write_loop.simps) (auto intro!: exI [of _ 0] exI [of _ es])
    qed
  next
    case False
    then show ?thesis
      using 1(3) by (subst write_loop.simps) (auto intro!: exI [of _ 0] exI [of _ "tc_sends c"])
  qed
qed

lemma write_full_ok:
  assumes "SendFail \<notin> set (tc_sends c)"
  shows "\<exists>es. write_full bs c = (True, c\<lparr>tc_sends := es, tc_out := tc_out c @ bs\<rparr>) \<and> SendFail \<notin> set es"
  using write_loop_out [of 0 bs c] assms by (auto simp: write_full_def)

section \<open>What a connection should do\<close>

text \<open>The messages in a stream, each behind its length.\<close>

function frames :: "bytes \<Rightarrow> bytes list" where
  "frames xs = (let m = unat (be16 (xs ! 0) (xs ! 1)) in
     if 2 \<le> length xs \<and> 0 < m \<and> 2 + m \<le> length xs then take m (drop 2 xs) # frames (drop (2 + m) xs) else [])"
  by pat_completeness auto
termination
  by (relation "measure length") auto

declare frames.simps [simp del]

definition tcp_frame :: "bytes \<Rightarrow> bytes" where
  "tcp_frame bs = wr16 (of_nat (length bs)) @ bs"

text \<open>The backend's verdicts on a sequence of messages, and the replies among them.\<close>

fun serve_all :: "(nat \<Rightarrow> 's service) \<Rightarrow> nat \<Rightarrow> bytes list \<Rightarrow> 's \<Rightarrow> (bytes res list \<times> 's) option" where
  "serve_all respond k [] s = Some ([], s)"
| "serve_all respond k (m # ms) s =
     (case respond k m DNS_MAX_TCP_MSG_LEN False s of
        None \<Rightarrow> None
      | Some (r, s1) \<Rightarrow> map_option (\<lambda>(rs, s2). (r # rs, s2)) (serve_all respond (k + 1) ms s1))"

fun replies :: "bytes res list \<Rightarrow> bytes list" where
  "replies [] = []"
| "replies (Ok r # rs) = r # replies rs"
| "replies (_ # rs) = replies rs"

lemma frames_tcp_frame:
  assumes "0 < length bs" "length bs \<le> 65535"
  shows "frames (tcp_frame bs @ rest) = bs # frames rest"
proof -
  obtain a b where ab: "wr16 (of_nat (length bs)) = [a, b]" "be16 a b = of_nat (length bs)"
    using be16_wr16 [of "of_nat (length bs)"] by (simp add: wr16_def)
  have "unat (of_nat (length bs) :: u16) = length bs" using assms(2) by (simp add: unat_of_nat take_bit_nat_eq_self)
  then show ?thesis using assms(1) ab by (subst frames.simps) (simp add: tcp_frame_def)
qed

lemma frames_concat:
  "list_all (\<lambda>r. 0 < length r \<and> length r \<le> 65535) rs \<Longrightarrow> frames (concat (map tcp_frame rs)) = rs"
  by (induction rs) (auto simp: frames_tcp_frame, simp add: frames.simps)

lemma outlen_wr16:
  "[of_nat (drop_bit 8 n), of_nat n] = wr16 (of_nat n)"
  unfolding wr16_def by (auto intro!: bit_word_eqI simp: bit_simps)

lemma unat_mlen: "unat (v :: u16) \<le> DNS_MAX_TCP_MSG_LEN"
proof -
  have "unat v < 2 ^ LENGTH(16)" by (rule unsigned_less)
  then show ?thesis by (simp add: DNS_MAX_TCP_MSG_LEN_def)
qed

lemma conn_turn_last:
  assumes "frames (stream (tc_in c)) = []"
  shows "\<exists>es. conn_turn respond srv c s = Some (Ok (False, srv, c\<lparr>tc_in := es\<rparr>, s))"
proof (cases "2 \<le> length (stream (tc_in c))")
  case True
  let ?st = "stream (tc_in c)"
  obtain es where es: "read_full 2 2 (tc_in c) = Ok (Some (take 2 ?st), es)" "stream es = drop 2 ?st"
    using read_full_stream(1) [OF order.refl True] by blast
  define mlen where "mlen = be16 (?st ! 0) (?st ! Suc 0)"
  have "mlen = 0 \<or> \<not> unat mlen \<le> length (stream es)"
    using assms True unfolding mlen_def es(2) by (subst (asm) frames.simps) (auto simp: Let_def unsigned_eq_0_iff split: if_splits)
  moreover note read_full_stream(2) [OF unat_mlen [of mlen], of es]
  ultimately consider "mlen = 0" | es1 where "mlen \<noteq> 0" "read_full DNS_MAX_TCP_MSG_LEN (unat mlen) es = Ok (None, es1)"
    by blast
  then show ?thesis
  proof cases
    case 1
    then show ?thesis using es(1) by (intro exI [of _ es]) (simp add: conn_turn_def mlen_def [symmetric])
  next
    case (2 es1)
    then show ?thesis using es(1) by (intro exI [of _ es1]) (simp add: conn_turn_def mlen_def [symmetric])
  qed
next
  case False
  then show ?thesis using read_full_stream(2) [of 2 2 "tc_in c"] by (auto simp: conn_turn_def)
qed

lemma frames_Cons:
  assumes "frames xs = m # ms"
  shows "2 \<le> length xs" "be16 (xs ! 0) (xs ! Suc 0) \<noteq> 0" "unat (be16 (xs ! 0) (xs ! Suc 0)) \<le> length (drop 2 xs)"
    "m = take (unat (be16 (xs ! 0) (xs ! Suc 0))) (drop 2 xs)" "ms = frames (drop (unat (be16 (xs ! 0) (xs ! Suc 0))) (drop 2 xs))"
  using assms by (subst (asm) (1) frames.simps; force simp: Let_def unsigned_eq_0_iff add.commute split: if_splits)+

text \<open>One message, with the verdict \<open>r\<close> of the backend on it.\<close>

lemma conn_turn_message:
  assumes f: "frames (stream (tc_in c)) = m # ms" and nf: "SendFail \<notin> set (tc_sends c)"
    and resp: "respond m DNS_MAX_TCP_MSG_LEN False s = Some (r, s1)" "r \<noteq> Fault"
      "\<And>x. r = Ok x \<Longrightarrow> 0 < length x \<and> length x \<le> DNS_MAX_TCP_MSG_LEN"
  shows "\<exists>c'. conn_turn respond srv c s = Some (Ok (True, srv\<lparr>ts_queries := ts_queries srv + 1,
      ts_answered := ts_answered srv + of_nat (length (replies [r]))\<rparr>, c', s1)) \<and>
    frames (stream (tc_in c')) = ms \<and> SendFail \<notin> set (tc_sends c') \<and>
    tc_out c' = tc_out c @ concat (map tcp_frame (replies [r]))"
proof -
  let ?st = "stream (tc_in c)"
  define mlen where "mlen = be16 (?st ! 0) (?st ! Suc 0)"
  note fr = frames_Cons [OF f, folded mlen_def]
  obtain es where es: "read_full 2 2 (tc_in c) = Ok (Some (take 2 ?st), es)" "stream es = drop 2 ?st"
    using read_full_stream(1) [OF order.refl fr(1)] by blast
  obtain es1 where es1: "read_full DNS_MAX_TCP_MSG_LEN (unat mlen) es = Ok (Some m, es1)" "ms = frames (stream es1)"
    using read_full_stream(1) [OF unat_mlen [of mlen], of es] fr(3,4,5) es(2) by metis
  let ?c = "c\<lparr>tc_in := es1\<rparr>"
  show ?thesis
  proof (cases r)
    case (Ok x)
    obtain es2 where w1: "write_full (wr16 (of_nat (length x))) ?c = (True, ?c\<lparr>tc_sends := es2, tc_out := tc_out c @ wr16 (of_nat (length x))\<rparr>)"
        "SendFail \<notin> set es2"
      using write_full_ok [of ?c "wr16 (of_nat (length x))"] nf by auto
    let ?c2 = "?c\<lparr>tc_sends := es2, tc_out := tc_out c @ wr16 (of_nat (length x))\<rparr>"
    obtain es3 where w2: "write_full x ?c2 = (True, ?c2\<lparr>tc_sends := es3, tc_out := tc_out ?c2 @ x\<rparr>)" "SendFail \<notin> set es3"
      using write_full_ok [of ?c2 x] w1(2) by auto
    show ?thesis
      using es(1) es1 fr(2) resp(1) resp(3) [OF Ok] Ok w1 w2
      by (simp add: conn_turn_def mlen_def [symmetric] Let_def outlen_wr16 tcp_frame_def)
  next
    case Err
    then show ?thesis
      using es(1) es1 fr(2) resp(1) nf by (simp add: conn_turn_def mlen_def [symmetric] Let_def)
  qed (use resp(2) in simp)
qed

lemma length_replies: "length (replies (r # rs)) = length (replies [r]) + length (replies rs)"
  "concat (map tcp_frame (replies (r # rs))) = concat (map tcp_frame (replies [r])) @ concat (map tcp_frame (replies rs))"
  by (cases r; simp)+

text \<open>The loop does to the stream what the backend does to its messages, one after the other.\<close>

lemma conn_loop_serves:
  assumes "\<And>k. dns_service (respond k) ready"
    and "serve_all respond k (frames (stream (tc_in c))) s = Some (rs, s')" "ready s" "SendFail \<notin> set (tc_sends c)"
  shows "\<exists>c'. conn_loop respond k srv c s = Some (Ok (srv\<lparr>ts_queries := ts_queries srv + of_nat (length rs),
      ts_answered := ts_answered srv + of_nat (length (replies rs))\<rparr>, c', s')) \<and>
    tc_out c' = tc_out c @ concat (map tcp_frame (replies rs))"
  using assms(2-)
proof (induction "frames (stream (tc_in c))" arbitrary: k srv c s rs)
  case Nil
  then have "rs = []" "s' = s" by auto
  then show ?case using conn_turn_last [of c "respond k" srv s] Nil(1) by (auto simp: conn_loop.simps)
next
  case (Cons m ms)
  note f = Cons.hyps(2) [symmetric]
  obtain r s1 rs1 where r: "respond k m DNS_MAX_TCP_MSG_LEN False s = Some (r, s1)"
      "serve_all respond (k + 1) ms s1 = Some (rs1, s')" "rs = r # rs1"
    using Cons.prems(1) unfolding f by (auto split: option.splits prod.splits)
  have cap: "512 \<le> DNS_MAX_TCP_MSG_LEN" by (simp add: DNS_MAX_TCP_MSG_LEN_def)
  note svc = dns_service.respond_keeps [OF assms(1) Cons.prems(2) cap r(1)]
  have "0 < length x \<and> length x \<le> DNS_MAX_TCP_MSG_LEN" if "r = Ok x" for x
    using dns_service.respond_reply [OF assms(1) Cons.prems(2) cap] r(1) that
    by (fastforce simp: reply_to_def DNS_HDR_LEN_def)
  then obtain c' where turn: "conn_turn (respond k) srv c s = Some (Ok (True, srv\<lparr>ts_queries := ts_queries srv + 1,
        ts_answered := ts_answered srv + of_nat (length (replies [r]))\<rparr>, c', s1))"
      "frames (stream (tc_in c')) = ms" "SendFail \<notin> set (tc_sends c')"
      "tc_out c' = tc_out c @ concat (map tcp_frame (replies [r]))"
    using conn_turn_message [OF f Cons.prems(3), of "respond k"] r(1) svc by blast
  have step: "conn_loop respond k srv c s = conn_loop respond (k + 1) (srv\<lparr>ts_queries := ts_queries srv + 1,
        ts_answered := ts_answered srv + of_nat (length (replies [r]))\<rparr>) c' s1"
    by (subst conn_loop.simps) (simp add: turn(1))
  let ?srv = "srv\<lparr>ts_queries := ts_queries srv + 1, ts_answered := ts_answered srv + of_nat (length (replies [r]))\<rparr>"
  from Cons.hyps(1) [OF turn(2) [symmetric], of "k + 1" s1 rs1 ?srv] r(2) svc turn(2,3)
  obtain c'' where "conn_loop respond (k + 1) (srv\<lparr>ts_queries := ts_queries srv + 1,
        ts_answered := ts_answered srv + of_nat (length (replies [r]))\<rparr>) c' s1 =
      Some (Ok (srv\<lparr>ts_queries := ts_queries srv + 1 + of_nat (length rs1),
        ts_answered := ts_answered srv + of_nat (length (replies [r])) + of_nat (length (replies rs1))\<rparr>, c'', s'))"
      "tc_out c'' = tc_out c' @ concat (map tcp_frame (replies rs1))"
    by auto
  then show ?case unfolding step r(3) length_replies [of r rs1]
    by (simp add: turn(4) add.assoc)
qed

section \<open>The table\<close>

lemma free_slot_Some: "free_slot fds = Some i \<Longrightarrow> i < length fds \<and> fds ! i = - 1"
  by (induction fds arbitrary: i) (auto split: if_splits)

lemma free_slot_None: "free_slot fds = None \<longleftrightarrow> - 1 \<notin> set fds"
  by (induction fds) auto

text \<open>Each thread owns its slot and its descriptor; every other slot is empty.\<close>

definition tcp_inv :: "tcp_world \<Rightarrow> bool" where
  "tcp_inv w \<longleftrightarrow> length (ts_conn_fds (tw_srv w)) = DNS_TCP_MAX_CONNS \<and>
     distinct (map fst (tw_threads w)) \<and> distinct (map snd (tw_threads w)) \<and>
     (\<forall>i fd. (i, fd) \<in> set (tw_threads w) \<longrightarrow> i < DNS_TCP_MAX_CONNS \<and> 0 \<le> fd \<and> ts_conn_fds (tw_srv w) ! i = fd) \<and>
     (\<forall>i < DNS_TCP_MAX_CONNS. i \<notin> fst ` set (tw_threads w) \<longrightarrow> ts_conn_fds (tw_srv w) ! i = - 1) \<and>
     tw_open w = snd ` set (tw_threads w) \<and>
     ts_active_conns (tw_srv w) = int (length (tw_threads w)) + int (tw_leaving w) \<and>
     (tw_freed w \<longrightarrow> tw_threads w = [] \<and> tw_leaving w = 0 \<and> \<not> tw_accepting w)"

lemma tcp_inv_slot:
  assumes "tcp_inv w" "i < DNS_TCP_MAX_CONNS"
  shows "ts_conn_fds (tw_srv w) ! i = - 1 \<longleftrightarrow> i \<notin> fst ` set (tw_threads w)"
  using assms unfolding tcp_inv_def by force

lemma reserve_inv:
  assumes inv: "tcp_inv w" and fd: "0 \<le> fd" "fd \<notin> tw_open w" and r: "conn_reserve fd (tw_srv w) = (Some slot, srv)"
    and live: "tw_accepting w"
  shows "tcp_inv (w\<lparr>tw_open := insert fd (tw_open w), tw_srv := srv, tw_threads := tw_threads w @ [(slot, fd)]\<rparr>)"
proof -
  have s: "free_slot (ts_conn_fds (tw_srv w)) = Some slot" and
    srv: "srv = (tw_srv w)\<lparr>ts_conn_fds := (ts_conn_fds (tw_srv w))[slot := fd], ts_active_conns := ts_active_conns (tw_srv w) + 1\<rparr>"
    using r by (auto simp: conn_reserve_def split: option.splits)
  have slot: "slot < DNS_TCP_MAX_CONNS" using free_slot_Some [OF s] inv by (simp add: tcp_inv_def)
  then have new: "slot \<notin> fst ` set (tw_threads w)" using free_slot_Some [OF s] tcp_inv_slot [OF inv] by simp
  then show ?thesis
    using inv fd slot live unfolding srv tcp_inv_def by (force simp: nth_list_update)
qed

lemma release_inv:
  assumes inv: "tcp_inv w" and t: "(slot, fd) \<in> set (tw_threads w)"
  shows "\<exists>w'. conn_release_locked slot fd w = Ok w' \<and>
    tcp_inv (w'\<lparr>tw_threads := remove1 (slot, fd) (tw_threads w'), tw_leaving := tw_leaving w' + 1\<rparr>)"
proof -
  let ?ts = "remove1 (slot, fd) (tw_threads w)"
  let ?w = "w\<lparr>tw_srv := (tw_srv w)\<lparr>ts_conn_fds := (ts_conn_fds (tw_srv w))[slot := - 1]\<rparr>, tw_open := tw_open w - {fd}\<rparr>"
  have slot: "slot < DNS_TCP_MAX_CONNS" "slot < length (ts_conn_fds (tw_srv w))" using inv t by (auto simp: tcp_inv_def)
  have "fd \<in> tw_open w" using inv imageI [OF t, of snd] by (simp add: tcp_inv_def)
  then have "conn_release_locked slot fd w = Ok ?w"
    using slot(2) by (simp add: conn_release_locked_def release_slot_def close_fd_def)
  moreover have "tcp_inv (?w\<lparr>tw_threads := ?ts, tw_leaving := tw_leaving w + 1\<rparr>)"
  proof -
    have d: "distinct (tw_threads w)" "inj_on fst (set (tw_threads w))" "inj_on snd (set (tw_threads w))"
      using inv by (auto simp: tcp_inv_def distinct_map)
    then have set: "set ?ts = set (tw_threads w) - {(slot, fd)}" by simp
    have "distinct (map fst ?ts)" "distinct (map snd ?ts)"
      using d by (auto simp: distinct_map intro: inj_on_diff)
    moreover have img: "fst ` set ?ts = fst ` set (tw_threads w) - {slot}" "snd ` set ?ts = snd ` set (tw_threads w) - {fd}"
      unfolding set
      using inj_on_image_set_diff [OF d(2), of "set (tw_threads w)" "{(slot, fd)}"]
        inj_on_image_set_diff [OF d(3), of "set (tw_threads w)" "{(slot, fd)}"] t by auto
    moreover have "i \<noteq> slot" if "(i, x) \<in> set ?ts" for i x using imageI [OF that, of fst] img(1) by simp
    moreover have "length (tw_threads w) = Suc (length ?ts)"
      using t length_pos_if_in_set [OF t] by (simp add: length_remove1)
    ultimately show ?thesis
      using inv slot t unfolding tcp_inv_def by (auto simp: nth_list_update set)
  qed
  ultimately show ?thesis by (intro exI [of _ ?w]) simp
qed

lemma reserve_full:
  assumes "tcp_inv w"
  shows "fst (conn_reserve fd (tw_srv w)) = None \<longleftrightarrow> length (tw_threads w) = DNS_TCP_MAX_CONNS"
    "length (tw_threads w) \<le> DNS_TCP_MAX_CONNS"
proof -
  let ?fds = "ts_conn_fds (tw_srv w)" and ?used = "fst ` set (tw_threads w)"
  have sub: "?used \<subseteq> {..<DNS_TCP_MAX_CONNS}" and len: "length ?fds = DNS_TCP_MAX_CONNS"
    using assms by (auto simp: tcp_inv_def)
  have card: "card ?used = length (tw_threads w)"
    using assms distinct_card [of "map fst (tw_threads w)"] by (simp add: tcp_inv_def)
  then show "length (tw_threads w) \<le> DNS_TCP_MAX_CONNS" using card_mono [OF _ sub] by simp
  have "fst (conn_reserve fd (tw_srv w)) = None \<longleftrightarrow> - 1 \<notin> set ?fds"
    by (auto simp: conn_reserve_def free_slot_None [symmetric] split: option.splits)
  also have "\<dots> \<longleftrightarrow> (\<forall>i < DNS_TCP_MAX_CONNS. i \<in> ?used)"
    using tcp_inv_slot [OF assms] by (auto simp: in_set_conv_nth len)
  also have "\<dots> \<longleftrightarrow> ?used = {..<DNS_TCP_MAX_CONNS}" using sub by auto
  also have "\<dots> \<longleftrightarrow> length (tw_threads w) = DNS_TCP_MAX_CONNS"
    using card card_subset_eq [OF _ sub] by auto
  finally show "fst (conn_reserve fd (tw_srv w)) = None \<longleftrightarrow> length (tw_threads w) = DNS_TCP_MAX_CONNS" .
qed

lemma tcp_inv_scan:
  assumes "tcp_inv w"
  shows "set (stop_scan (tw_srv w)) = tw_open w"
proof -
  let ?fds = "ts_conn_fds (tw_srv w)"
  have len: "length ?fds = DNS_TCP_MAX_CONNS" and own: "tw_open w = snd ` set (tw_threads w)"
    using assms by (simp_all add: tcp_inv_def)
  have th: "i < DNS_TCP_MAX_CONNS \<and> 0 \<le> fd \<and> ?fds ! i = fd" if "(i, fd) \<in> set (tw_threads w)" for i fd
    using assms that unfolding tcp_inv_def by blast
  show ?thesis
  proof
    show "set (stop_scan (tw_srv w)) \<subseteq> tw_open w"
    proof
      fix fd
      assume "fd \<in> set (stop_scan (tw_srv w))"
      then obtain i where i: "i < DNS_TCP_MAX_CONNS" "?fds ! i = fd" "fd \<noteq> - 1"
        by (auto simp: stop_scan_def in_set_conv_nth len)
      then obtain x where x: "(i, x) \<in> set (tw_threads w)" using tcp_inv_slot [OF assms i(1)] by auto
      then show "fd \<in> tw_open w" using th [OF x] i(2) own by force
    qed
    show "tw_open w \<subseteq> set (stop_scan (tw_srv w))"
      using th unfolding own by (force simp: stop_scan_def in_set_conv_nth len)
  qed
qed

text \<open>A connection that is refused, or whose thread cannot be started, leaves no trace but a counter.\<close>

lemma release_undoes_reserve:
  assumes "conn_reserve fd (tw_srv w) = (Some i, srv)" "fd \<notin> tw_open w"
  shows "conn_release i fd (w\<lparr>tw_open := insert fd (tw_open w), tw_srv := srv\<rparr>) = Ok w"
proof -
  let ?fds = "ts_conn_fds (tw_srv w)"
  have i: "free_slot ?fds = Some i" and srv: "srv = (tw_srv w)\<lparr>ts_conn_fds := ?fds[i := fd], ts_active_conns := ts_active_conns (tw_srv w) + 1\<rparr>"
    using assms(1) by (auto simp: conn_reserve_def split: option.splits)
  have "?fds[i := - 1] = ?fds" using free_slot_Some [OF i] by (metis list_update_id)
  then show ?thesis
    using free_slot_Some [OF i] assms(2) unfolding srv
    by (simp add: conn_release_def conn_release_locked_def release_slot_def close_fd_def release_count_def)
qed

lemma accept_inv:
  assumes inv: "tcp_inv w" and live: "tw_accepting w" and fd: "0 \<le> fd" "fd \<notin> tw_open w"
  shows "\<exists>w'. accept_turn (Some fd) malloc create w = Ok w' \<and> tcp_inv w'"
proof (cases "conn_reserve fd (tw_srv w)")
  case (Pair slot srv)
  show ?thesis
  proof (cases slot)
    case None
    then have "srv = tw_srv w" using Pair by (auto simp: conn_reserve_def split: option.splits)
    then show ?thesis using inv fd Pair None by (simp add: accept_turn_def close_fd_def tcp_inv_def)
  next
    case (Some i)
    let ?w = "w\<lparr>tw_open := insert fd (tw_open w), tw_srv := srv\<rparr>"
    have inv1: "tcp_inv (?w\<lparr>tw_threads := tw_threads w @ [(i, fd)]\<rparr>)"
      using reserve_inv [OF inv fd _ live] Pair Some by simp
    have "conn_release i fd ?w = Ok w" using release_undoes_reserve fd(2) Pair Some by simp
    moreover have "tcp_inv (?w\<lparr>tw_threads := tw_threads w @ [(i, fd)], tw_srv := srv\<lparr>ts_accepted := ts_accepted srv + 1\<rparr>\<rparr>)"
      using inv1 by (simp add: tcp_inv_def)
    ultimately show ?thesis using Pair Some inv by (simp add: accept_turn_def Let_def)
  qed
qed

lemma tcp_run_inv: "tcp_run w \<Longrightarrow> tcp_inv w"
proof (induction rule: tcp_run.induct)
  case (tcp_start calloc socket bind listen create srv lfd)
  then have "srv = tcp_server_init" by (auto simp: dns_tcp_server_start_def split: if_splits)
  then show ?case by (simp add: tcp_inv_def tcp_server_init_def)
next
  case (tcp_accept w accepted malloc create w')
  then show ?case
    using accept_inv [of w "the accepted" malloc create] by (cases accepted) (auto simp: accept_turn_def)
next
  case (tcp_leave w slot fd w')
  then show ?case using release_inv [of w slot fd] by auto
next
  case (tcp_free w)
  then have "int (length (tw_threads w)) + int (tw_leaving w) \<le> 0" by (simp add: tcp_inv_def)
  then have "length (tw_threads w) = 0" "tw_leaving w = 0" by linarith+
  then show ?case using tcp_free by (simp add: tcp_inv_def)
qed (auto simp: tcp_inv_def release_count_def)

section \<open>The recursive backend behind a connection\<close>

text \<open>
  Call \<open>k\<close> of a connection, on occasion \<open>occ k\<close>; \<open>others k\<close> is what the rest of the process did to the
  shared cache and resolver state since the call before it.
\<close>

definition shared_backend ::
  "(node_heap \<Rightarrow> nat option) \<Rightarrow> (nat \<Rightarrow> 'w occasion) \<Rightarrow> (nat \<Rightarrow> 'w resolver \<Rightarrow> 'w resolver) \<Rightarrow> nat \<Rightarrow> 'w resolver service" where
  "shared_backend calloc occ others k = (\<lambda>query cap is_udp v. recursive_backend calloc (occ k) query cap is_udp (others k v))"

lemma shared_service:
  assumes "\<forall>k v. backend_ready calloc v \<longrightarrow> backend_ready calloc (others k v)"
  shows "dns_service (shared_backend calloc occ others k) (backend_ready calloc)"
proof
  fix s cap query is_udp r s'
  assume a: "backend_ready calloc s" "512 \<le> cap" "shared_backend calloc occ others k query cap is_udp s = Some (r, s')"
  then have "backend_ready calloc (others k s)" using assms by blast
  from dns_service.respond_keeps [OF recursive_service this a(2) a(3) [unfolded shared_backend_def]]
  show "backend_ready calloc s' \<and> r \<noteq> Fault" .
next
  fix s cap query is_udp resp s'
  assume a: "backend_ready calloc s" "512 \<le> cap" "shared_backend calloc occ others k query cap is_udp s = Some (Ok resp, s')"
  then have "backend_ready calloc (others k s)" using assms by blast
  from dns_service.respond_reply [OF recursive_service this a(2) a(3) [unfolded shared_backend_def]]
  show "reply_to query resp \<and> length resp \<le> cap" .
qed

lemma serve_all_answers:
  assumes others: "\<forall>k v. backend_ready calloc v \<longrightarrow> backend_ready calloc (others k v)"
    and settle: "\<forall>k w. case occ k of (fuel, net, _) \<Rightarrow> settles fuel net w"
    and "backend_ready calloc v"
  shows "\<exists>rs v'. serve_all (shared_backend calloc occ others) k ms v = Some (rs, v') \<and>
    list_all2 (\<lambda>m r. answered (0, 0, 0, m, DNS_MAX_TCP_MSG_LEN, False) r) ms rs"
  using assms(3)
proof (induction ms arbitrary: k v)
  case (Cons m ms)
  obtain fuel net t now now' where occ: "occ k = (fuel, net, t, now, now')" by (cases "occ k") auto
  have cap: "512 \<le> DNS_MAX_TCP_MSG_LEN" by (simp add: DNS_MAX_TCP_MSG_LEN_def)
  have rdy: "backend_ready calloc (others k v)" using others Cons.prems by blast
  then have inv: "resolver_inv (others k v)" "\<forall>h p. calloc h = Some p \<longrightarrow> h p = None" by (auto simp: backend_ready_def)
  have "\<forall>w. settles fuel net w" using spec [OF settle, of k] by (simp add: occ)
  from backend_run_answers [OF inv(2) this inv(1), of "[(t, now, now', m, DNS_MAX_TCP_MSG_LEN, False)]"] cap
  obtain r v1 where r: "shared_backend calloc occ others k m DNS_MAX_TCP_MSG_LEN False v = Some (r, v1)"
      "answered (t, now, now', m, DNS_MAX_TCP_MSG_LEN, False) r"
    by (auto simp: shared_backend_def recursive_backend_def occ split: option.splits)
  have svc: "dns_service (shared_backend calloc occ others k) (backend_ready calloc)" by (rule shared_service) (rule others)
  have "backend_ready calloc v1" using dns_service.respond_keeps [OF svc Cons.prems cap r(1)] by simp
  from Cons.IH [OF this, of "k + 1"] r show ?case by (auto simp: answered_def)
qed simp

lemma answered_sizes:
  "list_all2 (\<lambda>m r. answered (0, 0, 0, m, DNS_MAX_TCP_MSG_LEN, False) r) ms rs \<Longrightarrow>
    list_all (\<lambda>r. 0 < length r \<and> length r \<le> 65535) (replies rs)"
proof (induction ms rs rule: list_all2_induct)
  case (Cons m ms r rs)
  have "0 < length x \<and> length x \<le> 65535" if "r = Ok x" for x
    using Cons(1) that
    by (auto simp: answered_def client_sees_def reply_to_def DNS_HDR_LEN_def DNS_MAX_TCP_MSG_LEN_def split: res.splits)
  then show ?case using Cons by (cases r) auto
qed simp

section \<open>Properties\<close>


text \<open>C36: The table of TCP connections is sound in every interleaving of its threads. At most 128
  connections are open; each belongs to one thread and one slot, and a new one is refused exactly
  when there are 128. A thread that ends can always release its slot and closes a descriptor that is
  still its own. The scan in \<^verbatim>\<open>dns_tcp_server_stop\<close> shuts down exactly the open connections, and by the
  time the record is freed no connection is open and no thread will touch the record again.\<close>

theorem tcp_table_sound:
  assumes "tcp_run w"
  shows "length (tw_threads w) \<le> 128 \<and> distinct (map fst (tw_threads w)) \<and> distinct (map snd (tw_threads w)) \<and>
    tw_open w = snd ` set (tw_threads w) \<and> set (stop_scan (tw_srv w)) = tw_open w \<and>
    ts_active_conns (tw_srv w) = int (length (tw_threads w)) + int (tw_leaving w) \<and>
    (fst (conn_reserve fd (tw_srv w)) = None \<longleftrightarrow> length (tw_threads w) = 128) \<and>
    list_all (\<lambda>(slot, fd). is_ok (conn_release_locked slot fd w)) (tw_threads w) \<and>
    (tw_freed w \<longrightarrow> tw_threads w = [] \<and> tw_leaving w = 0 \<and> tw_open w = {} \<and> \<not> tw_accepting w)"
proof -
  note inv = tcp_run_inv [OF assms]
  have "list_all (\<lambda>(slot, fd). is_ok (conn_release_locked slot fd w)) (tw_threads w)"
    using release_inv [OF inv] by (fastforce simp: list_all_iff)
  then show ?thesis
    using inv reserve_full [OF inv] tcp_inv_scan [OF inv] by (simp add: tcp_inv_def DNS_TCP_MAX_CONNS_def)
qed

text \<open>One message that is not a query, cut in two segments with a signal between them.\<close>

definition demo_conn :: tcp_conn where
  "demo_conn = \<lparr>tc_in = [Data [0], RecvIntr, Data [2, 9], Data [9]], tc_sends = [Accept 1], tc_out = []\<rparr>"

definition demo_backend :: "unit resolver" where
  "demo_backend = dns_backend_init None \<lparr>rv_cache = cache_static, rv_state = first_state\<rparr>"

lemma any_free_fresh: "\<forall>h p. any_free h = Some p \<longrightarrow> h p = None"
  by (auto simp: any_free_def intro: someI split: if_splits)


definition demo_world :: tcp_world where
  "demo_world = \<lparr>tw_srv = tcp_server_init, tw_open = {}, tw_threads = [], tw_leaving = 0, tw_accepting = True, tw_freed = False\<rparr>"

theorem tcp_table_sound_witness:
  "set (stop_scan (tw_srv demo_world)) = tw_open demo_world \<and>
    (fst (conn_reserve 7 (tw_srv demo_world)) = None \<longleftrightarrow> length (tw_threads demo_world) = 128)"
proof -
  have "tcp_run demo_world"
    unfolding demo_world_def
    by (rule tcp_start [of True 3 True True True _ 3]) (simp add: dns_tcp_server_start_def)
  from tcp_table_sound [OF this, of 7] show ?thesis by blast
qed

end
