(* ===== verification/Spec2Isabelle.thy ===== *)
theory Spec2Isabelle
  imports DnsBackend ResolverStub XskMain UdpServer DnsTcp
begin

text \<open>
  Verification of fizzDNS, a recursive DNS resolver with two transports.

  \<^bold>\<open>The program.\<close> Queries come in over AF_XDP (\<^verbatim>\<open>af_xdp_kern.c\<close> filters them in the kernel,
  \<^verbatim>\<open>af_xdp_user.c\<close> and \<^verbatim>\<open>xsk_setup.c\<close> move frames through the rings), over plain UDP sockets
  (\<^verbatim>\<open>server.c\<close>) or over TCP (\<^verbatim>\<open>dns_tcp.c\<close>). All of them hand a message to a backend through the one
  function of \<^verbatim>\<open>dns_iface.h\<close>. The recursive backend (\<^verbatim>\<open>dns_backend.c\<close>) parses it (\<^verbatim>\<open>dns_msg.c\<close>), resolves
  it iteratively from the root (\<^verbatim>\<open>resolver.c\<close>) with a cache of answers (\<^verbatim>\<open>dns_cache.c\<close>) behind a counting
  Bloom filter (\<^verbatim>\<open>dns_bloom.c\<close>), and builds the reply. The stub backend (\<^verbatim>\<open>resolver_stub.c\<close>) answers
  every query with one fixed address.

  \<^bold>\<open>Conventions.\<close> Definitions carry the names of the C functions and structures. Machine integers are
  words of their width; a byte string is a list of bytes. A routine that touches memory
  returns \<open>'a res\<close> (theory \<open>Prelude\<close>): \<open>Ok\<close>, \<open>Err\<close> for the code's own error returns, and \<open>Fault\<close> for an access
  outside an object, through a dangling pointer, or a failed assertion. \<open>Fault\<close> is no behaviour of
  the code, so that its absence is memory safety. Threads are steps of an inductive relation: a
  critical section under a mutex is one step, an atomic operation is one step, and the theorems hold
  for every interleaving. What system calls, allocators, clocks, libxdp and libbpf return are
  arguments, and what is documented of them are named hypotheses (\<open>lib_ok\<close> for the ring library, fresh
  addresses for \<^verbatim>\<open>calloc\<close>).

  \<^bold>\<open>Theories.\<close>

  \<^item> \<open>DnsName\<close>, \<open>DnsMsg\<close>: \<^verbatim>\<open>dns_msg.c\<close> and \<^verbatim>\<open>dns_msg.h\<close>. The name decoder accepts exactly the grammar of RFC
    1035 within the code's limits; encode and decode are inverse; no parser leaves its message;
    queries and responses parse back to what they were built from, within the size limits.

  \<^item> \<open>DnsBloom\<close>: \<^verbatim>\<open>dns_bloom.c\<close>. The locale \<open>membership_filter\<close> is the filter's contract, interpreted for the
    counting filter and for the stub of the disabled build. The filter never denies a live key, also
    while another thread is halfway through an update.

  \<^item> \<open>DnsCache\<close>, \<open>CacheHeap\<close>, \<open>CacheRefinement\<close>: \<^verbatim>\<open>dns_cache.c\<close> on a heap of nodes, refined to a list of
    entries in order of use. The locale \<open>answer_cache\<close> is what the resolver relies on.

  \<^item> \<open>Inet\<close>, \<open>Dissect\<close>, \<open>Resolver\<close>: \<^verbatim>\<open>resolver.c\<close>. What is kept of a reply is in bailiwick and on the alias
    chain; referrals go strictly down; a reply counts only if id, response bit and question match;
    resolution returns, with a bounded number of upstream queries; the cache holds only sound entries.

  \<^item> \<open>DnsIface\<close>, \<open>DnsBackend\<close>, \<open>ResolverStub\<close>: the interface to the backends as the locales \<open>dns_service\<close> and
    \<open>live_service\<close>, with an interpretation for each backend.

  \<^item> \<open>XdpKern\<close>, \<open>XskFrames\<close>: the kernel filter and the frames in user space. What the filter redirects
    becomes a job, and the response frame goes back to the sender with a checksum that verifies.

  \<^item> \<open>XskRings\<close>: the frame allocator and the loop thread's functions on the four rings, with the kernel's
    side as further steps. Each UMEM frame always has exactly one owner.

  \<^item> \<open>JobQueue\<close>: the linked queues of both transports, as interpretations of the locale \<open>job_fifo\<close>, and the
    eventfd that wakes a packet loop.

  \<^item> \<open>XskWorkers\<close>, \<open>UdpServer\<close>, \<open>DnsTcp\<close>: the transports over the recursive backend. Each query is answered
    at most once, to its sender, through the loop, socket or connection it came from.

  \<^bold>\<open>Bounds and fuel.\<close> Walks of cache chains take \<open>CACHE_CAPACITY + 1\<close> steps of fuel, more than the chains can
  have nodes, and running out is a \<open>Fault\<close> that the refinement theorems exclude. The receive loop of
  a round trip takes a fuel, because nothing in the code bounds it: running out is \<open>None\<close>, and
  resolution is proved to return when the sockets are not flooded for ever. The walk over a drained
  done queue takes the number of live jobs. All other recursions are structural or have a measure.

  \<^bold>\<open>Not modelled.\<close> Parsing of command line options, thread creation and pinning, signal handlers, and the printing of statistics: they
  are single system calls and output with no state of their own.
\<close>

end
